(* ===== verification/Prelude.thy ===== *)
theory Prelude
  imports "HOL-Library.Word" "HOL-Library.AList" "HOL-Library.Multiset" "HOL-Library.Log_Nat"
begin

text \<open>
  Shared vocabulary of the development: Go's fixed-width integers, the maps of the cache as
  association lists, the order in which Go's \<open>range\<close> visits a map, decimal rendering, and the
  generic lemmas the component theories use.

  A Go \<open>uint64\<close>, \<open>uint32\<close> or \<open>uint8\<close> is a word. A Go \<open>int64\<close> or \<open>int32\<close> is an \<open>int\<close> that every
  arithmetic operation wraps explicitly with \<open>wrap64\<close> or \<open>wrap32\<close>, so that overflow is visible
  where it can happen and signed comparisons stay ordinary comparisons.
\<close>

unbundle bit_operations_syntax

named_theorems wrap_simps \<open>wrap-around vanishes inside the range of the type\<close>
named_theorems frame_simps \<open>fields an operation does not write\<close>

type_synonym u64 = "64 word"
type_synonym u32 = "32 word"
type_synonym byte = "8 word"

section \<open>Unsigned machine integers\<close>

lemma unat_inc: "unat (w::'a::len word) < 2 ^ LENGTH('a) - 1 \<Longrightarrow> unat (w + 1) = Suc (unat w)"
  by (subst unat_word_ariths) (auto simp: unat_1 intro!: mod_less)

lemma inc_below_max: "(w::'a::len word) < - 1 \<Longrightarrow> unat (w + 1) = Suc (unat w)"
  by (metis unatSuc word_order.extremum_strict add.commute add_eq_0_iff minus_equation_iff order_less_irrefl)

lemma unat_of_small: "n < 2 ^ LENGTH('a) \<Longrightarrow> unat (of_nat n :: 'a::len word) = n"
  by (simp add: unat_of_nat take_bit_nat_eq_self)

section \<open>Signed machine integers\<close>

definition wrap64 :: "int \<Rightarrow> int" where
  "wrap64 x = signed_take_bit 63 x"

definition wrap32 :: "int \<Rightarrow> int" where
  "wrap32 x = signed_take_bit 31 x"

abbreviation max_i64 :: int where "max_i64 \<equiv> 2 ^ 63 - 1"
abbreviation max_i32 :: int where "max_i32 \<equiv> 2 ^ 31 - 1"

abbreviation in_i64 :: "int \<Rightarrow> bool" where "in_i64 x \<equiv> - (2 ^ 63) \<le> x \<and> x < 2 ^ 63"
abbreviation in_i32 :: "int \<Rightarrow> bool" where "in_i32 x \<equiv> - (2 ^ 31) \<le> x \<and> x < 2 ^ 31"

lemma wrap64_id [wrap_simps]: "in_i64 x \<Longrightarrow> wrap64 x = x"
  by (simp add: wrap64_def signed_take_bit_int_eq_self)

lemma wrap32_id [wrap_simps]: "in_i32 x \<Longrightarrow> wrap32 x = x"
  by (simp add: wrap32_def signed_take_bit_int_eq_self)

lemma in_i64_small: "0 \<le> x \<Longrightarrow> x \<le> 2 ^ 62 \<Longrightarrow> in_i64 x" "0 \<le> x \<Longrightarrow> x \<le> 2 ^ 62 \<Longrightarrow> in_i64 (x + 1)"
  by simp_all

lemma wrap64_range: "in_i64 (wrap64 x)"
  using signed_take_bit_int_greater_eq_minus_exp[of 63 x] signed_take_bit_int_less_exp[of 63 x]
  by (simp add: wrap64_def)

lemma wrap64_add [simp]: "wrap64 (wrap64 a + b) = wrap64 (a + b)" "wrap64 (a + wrap64 b) = wrap64 (a + b)"
  using signed_take_bit_add[of 63 a b] signed_take_bit_add[of 63 "wrap64 a" b]
    signed_take_bit_add[of 63 a "wrap64 b"]
  by (simp_all add: wrap64_def)

lemma wrap64_sub [simp]: "wrap64 (wrap64 a - b) = wrap64 (a - b)"
  using wrap64_add(1)[of a "- b"] by simp

lemma wrap32_range: "in_i32 (wrap32 x)"
  using signed_take_bit_int_greater_eq_minus_exp[of 31 x] signed_take_bit_int_less_exp[of 31 x]
  by (simp add: wrap32_def)

text \<open>Go's integer division truncates towards zero.\<close>

definition go_div :: "int \<Rightarrow> int \<Rightarrow> int" where
  "go_div a b = sgn a * sgn b * (\<bar>a\<bar> div \<bar>b\<bar>)"

lemma go_div_nonneg [simp]: "0 \<le> a \<Longrightarrow> 0 < b \<Longrightarrow> go_div a b = a div b"
  by (cases "a = 0") (auto simp: go_div_def)

text \<open>\<open>bits.Len\<close>: the number of bits needed to represent \<open>n\<close>.\<close>

definition bits_len :: "nat \<Rightarrow> nat" where
  "bits_len n = floorlog 2 n"

lemma bits_len_upper: "n < 2 ^ bits_len n"
  using floorlog_bounds[of n 2] by (cases "n = 0") (auto simp: bits_len_def floorlog_def)

lemma bits_len_lower: "0 < n \<Longrightarrow> 2 ^ (bits_len n - 1) \<le> n"
  using floorlog_bounds[of n 2] by (auto simp: bits_len_def)

lemma bits_len_0 [simp]: "bits_len 0 = 0"
  by (simp add: bits_len_def floorlog_def)

lemma bits_len_pos: "0 < n \<Longrightarrow> 0 < bits_len n"
  by (simp add: bits_len_def floorlog_def)

lemma bits_len_rec: "0 < n \<Longrightarrow> bits_len n = Suc (bits_len (n div 2))"
  by (simp add: bits_len_def compute_floorlog[of 2 n])

lemma bits_len_numeral [simp]:
  "bits_len (Suc 0) = 1"
  "bits_len (numeral num.One) = 1"
  "bits_len (numeral (num.Bit0 w)) = Suc (bits_len (numeral w))"
  "bits_len (numeral (num.Bit1 w)) = Suc (bits_len (numeral w))"
  by (simp_all add: bits_len_rec)

text \<open>
  Rounding up to a power of two, \<open>1 << bits.Len(uint(n-1))\<close>: past \<open>2 ^ 62\<close> the shift reaches the
  sign bit.
\<close>

definition shl_bits_len :: "int \<Rightarrow> int" where
  "shl_bits_len n = wrap64 (2 ^ bits_len (nat (n - 1)))"

lemma bits_len_le: "n < 2 ^ k \<Longrightarrow> bits_len n \<le> k"
proof (rule ccontr)
  assume "n < 2 ^ k" and "\<not> bits_len n \<le> k"
  then have "0 < n" by (cases n) auto
  then have "2 ^ (bits_len n - 1) \<le> n" by (rule bits_len_lower)
  moreover have "(2::nat) ^ k \<le> 2 ^ (bits_len n - 1)"
    using \<open>\<not> bits_len n \<le> k\<close> by (intro power_increasing) auto
  ultimately show False using \<open>n < 2 ^ k\<close> by linarith
qed

lemma shl_bits_len:
  assumes "1 \<le> n" and "n \<le> 2 ^ 62"
  shows "\<exists>k \<le> 62. shl_bits_len n = 2 ^ k \<and> n \<le> 2 ^ k \<and> (1 < n \<longrightarrow> 2 ^ k < 2 * n)"
proof -
  let ?k = "bits_len (nat (n - 1))"
  have "nat (n - 1) < 2 ^ 62" using assms by (simp add: nat_less_iff)
  then have k: "?k \<le> 62" by (rule bits_len_le)
  then have "(2::int) ^ ?k < 2 ^ 63" by (intro power_strict_increasing) auto
  moreover have "- (2 ^ 63) \<le> (0::int)" "0 \<le> (2::int) ^ ?k" by simp_all
  ultimately have "in_i64 (2 ^ ?k)" by linarith
  then have eq: "shl_bits_len n = 2 ^ ?k" by (simp only: shl_bits_len_def wrap64_id)
  have "int (nat (n - 1)) < int (2 ^ ?k)" using bits_len_upper by (simp only: of_nat_less_iff)
  then have up: "n \<le> 2 ^ ?k" using assms by simp
  have "2 ^ ?k < 2 * n" if "1 < n"
  proof -
    have "0 < nat (n - 1)" using that by simp
    from bits_len_lower[OF this] bits_len_pos[OF this]
    have "int (2 ^ (?k - 1)) \<le> n - 1" "(2::int) ^ ?k = 2 * int (2 ^ (?k - 1))"
      using that by (simp_all add: nat_le_iff power_Suc[symmetric] del: power_Suc)
    then show ?thesis by simp
  qed
  with k eq up show ?thesis by blast
qed

text \<open>A slice index that panics outside the slice.\<close>

definition go_nth :: "'a list \<Rightarrow> int \<Rightarrow> 'a option" where
  "go_nth xs i = (if 0 \<le> i \<and> i < int (length xs) then Some (xs ! nat i) else None)"

lemma go_nth_Some [simp]: "0 \<le> i \<Longrightarrow> i < int (length xs) \<Longrightarrow> go_nth xs i = Some (xs ! nat i)"
  by (simp add: go_nth_def)

section \<open>Maps as association lists\<close>

lemma map_of_delete [simp]: "map_of (AList.delete k xs) = (map_of xs)(k := None)"
  by (simp add: delete_conv')

lemma map_of_upd [simp]: "map_of (AList.update k v xs) = (map_of xs)(k \<mapsto> v)"
  by (simp add: update_conv')

lemma distinct_fst_delete [simp, intro]:
  "distinct (map fst xs) \<Longrightarrow> distinct (map fst (AList.delete k xs))"
  by (simp add: distinct_delete)

lemma distinct_fst_update [simp, intro]:
  "distinct (map fst xs) \<Longrightarrow> distinct (map fst (AList.update k v xs))"
  by (simp add: distinct_update)

lemma set_delete_iff: "(k', v) \<in> set (AList.delete k xs) \<longleftrightarrow> k' \<noteq> k \<and> (k', v) \<in> set xs"
  by (auto simp: AList.delete_eq)

lemma set_update_iff:
  "distinct (map fst xs) \<Longrightarrow>
   (k', v') \<in> set (AList.update k v xs) \<longleftrightarrow> (if k' = k then v' = v else (k', v') \<in> set xs)"
  by (metis (no_types, lifting) distinct_fst_update fun_upd_apply map_of_eq_Some_iff map_of_upd
      option.inject)

lemma length_delete_Some:
  "distinct (map fst xs) \<Longrightarrow> map_of xs k = Some v \<Longrightarrow> Suc (length (AList.delete k xs)) = length xs"
proof (induction xs)
  case (Cons x xs)
  show ?case
  proof (cases "fst x = k")
    case True
    with Cons.prems have "AList.delete k xs = xs"
      by (auto intro!: delete_id simp: image_iff)
    with True show ?thesis by (cases x) simp
  next
    case False
    with Cons show ?thesis by (cases x) auto
  qed
qed simp

lemma delete_None [simp]: "map_of xs k = None \<Longrightarrow> AList.delete k xs = xs"
  by (metis delete_id map_of_eq_None_iff)

lemma update_new: "map_of xs k = None \<Longrightarrow> AList.update k v xs = xs @ [(k, v)]"
  by (induction xs) (auto split: if_splits)

text \<open>Sums of a measure of the values, the shape of every byte count of the cache.\<close>

definition vsum :: "('v \<Rightarrow> int) \<Rightarrow> ('k \<times> 'v) list \<Rightarrow> int" where
  "vsum f xs = sum_list (map (f \<circ> snd) xs)"

lemma vsum_simps [simp]: "vsum f [] = 0" "vsum f (x # xs) = f (snd x) + vsum f xs"
  "vsum f (xs @ ys) = vsum f xs + vsum f ys"
  by (simp_all add: vsum_def)

lemma vsum_delete:
  "distinct (map fst xs) \<Longrightarrow> map_of xs k = Some v \<Longrightarrow> vsum f (AList.delete k xs) = vsum f xs - f v"
proof (induction xs)
  case (Cons x xs)
  show ?case
  proof (cases "fst x = k")
    case True
    with Cons.prems have "AList.delete k xs = xs"
      by (auto intro!: delete_id simp: image_iff)
    with True Cons.prems show ?thesis by (cases x) auto
  next
    case False
    with Cons show ?thesis by (cases x) auto
  qed
qed simp

lemma vsum_update_old:
  "distinct (map fst xs) \<Longrightarrow> map_of xs k = Some v \<Longrightarrow>
   vsum f (AList.update k v' xs) = vsum f xs - f v + f v'"
proof (induction xs)
  case (Cons x xs)
  then show ?case by (cases x) (auto split: if_splits)
qed simp

lemma vsum_split:
  "distinct (map fst xs) \<Longrightarrow> map_of xs k = Some v \<Longrightarrow> vsum f xs = f v + vsum f (AList.delete k xs)"
  by (simp add: vsum_delete)

lemma vsum_cong: "(\<And>k v. (k, v) \<in> set xs \<Longrightarrow> f v = g v) \<Longrightarrow> vsum f xs = vsum g xs"
  by (induction xs) force+

lemma vsum_nonneg: "(\<And>k v. (k, v) \<in> set xs \<Longrightarrow> 0 \<le> f v) \<Longrightarrow> 0 \<le> vsum f xs"
proof (induction xs)
  case (Cons x xs)
  have "0 \<le> f (snd x)" using Cons.prems[of "fst x" "snd x"] by simp
  moreover have "0 \<le> vsum f xs" using Cons by (metis list.set_intros(2))
  ultimately show ?case by simp
qed simp

lemma vsum_ge:
  assumes "\<And>k v. (k, v) \<in> set xs \<Longrightarrow> 0 \<le> f v" and "(k, v) \<in> set xs"
  shows "f v \<le> vsum f xs"
  using assms
proof (induction xs)
  case (Cons x xs)
  have nn: "0 \<le> f (snd x)" "0 \<le> vsum f xs"
    using Cons.prems(1)[of "fst x" "snd x"] Cons.prems(1) by (auto intro!: vsum_nonneg)
  show ?case
  proof (cases "x = (k, v)")
    case True
    with nn show ?thesis by simp
  next
    case False
    with Cons have "f v \<le> vsum f xs" by (metis list.set_intros(2) set_ConsD)
    with nn show ?thesis by simp
  qed
qed simp

section \<open>The order of a range over a map\<close>

text \<open>
  Go starts every \<open>range\<close> over a map at a random place. The model takes the random choices as an
  explicit list of numbers: each one picks, modulo the number of entries left, the entry visited
  next. Every list of numbers gives a permutation, and every permutation is given by some list, so
  quantifying over the numbers is quantifying over what the runtime may do.
\<close>

fun range_order :: "nat list \<Rightarrow> 'a list \<Rightarrow> 'a list" where
  "range_order rs [] = []"
| "range_order [] (x # xs) = x # xs"
| "range_order (r # rs) (x # xs) =
     (let ys = x # xs; i = r mod length ys
      in ys ! i # range_order rs (take i ys @ drop (Suc i) ys))"

lemma mset_pick: "i < length xs \<Longrightarrow> add_mset (xs ! i) (mset (take i xs @ drop (Suc i) xs)) = mset xs"
  by (metis Cons_nth_drop_Suc append_take_drop_id mset.simps(2) mset_append union_mset_add_mset_right)

lemma mset_range_order [simp]: "mset (range_order rs xs) = mset xs"
proof (induction rs xs rule: range_order.induct)
  case (3 r rs x xs)
  let ?ys = "x # xs" and ?i = "r mod length (x # xs)"
  have "?i < length ?ys" by simp
  from mset_pick[OF this] 3[OF refl refl] show ?case by (simp only: range_order.simps Let_def mset.simps)
qed simp_all

lemma set_range_order [simp]: "set (range_order rs xs) = set xs"
  by (metis mset_eq_setD mset_range_order)

lemma length_range_order [simp]: "length (range_order rs xs) = length xs"
  by (metis mset_eq_length mset_range_order)

lemma range_order_complete: "mset ys = mset xs \<Longrightarrow> \<exists>rs. range_order rs xs = ys"
proof (induction ys arbitrary: xs)
  case Nil
  then show ?case by auto
next
  case (Cons y ys)
  then have "y \<in> set xs" by (metis list.set_intros(1) mset_eq_setD)
  then obtain i where i: "i < length xs" "xs ! i = y" by (auto simp: in_set_conv_nth)
  have "mset ys = mset (take i xs @ drop (Suc i) xs)"
    using mset_pick[OF i(1)] Cons.prems i(2) by (metis add_mset_add_single add_right_imp_eq mset.simps(2))
  then obtain rs where "range_order rs (take i xs @ drop (Suc i) xs) = ys"
    using Cons.IH by blast
  with i have "range_order (i # rs) xs = y # ys"
    by (cases xs) (auto simp: Let_def)
  then show ?case by blast
qed

section \<open>Decimal numerals: strconv.Itoa on naturals\<close>

definition digit_char :: "nat \<Rightarrow> char" where
  "digit_char d = char_of (48 + d)"

fun itoa :: "nat \<Rightarrow> string" where
  "itoa n = (if n < 10 then [digit_char n] else itoa (n div 10) @ [digit_char (n mod 10)])"

declare itoa.simps [simp del]

lemma digit_char_inj: "a < 10 \<Longrightarrow> b < 10 \<Longrightarrow> digit_char a = digit_char b \<Longrightarrow> a = b"
  by (simp add: digit_char_def char_of_eq_iff take_bit_eq_mod)

lemma itoa_ne [simp]: "itoa n \<noteq> []"
  by (subst itoa.simps) simp

lemma itoa_inj: "itoa m = itoa n \<Longrightarrow> m = n"
proof (induction m arbitrary: n rule: less_induct)
  case (less m)
  show ?case
  proof (cases "m < 10 \<or> n < 10")
    case True
    with less.prems show ?thesis
      by (subst (asm) itoa.simps, subst (asm) (2) itoa.simps)
        (auto split: if_splits dest: digit_char_inj simp: append_eq_Cons_conv Cons_eq_append_conv)
  next
    case False
    with less.prems have eq: "itoa (m div 10) = itoa (n div 10)"
      and d: "digit_char (m mod 10) = digit_char (n mod 10)"
      by (subst (asm) itoa.simps, subst (asm) (2) itoa.simps, simp)+
    from False have "m div 10 < m" by simp
    from less.IH[OF this eq] have "m div 10 = n div 10" .
    moreover have "m mod 10 = n mod 10" using d by (simp add: digit_char_inj)
    ultimately show ?thesis by (metis mod_div_mult_eq)
  qed
qed

end
