(* ===== verification/Trace_Ring.thy ===== *)
theory Trace_Ring
  imports Prelude
begin

text \<open>
  \<^verbatim>\<open>internal/trace/ring.go\<close>: the bounded single-producer single-consumer queue between a shard and the
  trace recorder. The cursors are \<open>uint64\<close> and wrap; the producer keeps a stale copy of the consumer's
  cursor and refreshes it only when the ring looks full.

  The interface is the locale \<open>bounded_queue\<close>: what a push and a drain do to the sequence of queued
  records. Its client lemma says that records leave in the order they were accepted, none lost and
  none twice. The ring is shown to satisfy it.
\<close>

section \<open>The interface\<close>

datatype 'r qop = Push 'r | Drain nat

text \<open>A run collects the records accepted and the records drained.\<close>

fun qrun :: "('q \<Rightarrow> 'r \<Rightarrow> 'q \<times> bool) \<Rightarrow> ('q \<Rightarrow> nat \<Rightarrow> 'q \<times> 'r list) \<Rightarrow> 'q \<Rightarrow> 'r qop list \<Rightarrow>
    'q \<times> 'r list \<times> 'r list" where
  "qrun push drain q [] = (q, [], [])"
| "qrun push drain q (Push x # cs) =
     (let (q1, ok) = push q x; (q2, acc, out) = qrun push drain q1 cs
      in (q2, (if ok then x # acc else acc), out))"
| "qrun push drain q (Drain n # cs) =
     (let (q1, xs) = drain q n; (q2, acc, out) = qrun push drain q1 cs
      in (q2, acc, xs @ out))"

locale bounded_queue =
  fixes push :: "'q \<Rightarrow> 'r \<Rightarrow> 'q \<times> bool"
    and drain :: "'q \<Rightarrow> nat \<Rightarrow> 'q \<times> 'r list"
    and inv :: "'q \<Rightarrow> bool"
    and items :: "'q \<Rightarrow> 'r list"
    and cap :: "'q \<Rightarrow> nat"
    and wanted :: "'q \<Rightarrow> 'r \<Rightarrow> bool"
  assumes push_inv: "inv q \<Longrightarrow> inv (fst (push q x))"
    and push_items: "inv q \<Longrightarrow> items (fst (push q x)) = (if snd (push q x) then items q @ [x] else items q)"
    and push_accepts: "inv q \<Longrightarrow> snd (push q x) \<longleftrightarrow> wanted q x \<and> length (items q) < cap q"
    and push_frame: "cap (fst (push q x)) = cap q" "wanted (fst (push q x)) = wanted q"
    and drain_inv: "inv q \<Longrightarrow> inv (fst (drain q n))"
    and drain_items: "inv q \<Longrightarrow> items (fst (drain q n)) = drop n (items q)"
    and drain_result: "inv q \<Longrightarrow> snd (drain q n) = take n (items q)"
    and drain_frame: "cap (fst (drain q n)) = cap q" "wanted (fst (drain q n)) = wanted q"
    and items_bounded: "inv q \<Longrightarrow> length (items q) \<le> cap q"
begin

lemma qrun_fifo:
  "inv q \<Longrightarrow> qrun push drain q cs = (q', acc, out) \<Longrightarrow> inv q' \<and> out @ items q' = items q @ acc"
proof (induction cs arbitrary: q q' acc out)
  case (Cons c cs)
  show ?case
  proof (cases c)
    case (Push x)
    obtain q1 ok where p: "push q x = (q1, ok)" by fastforce
    obtain acc1 where r: "qrun push drain q1 cs = (q', acc1, out)"
      and acc: "acc = (if ok then x # acc1 else acc1)"
      using Cons.prems(2) by (auto simp: Push p split: prod.splits)
    have "inv q1" "items q1 = (if ok then items q @ [x] else items q)"
      using push_inv[OF Cons.prems(1), of x] push_items[OF Cons.prems(1), of x] p by auto
    with Cons.IH[OF _ r] acc show ?thesis by auto
  next
    case (Drain n)
    obtain q1 xs where d: "drain q n = (q1, xs)" by fastforce
    obtain out1 where r: "qrun push drain q1 cs = (q', acc, out1)" and out: "out = xs @ out1"
      using Cons.prems(2) by (auto simp: Drain d split: prod.splits)
    have "inv q1" "items q1 = drop n (items q)" "xs = take n (items q)"
      using drain_inv[OF Cons.prems(1), of n] drain_items[OF Cons.prems(1), of n]
        drain_result[OF Cons.prems(1), of n] d by auto
    with Cons.IH[OF _ r] out show ?thesis by simp
  qed
qed simp

lemma push_drop_full: "inv q \<Longrightarrow> length (items q) = cap q \<Longrightarrow> \<not> snd (push q x)"
  by (simp add: push_accepts)

end

section \<open>The ring\<close>

record trec =
  key_hash :: u64
  timestamp_us :: int
  size_bytes :: u32
  hit :: bool

record tring =
  buf :: "trec list"
  idx_mask :: u64
  sample_mask :: u64
  tail :: u64
  cached_head :: u64
  pushed :: u64
  drops :: u64
  head :: u64

definition zero_rec :: trec where
  "zero_rec = \<lparr>key_hash = 0, timestamp_us = 0, size_bytes = 0, hit = False\<rparr>"

definition roundUpPow2 :: "int \<Rightarrow> int" where
  "roundUpPow2 n = (if n < 1 then 1 else shl_bits_len n)"

text \<open>\<open>NewRing\<close> panics when \<open>make\<close> is handed a negative size.\<close>

definition NewRing :: "int \<Rightarrow> int \<Rightarrow> tring option" where
  "NewRing capacity sampleDenominator =
     (let capacity = (if capacity < 2 then 2 else capacity);
          sampleDenominator = (if sampleDenominator < 1 then 1 else sampleDenominator);
          size = roundUpPow2 capacity
      in if size < 0 then None
         else Some \<lparr>buf = replicate (nat size) zero_rec, idx_mask = word_of_int (size - 1),
           sample_mask = word_of_int (roundUpPow2 sampleDenominator - 1),
           tail = 0, cached_head = 0, pushed = 0, drops = 0, head = 0\<rparr>)"

definition sampled_key :: "tring \<Rightarrow> trec \<Rightarrow> bool" where
  "sampled_key r x \<longleftrightarrow> drop_bit 32 (key_hash x) AND sample_mask r = 0"

definition ring_push :: "tring \<Rightarrow> trec \<Rightarrow> tring \<times> bool" where
  "ring_push r x =
     (if \<not> sampled_key r x then (r, False)
      else
        let t = tail r; len = of_nat (length (buf r));
            looks_full = (len \<le> t - cached_head r);
            r = (if looks_full then r\<lparr>cached_head := head r\<rparr> else r)
        in if looks_full \<and> len \<le> t - cached_head r then (r\<lparr>drops := drops r + 1\<rparr>, False)
           else (r\<lparr>buf := (buf r)[unat (t AND idx_mask r) := x], tail := t + 1,
                   pushed := pushed r + 1\<rparr>, True))"

definition ring_drain :: "tring \<Rightarrow> nat \<Rightarrow> tring \<times> trec list" where
  "ring_drain r max_n =
     (let h = head r; n = sint (tail r - h)
      in if n \<le> 0 then (r, [])
         else let n = (if int max_n < n then max_n else nat n);
                  out = map (\<lambda>i. buf r ! unat ((h + of_nat i) AND idx_mask r)) [0..<n]
              in (r\<lparr>head := h + of_nat n\<rparr>, out))"

definition ring_counters :: "tring \<Rightarrow> u64 \<times> u64" where
  "ring_counters r = (pushed r, drops r)"

section \<open>The invariant and the queued records\<close>

definition ring_items :: "tring \<Rightarrow> trec list" where
  "ring_items r = map (\<lambda>i. buf r ! unat ((head r + of_nat i) AND idx_mask r)) [0..<unat (tail r - head r)]"

definition ring_inv :: "tring \<Rightarrow> bool" where
  "ring_inv r \<longleftrightarrow>
     (\<exists>k \<le> 62. length (buf r) = 2 ^ k \<and> idx_mask r = 2 ^ k - 1) \<and>
     unat (tail r - head r) \<le> unat (tail r - cached_head r) \<and>
     unat (tail r - cached_head r) \<le> length (buf r)"

lemma mask_index:
  fixes w :: u64
  shows "unat (w AND (2 ^ k - 1)) = unat w mod 2 ^ k"
proof -
  have "w AND (2 ^ k - 1) = take_bit k w" by (simp add: take_bit_eq_mask mask_eq_exp_minus_1)
  then show ?thesis by (simp only: unsigned_take_bit_eq) (simp only: take_bit_eq_mod)
qed

lemma ring_lenD: "ring_inv r \<Longrightarrow> length (buf r) \<le> 2 ^ 62"
  using power_increasing[of _ 62 "2::nat"] by (auto simp: ring_inv_def)

lemma ring_index: "ring_inv r \<Longrightarrow> unat (w AND idx_mask r) = unat w mod length (buf r)"
  by (auto simp: ring_inv_def mask_index)

lemma ring_len_word: "ring_inv r \<Longrightarrow> unat (of_nat (length (buf r)) :: u64) = length (buf r)"
  using ring_lenD[of r] by (intro unat_of_small) simp

lemma length_ring_items [simp]: "length (ring_items r) = unat (tail r - head r)"
  by (simp add: ring_items_def)

lemma sampled_key_frame [simp]:
  "sampled_key (r\<lparr>cached_head := a\<rparr>) = sampled_key r" "sampled_key (r\<lparr>drops := b\<rparr>) = sampled_key r"
  "sampled_key (r\<lparr>buf := c, tail := d, pushed := e\<rparr>) = sampled_key r" "sampled_key (r\<lparr>head := f\<rparr>) = sampled_key r"
  by (simp_all add: sampled_key_def fun_eq_iff)

text \<open>The cell of position \<open>i\<close> past the head, as a number: wrap-around of the cursor does not show.\<close>

lemma cell_eq:
  assumes "ring_inv r"
  shows "unat ((head r + of_nat i) AND idx_mask r) = (unat (head r) + i) mod length (buf r)"
proof -
  obtain k where k: "k \<le> 62" "length (buf r) = 2 ^ k" using assms by (auto simp: ring_inv_def)
  have dvd: "(2::nat) ^ k dvd 2 ^ 64" using k by (intro le_imp_power_dvd) simp
  have "unat (head r + of_nat i) = (unat (head r) + i) mod 2 ^ 64"
    by (simp add: unat_word_ariths unat_of_nat mod_simps)
  with dvd k show ?thesis using ring_index[OF assms] by (simp add: mod_mod_cancel)
qed

lemma ring_items_alt:
  "ring_inv r \<Longrightarrow> ring_items r =
     map (\<lambda>i. buf r ! ((unat (head r) + i) mod length (buf r))) [0..<unat (tail r - head r)]"
  by (simp add: ring_items_def cell_eq)

lemma mod_add_inj:
  fixes a i j n :: nat
  assumes "(a + i) mod n = (a + j) mod n" and "i < n" and "j < n"
  shows "i = j"
proof -
  have "x = y" if "(a + x) mod n = (a + y) mod n" "x \<le> y" "y < n" for x y
  proof -
    have "n dvd (a + y) - (a + x)" using that mod_eq_dvd_iff_nat[of "a + x" "a + y" n] by simp
    then show ?thesis using that by (auto dest: dvd_imp_le)
  qed
  from this[of i j] this[of j i] assms show ?thesis by (cases "i \<le> j") auto
qed

text \<open>Whether a push finds room does not depend on how stale the cached cursor is.\<close>

lemma ring_push_eq:
  assumes inv: "ring_inv r" and smp: "sampled_key r x"
  shows "snd (ring_push r x) \<longleftrightarrow> unat (tail r - head r) < length (buf r)"
  using assms ring_len_word[OF inv]
  by (auto simp: ring_push_def Let_def ring_inv_def word_le_nat_alt)

lemma unat_diff_Suc:
  fixes t h :: u64
  assumes "unat (t - h) \<le> 2 ^ 62"
  shows "unat (t + 1 - h) = Suc (unat (t - h))"
proof -
  have "t + 1 - h = (t - h) + 1" by simp
  moreover have "unat ((t - h) + 1) = Suc (unat (t - h))" using assms by (intro unat_inc) simp
  ultimately show ?thesis by (simp only:)
qed

lemma ring_push_stored:
  fixes x :: trec
  assumes inv: "ring_inv r" and room: "unat (tail r - head r) < length (buf r)"
    and c: "unat (tail r - c) < length (buf r)" "unat (tail r - head r) \<le> unat (tail r - c)"
  defines "r' \<equiv> r\<lparr>cached_head := c, buf := (buf r)[unat (tail r AND idx_mask r) := x], tail := tail r + 1,
    pushed := pushed r + 1\<rparr>"
  shows "ring_inv r'" and "ring_items r' = ring_items r @ [x]"
proof -
  let ?n = "length (buf r)" and ?m = "unat (tail r - head r)"
  have len: "?n \<le> 2 ^ 62" using inv by (rule ring_lenD)
  have s1: "unat (tail r + 1 - head r) = Suc ?m" using room len by (intro unat_diff_Suc) simp
  have s2: "unat (tail r + 1 - c) = Suc (unat (tail r - c))" using c(1) len by (intro unat_diff_Suc) simp
  show inv': "ring_inv r'" using inv c s1 s2 by (auto simp: ring_inv_def r'_def)
  have "tail r = head r + of_nat ?m" by simp
  then have cell: "unat (tail r AND idx_mask r) = (unat (head r) + ?m) mod ?n"
    using cell_eq[OF inv, of ?m] by simp
  have same: "(buf r)[(unat (head r) + ?m) mod ?n := x] ! ((unat (head r) + i) mod ?n)
      = buf r ! ((unat (head r) + i) mod ?n)" if "i < ?m" for i
  proof -
    have "(unat (head r) + ?m) mod ?n \<noteq> (unat (head r) + i) mod ?n"
      using mod_add_inj[of "unat (head r)" i ?n ?m] that room by auto
    then show ?thesis by simp
  qed
  have pos: "(unat (head r) + ?m) mod ?n < ?n" using room by (intro mod_less_divisor) linarith
  have "ring_items r' = map (\<lambda>i. (buf r)[(unat (head r) + ?m) mod ?n := x] ! ((unat (head r) + i) mod ?n))
      [0..<Suc ?m]"
    using ring_items_alt[OF inv'] by (simp add: r'_def s1 cell)
  also have "\<dots> = ring_items r @ [x]"
    using same pos by (simp add: ring_items_alt[OF inv])
  finally show "ring_items r' = ring_items r @ [x]" .
qed

lemma ring_push_cases:
  assumes inv: "ring_inv r"
  shows "ring_inv (fst (ring_push r x)) \<and>
    ring_items (fst (ring_push r x)) = (if snd (ring_push r x) then ring_items r @ [x] else ring_items r)"
proof (cases "sampled_key r x \<and> snd (ring_push r x)")
  case True
  let ?full = "of_nat (length (buf r)) \<le> tail r - cached_head r"
  let ?c = "if ?full then head r else cached_head r"
  have room: "unat (tail r - head r) < length (buf r)" using True ring_push_eq[OF inv, of x] by simp
  have c: "unat (tail r - ?c) < length (buf r)" "unat (tail r - head r) \<le> unat (tail r - ?c)"
    using room inv ring_len_word[OF inv] by (auto simp: word_le_nat_alt ring_inv_def not_le)
  have "fst (ring_push r x) = r\<lparr>cached_head := ?c, buf := (buf r)[unat (tail r AND idx_mask r) := x],
      tail := tail r + 1, pushed := pushed r + 1\<rparr>"
    using True by (auto simp: ring_push_def Let_def split: if_splits)
  with ring_push_stored[OF inv room c] True show ?thesis by simp
next
  case False
  then show ?thesis using inv
    by (auto simp: ring_push_def Let_def ring_inv_def ring_items_def)
qed

lemma sint_diff:
  assumes "ring_inv r"
  shows "sint (tail r - head r) = int (unat (tail r - head r))"
proof -
  have "unat (tail r - head r) < 2 ^ 63"
    using assms ring_lenD[OF assms] by (auto simp: ring_inv_def)
  then have "int (unat (tail r - head r)) < int (2 ^ 63)" by (simp only: of_nat_less_iff)
  then have "uint (tail r - head r) < 2 ^ 63" by simp
  moreover have "- (2 ^ 63) \<le> uint (tail r - head r)"
    by (rule order.trans[OF _ uint_ge_0]) simp
  ultimately have "signed_take_bit 63 (uint (tail r - head r)) = uint (tail r - head r)"
    by (intro signed_take_bit_int_eq_self)
  then show ?thesis by (simp add: sint_uint)
qed

lemma ring_drain_eq:
  assumes inv: "ring_inv r"
  shows "ring_drain r n = (r\<lparr>head := head r + of_nat (min n (unat (tail r - head r)))\<rparr>,
    take n (ring_items r))"
proof -
  define m where "m = unat (tail r - head r)"
  have s: "sint (tail r - head r) = int m" using sint_diff[OF inv] by (simp only: m_def)
  show ?thesis
    by (cases "m = 0"; cases "n < m")
      (simp_all add: ring_drain_def ring_items_def Let_def s m_def[symmetric] take_map min_def)
qed

lemma ring_drain_head:
  assumes inv: "ring_inv r"
  shows "ring_inv (r\<lparr>head := head r + of_nat (min n (unat (tail r - head r)))\<rparr>)"
    and "ring_items (r\<lparr>head := head r + of_nat (min n (unat (tail r - head r)))\<rparr>) = drop n (ring_items r)"
proof -
  let ?m = "unat (tail r - head r)" and ?j = "min n (unat (tail r - head r))"
  let ?r = "r\<lparr>head := head r + of_nat ?j\<rparr>"
  have small: "?m < 2 ^ 64" using unsigned_less[where ?'a = nat, of "tail r - head r"] by simp
  have j: "unat (of_nat ?j :: u64) = ?j" using small by (intro unat_of_small) simp
  then have "(of_nat ?j :: u64) \<le> tail r - head r" unfolding word_le_nat_alt by (simp only:)
  then have "unat (tail r - head r - of_nat ?j) = ?m - unat (of_nat ?j :: u64)" by (rule unat_sub)
  moreover have "tail r - (head r + of_nat ?j) = tail r - head r - of_nat ?j" by simp
  ultimately have d: "unat (tail r - (head r + of_nat ?j)) = ?m - ?j" by (simp only: j)
  show inv': "ring_inv ?r" using inv d by (auto simp: ring_inv_def)
  have h: "(head r + of_nat ?j) + of_nat i = head r + of_nat (?j + i)" for i by simp
  have "ring_items ?r = map (\<lambda>i. buf r ! unat ((head r + of_nat (?j + i)) AND idx_mask r)) [0..<?m - ?j]"
    unfolding ring_items_def using d by (simp add: h add.assoc)
  also have "\<dots> = drop ?j (ring_items r)"
    by (intro nth_equalityI) (auto simp: ring_items_def)
  also have "\<dots> = drop n (ring_items r)" by (cases "n \<le> ?m") auto
  finally show "ring_items ?r = drop n (ring_items r)" .
qed

interpretation spsc: bounded_queue ring_push ring_drain ring_inv ring_items "\<lambda>r. length (buf r)" sampled_key
proof unfold_locales
  fix r :: tring and x :: trec and n :: nat
  show "length (buf (fst (ring_push r x))) = length (buf r)"
    and "sampled_key (fst (ring_push r x)) = sampled_key r"
    by (auto simp: ring_push_def Let_def)
  show "length (buf (fst (ring_drain r n))) = length (buf r)"
    and "sampled_key (fst (ring_drain r n)) = sampled_key r"
    by (auto simp: ring_drain_def Let_def)
  assume inv: "ring_inv r"
  show "ring_inv (fst (ring_push r x))"
    and "ring_items (fst (ring_push r x)) = (if snd (ring_push r x) then ring_items r @ [x] else ring_items r)"
    using ring_push_cases[OF inv] by auto
  show "snd (ring_push r x) \<longleftrightarrow> sampled_key r x \<and> length (ring_items r) < length (buf r)"
    using ring_push_eq[OF inv] by (cases "sampled_key r x") (auto simp: ring_push_def)
  show "ring_inv (fst (ring_drain r n))" and "ring_items (fst (ring_drain r n)) = drop n (ring_items r)"
    and "snd (ring_drain r n) = take n (ring_items r)"
    using ring_drain_eq[OF inv] ring_drain_head[OF inv] by simp_all
  show "length (ring_items r) \<le> length (buf r)" using inv by (auto simp: ring_inv_def)
qed

lemma NewRing_inv:
  assumes "NewRing capacity denom = Some r" and "capacity \<le> 2 ^ 62"
  shows "ring_inv r" and "ring_items r = []" and "max 2 capacity \<le> int (length (buf r))"
proof -
  let ?c = "max 2 capacity"
  have "1 \<le> ?c" "?c \<le> 2 ^ 62" using assms(2) by simp_all
  from shl_bits_len[OF this] obtain k where k: "k \<le> 62" "shl_bits_len ?c = 2 ^ k" "?c \<le> 2 ^ k"
    by blast
  have sz: "roundUpPow2 (if capacity < 2 then 2 else capacity) = 2 ^ k"
    using k(2) by (auto simp: roundUpPow2_def max_def split: if_splits)
  have m: "word_of_int (2 ^ k - 1) = (2 ^ k - 1 :: u64)" by simp
  have n: "nat (2 ^ k) = 2 ^ k" by (simp add: nat_power_eq)
  have b: "buf r = replicate (2 ^ k) zero_rec" "idx_mask r = 2 ^ k - 1" "tail r = 0" "head r = 0" "cached_head r = 0"
    using assms(1) by (auto simp only: NewRing_def Let_def sz m n tring.simps option.inject split: if_splits)
  then show "ring_inv r" using k by (auto simp: ring_inv_def)
  show "ring_items r = []" using b by (simp add: ring_items_def)
  show "?c \<le> int (length (buf r))" using b k by simp
qed

end
