(* ===== verification/Floats.thy ===== *)
theory Floats
  imports Prelude
begin

text \<open>
  Go's \<open>float64\<close> and \<open>float32\<close>: IEEE 754 binary numbers with round-to-nearest-even. A finite value is
  the rational it denotes, and the infinities and NaN are constructors, so every operation is exact
  rational arithmetic followed by one rounding. The sign of zero is not represented: the program
  never divides by a float that can be a negative zero and never prints one.

  The two facts every use of a float in the program rests on are proved here: rounding is monotone
  (\<open>fround_mono\<close>), and it is exact on the integers of at most \<open>prec\<close> bits (\<open>fround_int\<close>).
\<close>

datatype fl = Fin rat | PInf | NInf | NaN

record fmt =
  prec :: nat
  emin :: int
  emax :: int

definition F64 :: fmt where "F64 = \<lparr>prec = 53, emin = -1022, emax = 1023\<rparr>"
definition F32 :: fmt where "F32 = \<lparr>prec = 24, emin = -126, emax = 127\<rparr>"

lemma fmt_fields [simp]:
  "prec F64 = 53" "emin F64 = -1022" "emax F64 = 1023"
  "prec F32 = 24" "emin F32 = -126" "emax F32 = 127"
  by (simp_all add: F64_def F32_def)

section \<open>Rounding\<close>

text \<open>The exponent of a positive rational: the \<open>e\<close> with \<open>2 powi e \<le> q < 2 powi (e + 1)\<close>.\<close>

definition fexp :: "rat \<Rightarrow> int" where
  "fexp q = (let (a, b) = quotient_of q; e = int (bits_len (nat a)) - int (bits_len (nat b))
     in if 2 powi e \<le> q then e else e - 1)"

text \<open>Round to the nearest integer, ties to even.\<close>

definition rne :: "rat \<Rightarrow> int" where
  "rne x = (let f = \<lfloor>x\<rfloor>; d = x - of_int f
     in if d < 1 / 2 then f else if 1 / 2 < d then f + 1 else if even f then f else f + 1)"

text \<open>The spacing of the format's numbers around a positive \<open>q\<close>, subnormals included.\<close>

definition fulp :: "fmt \<Rightarrow> rat \<Rightarrow> rat" where
  "fulp f q = 2 powi (max (fexp q) (emin f) - (int (prec f) - 1))"

definition rnd_pos :: "fmt \<Rightarrow> rat \<Rightarrow> rat" where
  "rnd_pos f q = of_int (rne (q / fulp f q)) * fulp f q"

definition fround :: "fmt \<Rightarrow> rat \<Rightarrow> fl" where
  "fround f q =
     (if q = 0 then Fin 0
      else let r = rnd_pos f \<bar>q\<bar> in
        if 2 powi (emax f + 1) \<le> r then (if 0 < q then PInf else NInf)
        else Fin (if 0 < q then r else - r))"

section \<open>Arithmetic, comparisons and conversions\<close>

definition f_of_int :: "fmt \<Rightarrow> int \<Rightarrow> fl" where
  "f_of_int f i = fround f (of_int i)"

fun fneg :: "fl \<Rightarrow> fl" where
  "fneg (Fin q) = Fin (- q)"
| "fneg PInf = NInf"
| "fneg NInf = PInf"
| "fneg NaN = NaN"

fun fadd :: "fmt \<Rightarrow> fl \<Rightarrow> fl \<Rightarrow> fl" where
  "fadd f (Fin p) (Fin q) = fround f (p + q)"
| "fadd f NaN _ = NaN"
| "fadd f _ NaN = NaN"
| "fadd f PInf NInf = NaN"
| "fadd f NInf PInf = NaN"
| "fadd f PInf _ = PInf"
| "fadd f _ PInf = PInf"
| "fadd f NInf _ = NInf"
| "fadd f _ NInf = NInf"

definition fsigned_inf :: "bool \<Rightarrow> fl" where
  "fsigned_inf pos = (if pos then PInf else NInf)"

fun fmul :: "fmt \<Rightarrow> fl \<Rightarrow> fl \<Rightarrow> fl" where
  "fmul f (Fin p) (Fin q) = fround f (p * q)"
| "fmul f NaN _ = NaN"
| "fmul f _ NaN = NaN"
| "fmul f PInf (Fin q) = (if q = 0 then NaN else fsigned_inf (0 < q))"
| "fmul f NInf (Fin q) = (if q = 0 then NaN else fsigned_inf (q < 0))"
| "fmul f (Fin p) PInf = (if p = 0 then NaN else fsigned_inf (0 < p))"
| "fmul f (Fin p) NInf = (if p = 0 then NaN else fsigned_inf (p < 0))"
| "fmul f PInf PInf = PInf"
| "fmul f PInf NInf = NInf"
| "fmul f NInf PInf = NInf"
| "fmul f NInf NInf = PInf"

text \<open>A zero divisor is a positive zero.\<close>

fun fdiv :: "fmt \<Rightarrow> fl \<Rightarrow> fl \<Rightarrow> fl" where
  "fdiv f (Fin p) (Fin q) =
     (if q = 0 then (if p = 0 then NaN else fsigned_inf (0 < p)) else fround f (p / q))"
| "fdiv f NaN _ = NaN"
| "fdiv f _ NaN = NaN"
| "fdiv f PInf (Fin q) = fsigned_inf (0 \<le> q)"
| "fdiv f NInf (Fin q) = fsigned_inf (q < 0)"
| "fdiv f (Fin p) _ = Fin 0"
| "fdiv f _ _ = NaN"

text \<open>Go's comparisons: anything compared with NaN is false. They are \<open>\<le>\<close> and \<open><\<close> on \<open>fl\<close>.\<close>

instantiation fl :: ord
begin

fun less_fl :: "fl \<Rightarrow> fl \<Rightarrow> bool" where
  "less_fl (Fin p) (Fin q) = (p < q)"
| "less_fl NaN _ = False"
| "less_fl _ NaN = False"
| "less_fl _ NInf = False"
| "less_fl NInf _ = True"
| "less_fl PInf _ = False"
| "less_fl _ PInf = True"

fun less_eq_fl :: "fl \<Rightarrow> fl \<Rightarrow> bool" where
  "less_eq_fl (Fin p) (Fin q) = (p \<le> q)"
| "less_eq_fl NaN _ = False"
| "less_eq_fl _ NaN = False"
| "less_eq_fl NInf _ = True"
| "less_eq_fl _ NInf = False"
| "less_eq_fl _ PInf = True"
| "less_eq_fl PInf _ = False"

instance ..

end

text \<open>
  Conversion to \<open>int64\<close> drops the fraction. Go leaves the result of an out-of-range conversion to the
  implementation, which \<open>impl\<close> stands for.
\<close>

definition f_to_i64 :: "(fl \<Rightarrow> int) \<Rightarrow> fl \<Rightarrow> int" where
  "f_to_i64 impl x =
     (case x of Fin q \<Rightarrow>
        (let t = (if 0 \<le> q then \<lfloor>q\<rfloor> else \<lceil>q\<rceil>) in if in_i64 t then t else impl x)
      | _ \<Rightarrow> impl x)"

section \<open>Facts about the exponent\<close>

lemma powi_pos [simp]: "0 < (2::rat) powi e"
  by (simp add: zero_less_power_int)

lemma powi_Suc: "(2::rat) powi (e + 1) = 2 * 2 powi e"
  by (simp add: power_int_add)

lemma powi_mono: "a \<le> b \<Longrightarrow> (2::rat) powi a \<le> 2 powi b"
  by (simp add: power_int_increasing)

lemma fexp_bounds:
  assumes "0 < q"
  shows "2 powi fexp q \<le> q" and "q < 2 powi (fexp q + 1)"
proof -
  obtain a b where ab: "quotient_of q = (a, b)" by (cases "quotient_of q")
  have q: "q = of_int a / of_int b" and b: "0 < b"
    using quotient_of_div[OF ab] quotient_of_denom_pos[OF ab] by auto
  with assms have a: "0 < a" by (simp add: zero_less_divide_iff)
  define m n where "m = bits_len (nat a)" and "n = bits_len (nat b)"
  have mn: "0 < m" "0 < n" using a b by (simp_all add: m_def n_def bits_len_pos)
  have "(2::nat) ^ (m - 1) \<le> nat a" "nat a < 2 ^ m" "(2::nat) ^ (n - 1) \<le> nat b" "nat b < 2 ^ n"
    using a b bits_len_lower[of "nat a"] bits_len_lower[of "nat b"]
      bits_len_upper[of "nat a"] bits_len_upper[of "nat b"]
    by (auto simp: m_def n_def)
  then have "int (2 ^ (m - 1)) \<le> a" "a < int (2 ^ m)" "int (2 ^ (n - 1)) \<le> b" "b < int (2 ^ n)"
    using a b by linarith+
  then have A: "(of_int (2 ^ (m - 1)) :: rat) \<le> of_int a" "(of_int a :: rat) < of_int (2 ^ m)"
    and B: "(of_int (2 ^ (n - 1)) :: rat) \<le> of_int b" "(of_int b :: rat) < of_int (2 ^ n)"
    by (simp_all only: of_int_le_iff of_int_less_iff of_nat_power of_nat_numeral)
  have powi_quot: "(2::rat) powi (int i - int j) = 2 ^ i / 2 ^ j" for i j :: nat
    by (simp add: power_int_diff)
  have lo: "2 powi (int m - int n - 1) < q"
  proof -
    have "int m - int n - 1 = int (m - 1) - int n" using mn by simp
    then have "(2::rat) powi (int m - int n - 1) = 2 ^ (m - 1) / 2 ^ n" by (simp only: powi_quot)
    also have "\<dots> < of_int a / of_int b"
      using A B a b by (intro frac_less2) (auto intro: less_le_trans)
    finally show ?thesis by (simp add: q)
  qed
  have hi: "q < 2 powi (int m - int n + 1)"
  proof -
    have "of_int a / of_int b < (2 ^ m / 2 ^ (n - 1) :: rat)"
      using A B a b by (intro frac_less) auto
    also have "int m - int (n - 1) = int m - int n + 1" using mn by simp
    then have "(2 ^ m / 2 ^ (n - 1) :: rat) = 2 powi (int m - int n + 1)" by (simp only: powi_quot[symmetric])
    finally show ?thesis by (simp add: q)
  qed
  show "2 powi fexp q \<le> q" and "q < 2 powi (fexp q + 1)"
    using lo hi by (auto simp: fexp_def ab m_def[symmetric] n_def[symmetric] Let_def not_le)
qed

lemma fexp_mono:
  assumes "0 < q" and "q \<le> r"
  shows "fexp q \<le> fexp r"
proof (rule ccontr)
  assume "\<not> fexp q \<le> fexp r"
  then have "2 powi (fexp r + 1) \<le> (2::rat) powi fexp q" by (intro powi_mono) simp
  also have "\<dots> \<le> q" using assms by (simp add: fexp_bounds)
  also have "\<dots> \<le> r" by fact
  also have "\<dots> < 2 powi (fexp r + 1)" using assms by (simp add: fexp_bounds)
  finally show False by simp
qed

section \<open>Facts about rounding\<close>

lemma rne_int [simp]: "rne (of_int k) = k"
  by (simp add: rne_def)

lemma rne_bounds: "\<lfloor>x\<rfloor> \<le> rne x" "rne x \<le> \<lfloor>x\<rfloor> + 1"
  by (simp_all add: rne_def Let_def)

lemma rne_mono:
  assumes "x \<le> y"
  shows "rne x \<le> rne y"
proof (cases "\<lfloor>x\<rfloor> = \<lfloor>y\<rfloor>")
  case True
  with assms show ?thesis by (auto simp: rne_def Let_def)
next
  case False
  with assms have "\<lfloor>x\<rfloor> + 1 \<le> \<lfloor>y\<rfloor>" using floor_mono[OF assms] by simp
  with rne_bounds(2)[of x] rne_bounds(1)[of y] show ?thesis by linarith
qed

lemma fulp_pos [simp]: "0 < fulp f q"
  by (simp add: fulp_def)

lemma rnd_pos_ge:
  assumes "of_int k * fulp f q \<le> q"
  shows "of_int k * fulp f q \<le> rnd_pos f q"
proof -
  have "of_int k \<le> q / fulp f q" using assms by (simp add: le_divide_eq)
  then have "rne (of_int k) \<le> rne (q / fulp f q)" by (rule rne_mono)
  then show ?thesis by (simp add: rnd_pos_def)
qed

lemma rnd_pos_le:
  assumes "q \<le> of_int k * fulp f q"
  shows "rnd_pos f q \<le> of_int k * fulp f q"
proof -
  have "q / fulp f q \<le> of_int k" using assms by (simp add: divide_le_eq)
  then have "rne (q / fulp f q) \<le> rne (of_int k)" by (rule rne_mono)
  then show ?thesis by (simp add: rnd_pos_def)
qed

lemma rnd_pos_nonneg: "0 \<le> q \<Longrightarrow> 0 \<le> rnd_pos f q"
  using rnd_pos_ge[of 0 f q] by simp

text \<open>A power of two at or above the spacing is a multiple of the spacing.\<close>

lemma powi_multiple:
  assumes "max (fexp q) (emin f) - (int (prec f) - 1) \<le> e"
  shows "\<exists>k. (2::rat) powi e = of_int k * fulp f q"
proof -
  let ?s = "max (fexp q) (emin f) - (int (prec f) - 1)"
  have "(2::rat) powi e = 2 powi (e - ?s) * 2 powi ?s"
    by (metis diff_add_cancel power_int_add zero_neq_numeral)
  moreover have "(2::rat) powi (e - ?s) = of_int (2 ^ nat (e - ?s))"
    using assms by (simp add: power_int_def)
  ultimately show ?thesis by (metis fulp_def)
qed

lemma rnd_pos_mono:
  assumes "0 < q" and "q \<le> r" and "0 < prec f"
  shows "rnd_pos f q \<le> rnd_pos f r"
proof (cases "fulp f q = fulp f r")
  case True
  have "q / fulp f q \<le> r / fulp f q" using assms by (simp add: divide_right_mono less_imp_le)
  then have "rne (q / fulp f q) \<le> rne (r / fulp f q)" by (rule rne_mono)
  then show ?thesis by (simp add: rnd_pos_def True[symmetric])
next
  case False
  then have lt: "max (fexp q) (emin f) < max (fexp r) (emin f)"
  proof -
    have "max (fexp q) (emin f) \<noteq> max (fexp r) (emin f)" using False by (auto simp: fulp_def)
    with fexp_mono[OF assms(1,2)] show ?thesis by linarith
  qed
  let ?e = "max (fexp q) (emin f) + 1"
  from lt have er: "?e \<le> fexp r" by (auto simp: max_def split: if_splits)
  obtain k where k: "(2::rat) powi ?e = of_int k * fulp f q"
    using powi_multiple[of q f ?e] assms(3) by auto
  have "q \<le> 2 powi ?e"
    using fexp_bounds(2)[OF assms(1)] powi_mono[of "fexp q + 1" ?e] by (simp add: less_imp_le)
  then have 1: "rnd_pos f q \<le> 2 powi ?e" using rnd_pos_le[of q k f] k by simp
  have "max (fexp r) (emin f) = fexp r" using lt by (auto simp: max_def split: if_splits)
  then obtain k' where k': "(2::rat) powi fexp r = of_int k' * fulp f r"
    using powi_multiple[of r f "fexp r"] assms(3) by auto
  have "2 powi fexp r \<le> r" using assms by (simp add: fexp_bounds)
  then have 2: "2 powi fexp r \<le> rnd_pos f r" using rnd_pos_ge[of k' f r] k' by simp
  from 1 2 powi_mono[OF er] show ?thesis by linarith
qed

lemma fround_mono:
  assumes "q \<le> r" and "0 < prec f"
  shows "fround f q \<le> fround f r"
proof -
  consider "0 < q" | "q = 0" | "q < 0" "0 \<le> r" | "r < 0" using assms(1) by linarith
  then show ?thesis
  proof cases
    case 1
    then have "rnd_pos f q \<le> rnd_pos f r" using assms by (intro rnd_pos_mono) auto
    with 1 assms(1) show ?thesis by (auto simp: fround_def Let_def)
  next
    case 2
    with assms(1) show ?thesis using rnd_pos_nonneg[of r f] by (auto simp: fround_def Let_def)
  next
    case 3
    then show ?thesis using rnd_pos_nonneg[of "-q" f] rnd_pos_nonneg[of r f]
      by (auto simp: fround_def Let_def)
  next
    case 4
    then have "rnd_pos f (- r) \<le> rnd_pos f (- q)" using assms by (intro rnd_pos_mono) auto
    with 4 assms(1) show ?thesis by (auto simp: fround_def Let_def)
  qed
qed

text \<open>Integers of at most \<open>prec\<close> bits are rounded to themselves.\<close>

lemma fexp_int_less:
  assumes "0 < k" and "k < 2 ^ p"
  shows "0 \<le> fexp (of_int k)" and "fexp (of_int k) < int p"
proof -
  have pos: "(0::rat) < of_int k" using assms by simp
  show "0 \<le> fexp (of_int k)"
  proof (rule ccontr)
    assume "\<not> 0 \<le> fexp (of_int k)"
    then have "(2::rat) powi (fexp (of_int k) + 1) \<le> 2 powi 0" by (intro powi_mono) simp
    with fexp_bounds(2)[OF pos] have "(of_int k :: rat) < 1" by simp
    with assms show False by simp
  qed
  show "fexp (of_int k) < int p"
  proof (rule ccontr)
    assume "\<not> fexp (of_int k) < int p"
    then have "(2::rat) powi int p \<le> 2 powi fexp (of_int k)" by (intro powi_mono) simp
    also have "\<dots> \<le> of_int k" using fexp_bounds(1)[OF pos] .
    also have "(of_int k :: rat) < of_int (2 ^ p)" using assms by (simp only: of_int_less_iff)
    finally show False by simp
  qed
qed

lemma rnd_pos_int:
  assumes "0 < k" and "k < 2 ^ prec f" and "emin f \<le> 0"
  shows "rnd_pos f (of_int k) = of_int k"
proof -
  have e: "0 \<le> fexp (of_int k)" "fexp (of_int k) < int (prec f)"
    using fexp_int_less[OF assms(1,2)] by auto
  then obtain j where j: "(2::rat) powi 0 = of_int j * fulp f (of_int k)"
    using powi_multiple[of "of_int k" f 0] assms(3) by auto
  then have "of_int (k * j) * fulp f (of_int k) = of_int k"
    by (metis mult.assoc mult.right_neutral of_int_mult power_int_0_right)
  then have "rnd_pos f (of_int k) \<le> of_int k" "of_int k \<le> rnd_pos f (of_int k)"
    using rnd_pos_le[of "of_int k" "k * j" f] rnd_pos_ge[of "k * j" f "of_int k"]
    by (metis order_refl)+
  then show ?thesis by simp
qed

definition std_fmt :: "fmt \<Rightarrow> bool" where
  "std_fmt f \<longleftrightarrow> 0 < prec f \<and> emin f \<le> 0 \<and> int (prec f) \<le> emax f"

lemma std_fmts [simp, intro]: "std_fmt F64" "std_fmt F32"
  by (simp_all add: std_fmt_def)

lemma std_prec_pos [simp]: "std_fmt f \<Longrightarrow> 0 < prec f"
  by (simp add: std_fmt_def)

lemma fround_int:
  assumes "std_fmt f" and "\<bar>k\<bar> < 2 ^ prec f"
  shows "fround f (of_int k) = Fin (of_int k)"
proof (cases "k = 0")
  case True
  then show ?thesis by (simp add: fround_def)
next
  case False
  have r: "rnd_pos f (of_int \<bar>k\<bar>) = of_int \<bar>k\<bar>"
    using assms False by (intro rnd_pos_int) (auto simp: std_fmt_def)
  have "(of_int \<bar>k\<bar> :: rat) < of_int (2 ^ prec f)" using assms(2) by (simp only: of_int_less_iff)
  also have "of_int (2 ^ prec f) = (2::rat) powi int (prec f)" by simp
  also have "\<dots> \<le> 2 powi (emax f + 1)" using assms(1) by (intro powi_mono) (auto simp: std_fmt_def)
  finally have "\<not> 2 powi (emax f + 1) \<le> (of_int \<bar>k\<bar> :: rat)" by simp
  with r False show ?thesis by (auto simp: fround_def Let_def abs_if)
qed

corollary f_of_int_exact: "std_fmt f \<Longrightarrow> \<bar>k\<bar> < 2 ^ prec f \<Longrightarrow> f_of_int f k = Fin (of_int k)"
  by (simp add: f_of_int_def fround_int)

text \<open>A representable integer below a rational stays below its rounding.\<close>

lemma fround_ge_int:
  assumes "std_fmt f" and "\<bar>k\<bar> < 2 ^ prec f" and "of_int k \<le> q"
  shows "Fin (of_int k) \<le> fround f q"
  using fround_mono[OF assms(3), of f] fround_int[OF assms(1,2)] assms(1) by simp

lemma fround_cases: "(\<exists>r. fround f q = Fin r) \<or> fround f q = PInf \<or> fround f q = NInf"
  by (simp add: fround_def Let_def)

lemma fround_not_NaN [simp]: "fround f q \<noteq> NaN"
  by (simp add: fround_def Let_def)

lemma f_of_int_not_NaN [simp]: "f_of_int f k \<noteq> NaN"
  by (simp add: f_of_int_def)

lemma f_of_int_mono: "std_fmt f \<Longrightarrow> a \<le> b \<Longrightarrow> f_of_int f a \<le> f_of_int f b"
  by (simp add: f_of_int_def fround_mono)

section \<open>Finiteness\<close>

lemma fexp_powi [simp]: "fexp (2 powi e) = e"
proof -
  have "\<not> fexp (2 powi e) + 1 \<le> e"
    using fexp_bounds(2)[of "2 powi e"] powi_mono[of "fexp (2 powi e) + 1" e] by fastforce
  moreover have "\<not> e + 1 \<le> fexp (2 powi e)"
    using fexp_bounds(1)[of "2 powi e"] powi_mono[of "e + 1" "fexp (2 powi e)"]
      powi_Suc[of e] powi_pos[of e] by linarith
  ultimately show ?thesis by linarith
qed

lemma fround_powi:
  assumes "std_fmt f" and "emin f \<le> e" and "e \<le> emax f"
  shows "fround f (2 powi e) = Fin (2 powi e)"
proof -
  obtain k where k: "2 powi e = of_int k * fulp f (2 powi e)"
    using powi_multiple[of "2 powi e" f e] assms by (auto simp: std_fmt_def)
  have "rnd_pos f (2 powi e) = 2 powi e"
    using rnd_pos_le[of "2 powi e" k f] rnd_pos_ge[of k f "2 powi e"] k by fastforce
  moreover have "(2::rat) powi e < 2 powi (emax f + 1)"
    using powi_mono[of e "emax f"] assms powi_Suc[of "emax f"] powi_pos[of "emax f"] by linarith
  ultimately show ?thesis by (simp add: fround_def Let_def)
qed

definition finite_fl :: "fl \<Rightarrow> bool" where
  "finite_fl x \<longleftrightarrow> (case x of Fin q \<Rightarrow> True | _ \<Rightarrow> False)"

lemma finite_fl_simps [simp]:
  "finite_fl (Fin q)" "\<not> finite_fl PInf" "\<not> finite_fl NInf" "\<not> finite_fl NaN"
  by (simp_all add: finite_fl_def)

lemma finite_fl_not_NaN: "finite_fl x \<Longrightarrow> x \<noteq> NaN"
  by auto

lemma fround_bounded:
  assumes "std_fmt f" and "0 \<le> q" and "q \<le> 2 powi e" and "emin f \<le> e" and "e \<le> emax f"
  shows "\<exists>r. fround f q = Fin r \<and> 0 \<le> r \<and> r \<le> 2 powi e"
proof -
  have "fround f q \<le> Fin (2 powi e)"
    using fround_mono[OF assms(3), of f] fround_powi[OF assms(1,4,5)] assms(1) by simp
  moreover have "Fin 0 \<le> fround f q"
    using fround_mono[OF assms(2), of f] assms(1) by (simp add: fround_def)
  ultimately show ?thesis by (cases "fround f q") auto
qed

lemma f_of_int_bounded:
  assumes "std_fmt f" and "0 \<le> k" and "k \<le> 2 ^ e" and "int e \<le> emax f"
  shows "\<exists>r. f_of_int f k = Fin r \<and> 0 \<le> r \<and> r \<le> 2 ^ e"
proof -
  have "(of_int k :: rat) \<le> of_int (2 ^ e)" using assms(3) by (simp only: of_int_le_iff)
  then show ?thesis
    using fround_bounded[of f "of_int k" "int e"] assms by (auto simp: f_of_int_def std_fmt_def)
qed

lemma fround_minus: "fround f (- q) = fneg (fround f q)"
  by (auto simp: fround_def Let_def)

text \<open>Every 64-bit integer converts to a finite number.\<close>

lemma f_of_int_finite:
  assumes "std_fmt f" and "\<bar>k\<bar> \<le> 2 ^ e" and "int e \<le> emax f"
  shows "\<exists>r. f_of_int f k = Fin r \<and> \<bar>r\<bar> \<le> 2 ^ e"
proof (cases "0 \<le> k")
  case True
  then show ?thesis using f_of_int_bounded[of f k e] assms by fastforce
next
  case False
  then obtain r where "f_of_int f (- k) = Fin r" "0 \<le> r" "r \<le> 2 ^ e"
    using f_of_int_bounded[of f "- k" e] assms by fastforce
  then show ?thesis using fround_minus[of f "of_int (- k)"] by (simp add: f_of_int_def)
qed

section \<open>Order facts without NaN\<close>

lemma fl_not_less [simp]: "x \<noteq> NaN \<Longrightarrow> y \<noteq> NaN \<Longrightarrow> (\<not> x < y) = (y \<le> (x::fl))"
  by (cases x; cases y) auto

lemma fl_le_trans [trans]: "(x::fl) \<le> y \<Longrightarrow> y \<le> z \<Longrightarrow> x \<le> z"
  by (cases x; cases y; cases z) auto

lemma fl_less_le_trans [trans]: "(x::fl) < y \<Longrightarrow> y \<le> z \<Longrightarrow> x < z"
  by (cases x; cases y; cases z) auto

lemma fl_le_refl: "x \<noteq> NaN \<Longrightarrow> (x::fl) \<le> x"
  by (cases x) auto

lemma fl_less_imp_le: "(x::fl) < y \<Longrightarrow> x \<le> y"
  by (cases x; cases y) auto

end
