(* ===== verification/Go_Text.thy ===== *)
theory Go_Text
  imports Floats
begin

text \<open>
  The parts of Go's \<^verbatim>\<open>strings\<close>, \<^verbatim>\<open>bufio\<close> and \<^verbatim>\<open>strconv\<close> the parsers rest on, on strings of bytes.
  Whitespace is Unicode's, in its UTF-8 encodings; integers are read in base ten with their range check;
  floats are read exactly and rounded once, to nearest, ties to even.
\<close>

section \<open>Whitespace\<close>

definition spaces :: "string list" where
  "spaces =
     [[CHR 0x20], [CHR 0x09], [CHR 0x0A], [CHR 0x0B], [CHR 0x0C], [CHR 0x0D],
      [CHR 0xC2, CHR 0x85], [CHR 0xC2, CHR 0xA0], [CHR 0xE1, CHR 0x9A, CHR 0x80],
      [CHR 0xE2, CHR 0x80, CHR 0x80], [CHR 0xE2, CHR 0x80, CHR 0x81], [CHR 0xE2, CHR 0x80, CHR 0x82],
      [CHR 0xE2, CHR 0x80, CHR 0x83], [CHR 0xE2, CHR 0x80, CHR 0x84], [CHR 0xE2, CHR 0x80, CHR 0x85],
      [CHR 0xE2, CHR 0x80, CHR 0x86], [CHR 0xE2, CHR 0x80, CHR 0x87], [CHR 0xE2, CHR 0x80, CHR 0x88],
      [CHR 0xE2, CHR 0x80, CHR 0x89], [CHR 0xE2, CHR 0x80, CHR 0x8A], [CHR 0xE2, CHR 0x80, CHR 0xA8],
      [CHR 0xE2, CHR 0x80, CHR 0xA9], [CHR 0xE2, CHR 0x80, CHR 0xAF], [CHR 0xE2, CHR 0x81, CHR 0x9F],
      [CHR 0xE3, CHR 0x80, CHR 0x80]]"

definition has_prefix :: "string \<Rightarrow> string \<Rightarrow> bool" where
  "has_prefix p s \<longleftrightarrow> take (length p) s = p"

definition has_suffix :: "string \<Rightarrow> string \<Rightarrow> bool" where
  "has_suffix p s \<longleftrightarrow> length p \<le> length s \<and> drop (length s - length p) s = p"

text \<open>How many bytes of whitespace stand at the front, or at the end.\<close>

definition space_at :: "string \<Rightarrow> nat" where
  "space_at s = (case find (\<lambda>w. has_prefix w s) spaces of Some w \<Rightarrow> length w | None \<Rightarrow> 0)"

definition space_end :: "string \<Rightarrow> nat" where
  "space_end s = (case find (\<lambda>w. has_suffix w s) spaces of Some w \<Rightarrow> length w | None \<Rightarrow> 0)"

function trim_left :: "string \<Rightarrow> string" where
  "trim_left s = (if s = [] \<or> space_at s = 0 then s else trim_left (drop (space_at s) s))"
  by auto
termination by (relation "measure length") auto

function trim_right :: "string \<Rightarrow> string" where
  "trim_right s = (if s = [] \<or> space_end s = 0 then s else trim_right (take (length s - space_end s) s))"
  by auto
termination by (relation "measure length") auto

declare trim_left.simps [simp del] trim_right.simps [simp del]

definition TrimSpace :: "string \<Rightarrow> string" where
  "TrimSpace s = trim_right (trim_left s)"

function fields_loop :: "string \<Rightarrow> string \<Rightarrow> string list" where
  "fields_loop cur s =
     (if s = [] then (if cur = [] then [] else [rev cur])
      else if space_at s = 0 then fields_loop (hd s # cur) (tl s)
      else (if cur = [] then [] else [rev cur]) @ fields_loop [] (drop (space_at s) s))"
  by auto
termination by (relation "measure (\<lambda>(cur, s). length s)") auto

declare fields_loop.simps [simp del]

definition Fields :: "string \<Rightarrow> string list" where
  "Fields s = fields_loop [] s"

section \<open>Cutting, splitting and lines\<close>

definition Cut :: "char \<Rightarrow> string \<Rightarrow> (string \<times> string) option" where
  "Cut c s = (if c \<in> set s then Some (takeWhile (\<lambda>x. x \<noteq> c) s, tl (dropWhile (\<lambda>x. x \<noteq> c) s)) else None)"

fun split_on :: "char \<Rightarrow> string \<Rightarrow> string list" where
  "split_on c [] = [[]]"
| "split_on c (x # xs) =
     (if x = c then [] # split_on c xs
      else case split_on c xs of [] \<Rightarrow> [[x]] | y # ys \<Rightarrow> (x # y) # ys)"

definition CutPrefix :: "string \<Rightarrow> string \<Rightarrow> string option" where
  "CutPrefix p s = (if has_prefix p s then Some (drop (length p) s) else None)"

text \<open>
  \<open>bufio.ScanLines\<close>: lines end with a newline, a carriage return before it is dropped, an empty last
  line is no line. A line that does not fit the scanner's buffer stops the scan; the flag says so.
\<close>

definition drop_cr :: "string \<Rightarrow> string" where
  "drop_cr s = (if s \<noteq> [] \<and> last s = CHR 0x0D then butlast s else s)"

definition raw_lines :: "string \<Rightarrow> string list" where
  "raw_lines s = (let ls = split_on (CHR 0x0A) s in if last ls = [] then butlast ls else ls)"

definition scan_lines :: "nat \<Rightarrow> string \<Rightarrow> string list \<times> bool" where
  "scan_lines limit s =
     (let ls = raw_lines s
      in (map drop_cr (takeWhile (\<lambda>l. length l < limit) ls), \<exists>l \<in> set ls. limit \<le> length l))"

lemma scan_lines_short:
  assumes "list_all (\<lambda>l. length l < k) (raw_lines s)" and "k \<le> limit"
  shows "scan_lines limit s = (map drop_cr (raw_lines s), False)"
proof -
  have all: "length l < limit" if "l \<in> set (raw_lines s)" for l using assms that by (fastforce simp: list_all_iff)
  then have "takeWhile (\<lambda>l. length l < limit) (raw_lines s) = raw_lines s" by (simp add: takeWhile_eq_all_conv)
  moreover have "\<not> (\<exists>l \<in> set (raw_lines s). limit \<le> length l)" using all by (meson not_le)
  ultimately show ?thesis by (simp only: scan_lines_def Let_def)
qed

section \<open>ASCII case\<close>

definition lower_char :: "char \<Rightarrow> char" where
  "lower_char c = (let k = of_char c :: nat in if 65 \<le> k \<and> k \<le> 90 then char_of (k + 32) else c)"

text \<open>
  \<open>strings.ToLower\<close>. Two letters outside ASCII have a lower case inside it, the Kelvin sign and the
  dotted capital I; every other rune outside ASCII stays outside, and is kept as it is here.
\<close>

fun ToLower :: "string \<Rightarrow> string" where
  "ToLower (a # b # c # s) =
     (if a = CHR 0xE2 \<and> b = CHR 0x84 \<and> c = CHR 0xAA then CHR ''k'' # ToLower s
      else if a = CHR 0xC4 \<and> b = CHR 0xB0 then CHR ''i'' # ToLower (c # s)
      else lower_char a # ToLower (b # c # s))"
| "ToLower [a, b] = (if a = CHR 0xC4 \<and> b = CHR 0xB0 then ''i'' else [lower_char a, lower_char b])"
| "ToLower [a] = [lower_char a]"
| "ToLower [] = []"

section \<open>Integers\<close>

definition digit_val :: "char \<Rightarrow> nat option" where
  "digit_val c = (let k = of_char c in if 48 \<le> k \<and> k \<le> 57 then Some (k - 48) else None)"

definition hex_val :: "char \<Rightarrow> nat option" where
  "hex_val c =
     (case digit_val c of Some d \<Rightarrow> Some d
      | None \<Rightarrow> (let k = of_char (lower_char c) in if 97 \<le> k \<and> k \<le> 102 then Some (k - 87) else None))"

fun digits_from :: "(char \<Rightarrow> nat option) \<Rightarrow> nat \<Rightarrow> nat \<Rightarrow> string \<Rightarrow> nat option" where
  "digits_from dv b acc [] = Some acc"
| "digits_from dv b acc (c # cs) =
     (case dv c of Some d \<Rightarrow> digits_from dv b (acc * b + d) cs | None \<Rightarrow> None)"

definition parse_uint :: "string \<Rightarrow> nat option" where
  "parse_uint s = (if s = [] then None else digits_from digit_val 10 0 s)"

definition split_sign :: "string \<Rightarrow> bool \<times> string" where
  "split_sign s =
     (case s of c # cs \<Rightarrow> (if c = CHR ''-'' then (True, cs) else if c = CHR ''+'' then (False, cs) else (False, s))
      | [] \<Rightarrow> (False, s))"

text \<open>\<open>strconv.ParseInt(s, 10, bits)\<close>, and \<open>Atoi\<close>, which is the 64-bit case.\<close>

definition ParseInt :: "nat \<Rightarrow> string \<Rightarrow> int option" where
  "ParseInt bits s =
     (case split_sign s of (neg, ds) \<Rightarrow>
        (case parse_uint ds of None \<Rightarrow> None
         | Some n \<Rightarrow>
            (let v = (if neg then - int n else int n)
             in if - (2 ^ (bits - 1)) \<le> v \<and> v < 2 ^ (bits - 1) then Some v else None)))"

definition Atoi :: "string \<Rightarrow> int option" where
  "Atoi s = ParseInt 64 s"

section \<open>Floats\<close>

definition digit_like :: "bool \<Rightarrow> char \<Rightarrow> bool" where
  "digit_like hex c \<longleftrightarrow> (if hex then hex_val c else digit_val c) \<noteq> None"

text \<open>Digit separators: each stands between digits, a base prefix counting as one.\<close>

fun underscore_ok :: "bool \<Rightarrow> bool \<Rightarrow> bool \<Rightarrow> string \<Rightarrow> bool" where
  "underscore_ok hex after_digit after_sep [] = (\<not> after_sep)"
| "underscore_ok hex after_digit after_sep (c # cs) =
     (if digit_like hex c then underscore_ok hex True False cs
      else if c = CHR ''_'' then after_digit \<and> underscore_ok hex False True cs
      else \<not> after_sep \<and> underscore_ok hex False False cs)"

definition is_hex :: "string \<Rightarrow> bool" where
  "is_hex s \<longleftrightarrow> has_prefix ''0x'' s \<or> has_prefix ''0X'' s"

text \<open>The exponent part, after its letter: an optional sign and at least one digit.\<close>

definition exponent :: "string \<Rightarrow> int option" where
  "exponent s =
     (case split_sign s of (neg, ds) \<Rightarrow>
        (if ds = [] \<or> digit_val (hd ds) = None then None
         else map_option (\<lambda>e. if neg then - int e else int e) (parse_uint (filter (\<lambda>c. c \<noteq> CHR ''_'') ds))))"

text \<open>The mantissa: the number its digits spell and how many stand after the point.\<close>

definition mantissa :: "bool \<Rightarrow> string \<Rightarrow> (nat \<times> nat) option" where
  "mantissa hex s =
     (let s = filter (\<lambda>c. c \<noteq> CHR ''_'') s;
          (w, frac) = (case Cut (CHR ''.'') s of Some p \<Rightarrow> p | None \<Rightarrow> (s, []));
          dv = (if hex then hex_val else digit_val)
      in if w @ frac = [] then None
         else map_option (\<lambda>n. (n, length frac)) (digits_from dv (if hex then 16 else 10) 0 (w @ frac)))"

text \<open>The exact value of an unsigned literal.\<close>

definition float_value :: "string \<Rightarrow> rat option" where
  "float_value s =
     (let hex = is_hex s;
          body = (if hex then drop 2 s else s);
          letter = (\<lambda>c. lower_char c = (if hex then CHR ''p'' else CHR ''e''));
          mant = takeWhile (\<lambda>c. \<not> letter c) body;
          rest = dropWhile (\<lambda>c. \<not> letter c) body
      in if \<not> underscore_ok hex hex False body then None
         else case (mantissa hex mant, if rest = [] then (if hex then None else Some 0) else exponent (tl rest)) of
           (Some (n, k), Some e) \<Rightarrow>
             Some (of_nat n * (if hex then 2 powi (e - 4 * int k) else 10 powi (e - int k)))
         | _ \<Rightarrow> None)"

text \<open>\<open>strconv.ParseFloat(s, 64)\<close>. A literal past the largest number is a range error.\<close>

definition ParseFloat :: "string \<Rightarrow> fl option" where
  "ParseFloat s =
     (case split_sign s of (neg, u) \<Rightarrow>
        let word = map lower_char u in
        if word = ''inf'' \<or> word = ''infinity'' then Some (if neg then NInf else PInf)
        else if map lower_char s = ''nan'' then Some NaN
        else case float_value u of None \<Rightarrow> None
          | Some q \<Rightarrow>
              (case fround F64 (if neg then - q else q) of Fin r \<Rightarrow> Some (Fin r) | _ \<Rightarrow> None))"

definition to_f32 :: "fl \<Rightarrow> fl" where
  "to_f32 x = (case x of Fin q \<Rightarrow> fround F32 q | _ \<Rightarrow> x)"

section \<open>Facts about words and numerals\<close>

text \<open>A printing ASCII byte begins no whitespace.\<close>

definition graph :: "char \<Rightarrow> bool" where
  "graph c \<longleftrightarrow> (let k = of_char c :: nat in 33 \<le> k \<and> k < 127)"

definition word_ok :: "string \<Rightarrow> bool" where
  "word_ok s \<longleftrightarrow> s \<noteq> [] \<and> list_all graph s"

lemma spaces_not_graph: "list_all (\<lambda>w. w \<noteq> [] \<and> \<not> graph (hd w)) spaces"
  by code_simp

lemma space_at_graph [simp]: "graph c \<Longrightarrow> space_at (c # s) = 0"
proof -
  assume c: "graph c"
  have "find (\<lambda>w. has_prefix w (c # s)) spaces = None"
  proof (subst find_None_iff, intro notI, elim exE conjE)
    fix w assume w: "w \<in> set spaces" "has_prefix w (c # s)"
    then have "w \<noteq> []" "\<not> graph (hd w)" using spaces_not_graph by (auto simp: list_all_iff)
    with w(2) c show False by (cases w) (auto simp: has_prefix_def)
  qed
  then show ?thesis by (simp add: space_at_def)
qed

lemma space_at_blank [simp]: "space_at (CHR '' '' # s) = 1"
  by (simp add: space_at_def spaces_def has_prefix_def)

lemma fields_loop_word:
  "list_all graph w \<Longrightarrow> fields_loop cur (w @ s) = fields_loop (rev w @ cur) s"
  by (induction w arbitrary: cur) (simp_all add: fields_loop.simps[of _ "_ # _"])

fun join_blank :: "string list \<Rightarrow> string" where
  "join_blank [] = []"
| "join_blank [w] = w"
| "join_blank (w # v # ws) = w @ CHR '' '' # join_blank (v # ws)"

lemma fields_join: "list_all word_ok ws \<Longrightarrow> Fields (join_blank ws) = ws"
  unfolding Fields_def
proof (induction ws rule: join_blank.induct)
  case 1
  then show ?case by (simp add: fields_loop.simps)
next
  case (2 w)
  then show ?case using fields_loop_word[of w "[]" "[]"] by (simp add: word_ok_def fields_loop.simps[of _ "[]"])
next
  case (3 w v ws)
  have "fields_loop [] (w @ CHR '' '' # join_blank (v # ws)) = fields_loop (rev w) (CHR '' '' # join_blank (v # ws))"
    using 3(2) fields_loop_word[of w] by (simp add: word_ok_def)
  also have "\<dots> = w # fields_loop [] (join_blank (v # ws))"
    using 3(2) by (subst fields_loop.simps) (simp add: word_ok_def)
  finally show ?case using 3 by simp
qed

text \<open>Integers survive printing and parsing.\<close>

definition show_int :: "int \<Rightarrow> string" where
  "show_int i = (if i < 0 then CHR ''-'' # itoa (nat (- i)) else itoa (nat i))"

lemma less_10_cases: "d < 10 \<Longrightarrow> d \<in> {0, 1, 2, 3, 4, 5, 6, 7, 8, 9 :: nat}"
  by auto

lemma digit_val_char [simp]: "d < 10 \<Longrightarrow> digit_val (digit_char d) = Some d"
  by (drule less_10_cases) (auto simp: digit_val_def digit_char_def)

lemma digit_char_facts: "d < 10 \<Longrightarrow> graph (digit_char d) \<and> digit_char d \<noteq> CHR ''-'' \<and> digit_char d \<noteq> CHR ''+''"
  by (drule less_10_cases) (auto simp: graph_def digit_char_def char_of_eq_iff)

lemma digits_from_append:
  "digits_from dv b acc (xs @ ys) = (case digits_from dv b acc xs of Some a \<Rightarrow> digits_from dv b a ys | None \<Rightarrow> None)"
  by (induction xs arbitrary: acc) (auto split: option.split)

lemma digits_from_itoa: "digits_from digit_val 10 0 (itoa n) = Some n"
proof (induction n rule: itoa.induct)
  case (1 n)
  show ?case
  proof (cases "n < 10")
    case True
    then show ?thesis by (subst itoa.simps) simp
  next
    case False
    then have "digits_from digit_val 10 0 (itoa (n div 10)) = Some (n div 10)" by (rule 1)
    then show ?thesis using False by (subst itoa.simps) (simp add: digits_from_append)
  qed
qed

lemma itoa_graph: "list_all graph (itoa n)"
proof (induction n rule: itoa.induct)
  case (1 n)
  then show ?case by (subst itoa.simps) (simp add: digit_char_facts)
qed

lemma itoa_hd: "hd (itoa n) \<noteq> CHR ''-'' \<and> hd (itoa n) \<noteq> CHR ''+''"
proof (induction n rule: itoa.induct)
  case (1 n)
  then show ?case by (subst (1 2) itoa.simps) (simp add: digit_char_facts)
qed

lemma parse_uint_itoa [simp]: "parse_uint (itoa n) = Some n"
  by (simp add: parse_uint_def digits_from_itoa)

lemma ParseInt_show:
  assumes "- (2 ^ (bits - 1)) \<le> i" and "i < 2 ^ (bits - 1)"
  shows "ParseInt bits (show_int i) = Some i"
proof (cases "i < 0")
  case True
  then show ?thesis using assms by (simp add: ParseInt_def split_sign_def show_int_def)
next
  case False
  have "split_sign (itoa (nat i)) = (False, itoa (nat i))"
    using itoa_hd[of "nat i"] itoa_ne[of "nat i"] by (auto simp: split_sign_def split: list.split)
  then show ?thesis using assms False by (simp add: ParseInt_def show_int_def)
qed

lemma show_int_word: "word_ok (show_int i)"
  using itoa_graph by (auto simp: word_ok_def show_int_def graph_def)

text \<open>A parsed integer is in the range asked for.\<close>

lemma ParseInt_range: "ParseInt bits s = Some v \<Longrightarrow> - (2 ^ (bits - 1)) \<le> v \<and> v < 2 ^ (bits - 1)"
  by (auto simp: ParseInt_def Let_def split: option.splits prod.splits if_splits)

text \<open>Text of digits: nothing is trimmed, lowered, or read as anything but its number.\<close>

definition digits :: "string \<Rightarrow> bool" where
  "digits s \<longleftrightarrow> s \<noteq> [] \<and> list_all (\<lambda>c. digit_val c \<noteq> None) s"

lemma digit_facts:
  assumes "digit_val c \<noteq> None"
  shows "graph c" and "lower_char c = c"
  using assms by (auto simp: digit_val_def graph_def lower_char_def Let_def split: if_splits)

lemma digits_itoa: "digits (itoa n)"
proof -
  have "list_all (\<lambda>c. digit_val c \<noteq> None) (itoa n)"
  proof (induction n rule: itoa.induct)
    case (1 n)
    then show ?case by (subst itoa.simps) simp
  qed
  then show ?thesis by (simp add: digits_def)
qed

lemma not_digit_member: "digits s \<Longrightarrow> digit_val c = None \<Longrightarrow> c \<notin> set s"
  by (auto simp: digits_def list_all_iff)

lemma spaces_last: "list_all (\<lambda>w. w \<noteq> [] \<and> \<not> graph (last w)) spaces"
  by code_simp

lemma has_suffix_append: "has_suffix p s \<longleftrightarrow> (\<exists>xs. s = xs @ p)"
  by (auto simp: has_suffix_def) (metis append_take_drop_id)

lemma space_end_graph [simp]: "graph (last s) \<Longrightarrow> space_end s = 0"
proof -
  assume g: "graph (last s)"
  have "find (\<lambda>w. has_suffix w s) spaces = None"
  proof (subst find_None_iff, intro notI, elim exE conjE)
    fix w assume w: "w \<in> set spaces" "has_suffix w s"
    then have "w \<noteq> []" "\<not> graph (last w)" using spaces_last by (auto simp: list_all_iff)
    with w(2) g show False by (auto simp: has_suffix_append)
  qed
  then show ?thesis by (simp add: space_end_def)
qed

lemma TrimSpace_graph: "list_all graph s \<Longrightarrow> TrimSpace s = s"
proof -
  assume g: "list_all graph s"
  have "trim_left s = s" by (subst trim_left.simps) (use g in \<open>cases s; simp\<close>)
  moreover have "space_end s = 0" if "s \<noteq> []" using g that by (intro space_end_graph) (simp add: list_all_iff)
  then have "trim_right s = s" by (subst trim_right.simps) auto
  ultimately show ?thesis by (simp add: TrimSpace_def)
qed

lemma ToLower_id: "list_all (\<lambda>c. graph c \<and> lower_char c = c) s \<Longrightarrow> ToLower s = s"
  by (induction s rule: ToLower.induct) (auto simp: graph_def)

lemma has_prefix_simps [simp]:
  "has_prefix [] s" "\<not> has_prefix (a # p) []" "has_prefix (a # p) (b # s) \<longleftrightarrow> a = b \<and> has_prefix p s"
  by (auto simp: has_prefix_def)

lemma has_suffix_rev: "has_suffix p s \<longleftrightarrow> has_prefix (rev p) (rev s)"
proof -
  have "has_prefix p s \<longleftrightarrow> (\<exists>xs. s = p @ xs)" for p s
    by (auto simp: has_prefix_def) (metis append_take_drop_id)
  then show ?thesis unfolding has_suffix_append by (metis rev_append rev_rev_ident)
qed

lemma has_prefix_digits: "digits xs \<Longrightarrow> digit_val a = None \<Longrightarrow> \<not> has_prefix (a # p) (rev xs)"
  by (cases "rev xs") (auto simp: digits_def list_all_iff)

lemma split_sign_digits: "digits s \<Longrightarrow> split_sign s = (False, s)"
  using not_digit_member[of s "CHR ''-''"] not_digit_member[of s "CHR ''+''"]
  by (auto simp: split_sign_def digit_val_def split: list.split)

lemma underscore_ok_digits: "list_all (\<lambda>c. digit_val c \<noteq> None) s \<Longrightarrow> underscore_ok False a False s"
  by (induction s arbitrary: a) (auto simp: digit_like_def)

lemma float_value_itoa: "float_value (itoa n) = Some (of_nat n)"
proof -
  have out: "c \<notin> set (itoa n)" if "digit_val c = None" for c using not_digit_member[OF digits_itoa that] .
  have marks: "digit_val (CHR ''x'') = None" "digit_val (CHR ''X'') = None" "digit_val (CHR ''e'') = None"
    "digit_val (CHR ''E'') = None" "digit_val (CHR ''.'') = None" "digit_val (CHR ''_'') = None" by code_simp+
  have hex: "\<not> is_hex (itoa n)"
  proof
    assume "is_hex (itoa n)"
    then have "take 2 (itoa n) = ''0x'' \<or> take 2 (itoa n) = ''0X''" by (simp add: is_hex_def has_prefix_def numeral_2_eq_2)
    then have "CHR ''x'' \<in> set (itoa n) \<or> CHR ''X'' \<in> set (itoa n)"
      by (metis in_set_takeD list.set_intros(1,2))
    with out marks show False by blast
  qed
  have all: "list_all (\<lambda>c. digit_val c \<noteq> None) (itoa n)" using digits_itoa by (simp add: digits_def)
  have e: "lower_char c \<noteq> CHR ''e''" if "c \<in> set (itoa n)" for c
    using all that digit_facts(2)[of c] marks by (auto simp: list_all_iff)
  have tw: "takeWhile (\<lambda>c. lower_char c \<noteq> CHR ''e'') (itoa n) = itoa n"
    "dropWhile (\<lambda>c. lower_char c \<noteq> CHR ''e'') (itoa n) = []"
    using e by (simp_all add: takeWhile_eq_all_conv dropWhile_eq_Nil_conv)
  have fl: "filter (\<lambda>c. c \<noteq> CHR ''_'') (itoa n) = itoa n" using out[OF marks(6)] by (auto simp: filter_id_conv)
  have mant: "mantissa False (itoa n) = Some (n, 0)"
    unfolding mantissa_def fl Let_def using out[OF marks(5)] by (simp add: Cut_def digits_from_itoa)
  show ?thesis
    by (simp add: float_value_def Let_def hex underscore_ok_digits[OF all] tw mant)
qed

lemma ParseFloat_itoa: "n < 2 ^ 53 \<Longrightarrow> ParseFloat (itoa n) = Some (Fin (of_nat n))"
proof -
  assume n: "n < 2 ^ 53"
  have low: "map lower_char (itoa n) = itoa n"
    using digits_itoa[of n] digit_facts(2) by (auto simp: digits_def list_all_iff intro: map_idI)
  have "CHR ''n'' \<notin> set (itoa n)" by (rule not_digit_member[OF digits_itoa]) code_simp
  then have special: "itoa n \<noteq> ''inf''" "itoa n \<noteq> ''infinity''" "itoa n \<noteq> ''nan''" by (metis list.set_intros(1,2))+
  have "int n < int (2 ^ 53)" using n by (simp only: of_nat_less_iff)
  then have "fround F64 (of_nat n) = Fin (of_nat n)" using fround_int[of F64 "int n"] std_fmts by simp
  then show ?thesis
    by (simp add: ParseFloat_def split_sign_digits[OF digits_itoa] low special float_value_itoa)
qed

text \<open>No operation makes a text longer.\<close>

lemma length_trim_left: "length (trim_left s) \<le> length s"
proof (induction s rule: trim_left.induct)
  case (1 s)
  then show ?case by (subst trim_left.simps) (auto intro: le_trans)
qed

lemma length_trim_right: "length (trim_right s) \<le> length s"
proof (induction s rule: trim_right.induct)
  case (1 s)
  show ?case
  proof (cases "s = [] \<or> space_end s = 0")
    case False
    then have "length (trim_right (take (length s - space_end s) s)) \<le> length s" using 1 by fastforce
    then show ?thesis using False by (subst trim_right.simps) simp
  qed (simp add: trim_right.simps[of s])
qed

lemma length_TrimSpace: "length (TrimSpace s) \<le> length s"
  unfolding TrimSpace_def using length_trim_left length_trim_right le_trans by blast

lemma length_fields_loop: "length (fields_loop cur s) \<le> length s + (if cur = [] then 0 else 1)"
proof (induction cur s rule: fields_loop.induct)
  case (1 cur s)
  show ?case
  proof (cases "s = []")
    case True
    then show ?thesis by (subst fields_loop.simps) simp
  next
    case s: False
    show ?thesis
    proof (cases "space_at s = 0")
      case True
      then show ?thesis using 1(1)[OF s True] s by (subst fields_loop.simps) (cases s; simp)
    next
      case False
      then have "length (drop (space_at s) s) + 1 \<le> length s" using s by (cases s) auto
      then show ?thesis using 1(2)[OF s False] s False by (subst fields_loop.simps) simp
    qed
  qed
qed

lemma length_Fields: "length (Fields s) \<le> length s"
  using length_fields_loop[of "[]" s] by (simp add: Fields_def)

lemma length_Cut: "Cut c s = Some (a, b) \<Longrightarrow> length a + length b < length s"
proof -
  assume cut: "Cut c s = Some (a, b)"
  then have m: "c \<in> set s" "a = takeWhile (\<lambda>x. x \<noteq> c) s" "b = tl (dropWhile (\<lambda>x. x \<noteq> c) s)"
    by (auto simp: Cut_def split: if_splits)
  have "dropWhile (\<lambda>x. x \<noteq> c) s \<noteq> []" using m(1) by (auto simp: dropWhile_eq_Nil_conv)
  then have "length s = length a + Suc (length b)"
    unfolding m by (metis Nitpick.size_list_simp(2) length_append takeWhile_dropWhile_id)
  then show ?thesis by simp
qed

lemma length_split_on: "sum_list (map length (split_on c s)) \<le> length s"
  by (induction s) (auto split: list.split)

lemma sum_length_takeWhile: "sum_list (map length (takeWhile P ls)) \<le> sum_list (map length (ls :: 'a list list))"
  by (induction ls) auto

lemma length_scan_lines: "sum_list (map length (fst (scan_lines k s))) \<le> length s"
proof -
  have raw: "sum_list (map length (raw_lines s)) \<le> length s"
  proof -
    let ?ls = "split_on (CHR 0x0A) s"
    have "?ls \<noteq> []" by (cases s) (auto split: list.split)
    then have "?ls = butlast ?ls @ [last ?ls]" by simp
    from arg_cong[OF this, of "\<lambda>ls. sum_list (map length ls)"]
    have "sum_list (map length ?ls) = sum_list (map length (butlast ?ls)) + length (last ?ls)" by simp
    then show ?thesis using length_split_on[of "CHR 0x0A" s] by (auto simp: raw_lines_def Let_def)
  qed
  have cr: "length (drop_cr l) \<le> length l" for l by (simp add: drop_cr_def)
  have "sum_list (map length (map drop_cr ls)) \<le> sum_list (map length ls)" for ls
    by (induction ls) (use cr in \<open>auto intro: add_mono\<close>)
  from this[of "takeWhile (\<lambda>l. length l < k) (raw_lines s)"] sum_length_takeWhile[of "\<lambda>l. length l < k" "raw_lines s"] raw
  show ?thesis by (simp add: scan_lines_def Let_def)
qed

text \<open>The equations that read a literal integer, for concrete inputs.\<close>

lemmas read_simps = ParseInt_def Atoi_def split_sign_def parse_uint_def digit_val_def Fields_def fields_loop.simps
  space_at_def spaces_def has_prefix_def

definition lf_lines :: "string list \<Rightarrow> string" where
  "lf_lines ls = concat (map (\<lambda>l. l @ [CHR 0x0A]) ls)"

end
