(* ===== verification/Files.thy ===== *)
theory Files
  imports Go_Text "HOL-Library.List_Lexorder" "HOL-Library.Char_ord"
begin

text \<open>
  The operating system as the trace recorder and the registry use it: the files of one directory, by
  name; a script that says which of the next operations fail, and after how many bytes a write does; and
  the readings of the clock. A statement for every script and every clock is a statement about whatever
  the operating system does. An operation returns whether it succeeded.
\<close>

type_synonym directory = "(string \<times> byte list) list"

section \<open>Files and clock\<close>

datatype fault = Fine | Fail nat

record world =
  files :: directory
  faults :: "fault list"
  clock :: "nat \<Rightarrow> int"
  readings :: nat

definition next_fault :: "world \<Rightarrow> fault \<times> world" where
  "next_fault w = (case faults w of [] \<Rightarrow> (Fine, w) | f # fs \<Rightarrow> (f, w\<lparr>faults := fs\<rparr>))"

definition clock_now :: "world \<Rightarrow> int \<times> world" where
  "clock_now w = (clock w (readings w), w\<lparr>readings := Suc (readings w)\<rparr>)"

definition content :: "world \<Rightarrow> string \<Rightarrow> byte list" where
  "content w p = (case map_of (files w) p of None \<Rightarrow> [] | Some c \<Rightarrow> c)"

definition os_create :: "string \<Rightarrow> world \<Rightarrow> bool \<times> world" where
  "os_create p w =
     (case next_fault w of (f, w) \<Rightarrow>
        if f = Fine \<and> map_of (files w) p = None then (True, w\<lparr>files := AList.update p [] (files w)\<rparr>)
        else (False, w))"

definition os_write :: "string \<Rightarrow> byte list \<Rightarrow> world \<Rightarrow> bool \<times> world" where
  "os_write p bs w =
     (case next_fault w of (f, w) \<Rightarrow>
        (f = Fine,
         w\<lparr>files := AList.update p (content w p @ (case f of Fine \<Rightarrow> bs | Fail n \<Rightarrow> take n bs)) (files w)\<rparr>))"

definition os_close :: "world \<Rightarrow> bool \<times> world" where
  "os_close w = (case next_fault w of (f, w) \<Rightarrow> (f = Fine, w))"

definition os_truncate :: "string \<Rightarrow> nat \<Rightarrow> world \<Rightarrow> bool \<times> world" where
  "os_truncate p n w =
     (case next_fault w of (f, w) \<Rightarrow>
        if f = Fine \<and> map_of (files w) p \<noteq> None
        then (True, w\<lparr>files := AList.update p (take n (content w p) @ replicate (n - length (content w p)) 0) (files w)\<rparr>)
        else (False, w))"

definition os_rename :: "string \<Rightarrow> string \<Rightarrow> world \<Rightarrow> bool \<times> world" where
  "os_rename p q w =
     (case next_fault w of (f, w) \<Rightarrow>
        if f = Fine \<and> map_of (files w) p \<noteq> None
        then (True, w\<lparr>files := AList.update q (content w p) (AList.delete p (files w))\<rparr>)
        else (False, w))"

definition os_remove :: "string \<Rightarrow> world \<Rightarrow> bool \<times> world" where
  "os_remove p w =
     (case next_fault w of (f, w) \<Rightarrow>
        if f = Fine \<and> map_of (files w) p \<noteq> None then (True, w\<lparr>files := AList.delete p (files w)\<rparr>)
        else (False, w))"

text \<open>\<open>os.Stat\<close>: the file is there, is not there, or the call failed.\<close>

datatype stat = Present | Absent | StatFailed

definition os_stat :: "string \<Rightarrow> world \<Rightarrow> stat \<times> world" where
  "os_stat p w =
     (case next_fault w of (f, w) \<Rightarrow>
        (if f \<noteq> Fine then StatFailed else if map_of (files w) p = None then Absent else Present, w))"

text \<open>\<open>os.WriteFile\<close> replaces the contents; when it fails, the first bytes may have been written.\<close>

definition os_write_file :: "string \<Rightarrow> byte list \<Rightarrow> world \<Rightarrow> bool \<times> world" where
  "os_write_file p bs w =
     (case next_fault w of (f, w) \<Rightarrow>
        (f = Fine, w\<lparr>files := AList.update p (case f of Fine \<Rightarrow> bs | Fail n \<Rightarrow> take n bs) (files w)\<rparr>))"

section \<open>Facts\<close>

lemma next_fault_files [simp]: "next_fault w = (f, w') \<Longrightarrow> files w' = files w"
  by (auto simp: next_fault_def split: list.splits)

lemma no_fault [simp]: "faults w = [] \<Longrightarrow> next_fault w = (Fine, w)"
  by (simp add: next_fault_def)

end
