(* ===== verification/Trace_Frame.thy ===== *)
theory Trace_Frame
  imports Trace_Ring Files
begin

text \<open>
  The format of a trace segment and \<^verbatim>\<open>internal/trace/reader.go\<close>. A segment is a sequence of frames, a
  varint byte count and then an encoded batch. The varint coding and the protobuf coding of a batch are
  third-party code and parameters here: \<open>av\<close> and \<open>cv\<close> are \<^verbatim>\<open>protowire.AppendVarint(nil, _)\<close> and
  \<^verbatim>\<open>ConsumeVarint\<close>, \<open>ma\<close> and \<open>um\<close> are \<^verbatim>\<open>proto.Marshal\<close> and \<^verbatim>\<open>Unmarshal\<close>. \<open>codec_ok\<close> is what their
  documentation promises. A directory is a map from file names to contents.
\<close>

record batch =
  node_id :: string
  b_sequence :: u64
  b_records :: "trec list"

datatype varint_error = VTruncated | VOverflow

datatype read_error = UnexpectedEOF | BadVarint | BadMessage | NoSuchFile | NoSegments nat

section \<open>Framing\<close>

definition frame :: "(u64 \<Rightarrow> byte list) \<Rightarrow> byte list \<Rightarrow> byte list" where
  "frame av enc = av (of_nat (length enc)) @ enc"

definition frames :: "(u64 \<Rightarrow> byte list) \<Rightarrow> (batch \<Rightarrow> byte list option) \<Rightarrow> batch list \<Rightarrow> byte list" where
  "frames av ma bs = concat (map (\<lambda>b. frame av (the (ma b))) bs)"

text \<open>A message is limited to 2 GiB; a varint that ends early is reported as truncated.\<close>

definition codec_ok :: "(u64 \<Rightarrow> byte list) \<Rightarrow> (byte list \<Rightarrow> varint_error + u64 \<times> nat) \<Rightarrow>
    (batch \<Rightarrow> byte list option) \<Rightarrow> (byte list \<Rightarrow> batch option) \<Rightarrow> bool" where
  "codec_ok av cv ma um \<longleftrightarrow>
     (\<forall>v rest. cv (av v @ rest) = Inr (v, length (av v))) \<and>
     (\<forall>v p q. av v = p @ q \<and> q \<noteq> [] \<longrightarrow> cv p = Inl VTruncated) \<and>
     (\<forall>v. av v \<noteq> [] \<and> length (av v) \<le> 10) \<and>
     (\<forall>b enc. ma b = Some enc \<longrightarrow> um enc = Some b \<and> length enc < 2 ^ 31)"

section \<open>Reading a segment\<close>

text \<open>A loop over the rest of the file; \<open>None\<close> would be a loop that does not end.\<close>

partial_function (option) read_loop :: "(byte list \<Rightarrow> varint_error + u64 \<times> nat) \<Rightarrow> (byte list \<Rightarrow> batch option) \<Rightarrow>
    byte list \<Rightarrow> (batch list \<times> read_error option) option" where
  "read_loop cv um data =
     (if data = [] then Some ([], None)
      else case cv data of
        Inl e \<Rightarrow> Some ([], Some (if e = VTruncated then UnexpectedEOF else BadVarint))
      | Inr sn \<Rightarrow>
          if length (drop (snd sn) data) < unat (fst sn) then Some ([], Some UnexpectedEOF)
          else case um (take (unat (fst sn)) (drop (snd sn) data)) of
            None \<Rightarrow> Some ([], Some BadMessage)
          | Some b \<Rightarrow>
              Option.bind (read_loop cv um (drop (unat (fst sn)) (drop (snd sn) data)))
                (\<lambda>r. Some (b # fst r, snd r)))"

definition ReadFile :: "(byte list \<Rightarrow> varint_error + u64 \<times> nat) \<Rightarrow> (byte list \<Rightarrow> batch option) \<Rightarrow>
    directory \<Rightarrow> string \<Rightarrow> (batch list \<times> read_error option) option" where
  "ReadFile cv um dir path =
     (case map_of dir path of None \<Rightarrow> Some ([], Some NoSuchFile) | Some data \<Rightarrow> read_loop cv um data)"

definition trace_ext :: string where "trace_ext = ''.trace''"
definition tmp_ext :: string where "tmp_ext = ''.partial''"

definition Segments :: "directory \<Rightarrow> string list" where
  "Segments dir = sort (filter (has_suffix trace_ext) (map fst dir))"

fun read_all :: "(byte list \<Rightarrow> varint_error + u64 \<times> nat) \<Rightarrow> (byte list \<Rightarrow> batch option) \<Rightarrow>
    directory \<Rightarrow> string list \<Rightarrow> (batch list \<times> read_error option) option" where
  "read_all cv um dir [] = Some ([], None)"
| "read_all cv um dir (p # ps) =
     (case ReadFile cv um dir p of None \<Rightarrow> None
      | Some (bs, e) \<Rightarrow>
          if e \<noteq> None \<and> e \<noteq> Some UnexpectedEOF then Some (bs, e)
          else case read_all cv um dir ps of None \<Rightarrow> None | Some (cs, e) \<Rightarrow> Some (bs @ cs, e))"

definition ReadDir :: "(byte list \<Rightarrow> varint_error + u64 \<times> nat) \<Rightarrow> (byte list \<Rightarrow> batch option) \<Rightarrow>
    directory \<Rightarrow> (batch list \<times> read_error option) option" where
  "ReadDir cv um dir =
     (let paths = Segments dir
      in if paths = [] then Some ([], Some (NoSegments (length (filter (has_suffix tmp_ext) (map fst dir)))))
         else read_all cv um dir paths)"

section \<open>Reading what was framed\<close>

definition encodable :: "(batch \<Rightarrow> byte list option) \<Rightarrow> batch list \<Rightarrow> bool" where
  "encodable ma bs \<longleftrightarrow> list_all (\<lambda>b. ma b \<noteq> None) bs"

lemma frames_simps [simp]:
  "frames av ma [] = []" "frames av ma (b # bs) = frame av (the (ma b)) @ frames av ma bs"
  "frames av ma (bs @ cs) = frames av ma bs @ frames av ma cs"
  by (simp_all add: frames_def)

lemma encodable_simps [simp]:
  "encodable ma []" "encodable ma (b # bs) \<longleftrightarrow> ma b \<noteq> None \<and> encodable ma bs"
  "encodable ma (bs @ cs) \<longleftrightarrow> encodable ma bs \<and> encodable ma cs"
  by (simp_all add: encodable_def)

lemma codec_varint:
  assumes "codec_ok av cv ma um"
  shows "cv (av v @ rest) = Inr (v, length (av v))" and "av v = p @ q \<Longrightarrow> q \<noteq> [] \<Longrightarrow> cv p = Inl VTruncated"
    and "av v \<noteq> []" and "length (av v) \<le> 10"
  using assms unfolding codec_ok_def by blast+

lemma codec_enc:
  assumes "codec_ok av cv ma um" and "ma b = Some enc"
  shows "um enc = Some b" and "unat (of_nat (length enc) :: u64) = length enc" and "length enc < 2 ^ 31"
proof -
  show "um enc = Some b" "length enc < 2 ^ 31" using assms by (auto simp: codec_ok_def)
  then show "unat (of_nat (length enc) :: u64) = length enc" by (intro unat_of_small) simp
qed

lemma read_frame:
  assumes "codec_ok av cv ma um" and "ma b = Some enc"
  shows "read_loop cv um (frame av enc @ rest) =
    Option.bind (read_loop cv um rest) (\<lambda>r. Some (b # fst r, snd r))"
proof -
  note E = codec_enc[OF assms]
  have cv: "cv (frame av enc @ rest) = Inr (of_nat (length enc), length (av (of_nat (length enc))))"
    and ne: "(frame av enc @ rest = []) = False"
    using codec_varint(1,3)[OF assms(1)] by (simp_all add: frame_def)
  show ?thesis
    by (subst read_loop.simps) (simp only: ne if_False cv sum.case fst_conv snd_conv, simp add: frame_def E)
qed

lemma read_frames:
  assumes "codec_ok av cv ma um"
  shows "encodable ma bs \<Longrightarrow> read_loop cv um (frames av ma bs @ rest) =
    Option.bind (read_loop cv um rest) (\<lambda>r. Some (bs @ fst r, snd r))"
proof (induction bs)
  case Nil
  then show ?case by (simp add: prod.expand Option.bind_eq_Some_conv)
next
  case (Cons b bs)
  then obtain enc where "ma b = Some enc" by auto
  from read_frame[OF assms this] this Cons show ?case by (simp split: option.split)
qed

lemma read_nothing [simp]: "read_loop cv um [] = Some ([], None)"
  by (subst read_loop.simps) simp

text \<open>A frame cut short is the end of the file.\<close>

lemma read_torn:
  assumes c: "codec_ok av cv ma um" and e: "ma b = Some enc" and p: "frame av enc = p @ q" "q \<noteq> []" "p \<noteq> []"
  shows "read_loop cv um p = Some ([], Some UnexpectedEOF)"
proof -
  let ?v = "of_nat (length enc) :: u64"
  note E = codec_enc[OF c e]
  have "av ?v @ enc = p @ q" using p(1) by (simp add: frame_def)
  then obtain us where us: "av ?v = p @ us \<and> us @ enc = q \<or> av ?v @ us = p \<and> enc = us @ q"
    unfolding append_eq_append_conv2 by blast
  consider r where "av ?v = p @ r" "r \<noteq> []" | s where "p = av ?v @ s" "enc = s @ q"
    using us by (cases "us = []") auto
  then show ?thesis
  proof cases
    case 1
    then have "cv p = Inl VTruncated" by (rule codec_varint(2)[OF c])
    then show ?thesis by (subst read_loop.simps) (simp add: p)
  next
    case (2 s)
    have "cv p = Inr (?v, length (av ?v))" using codec_varint(1)[OF c] by (simp add: 2)
    moreover have "length s < length enc" using 2 p(2) by simp
    ultimately show ?thesis using E(2) by (subst read_loop.simps) (use p(3) in \<open>simp add: 2(1)\<close>)
  qed
qed

text \<open>Every prefix of a segment reads as the frames that are whole in it.\<close>

lemma read_prefix:
  assumes "codec_ok av cv ma um" and "encodable ma bs"
  shows "\<exists>k e. read_loop cv um (take n (frames av ma bs)) = Some (take k bs, e) \<and> e \<in> {None, Some UnexpectedEOF} \<and>
    length (frames av ma (take k bs)) \<le> n \<and> (k < length bs \<longrightarrow> n < length (frames av ma (take (Suc k) bs)))"
  using assms(2)
proof (induction bs arbitrary: n)
  case Nil
  then show ?case by (intro exI[of _ 0]) auto
next
  case (Cons b bs)
  then obtain enc where enc: "ma b = Some enc" by auto
  let ?f = "frame av enc"
  show ?case
  proof (cases "n < length ?f")
    case True
    then have t: "take n (frames av ma (b # bs)) = take n ?f" by (simp add: enc)
    show ?thesis
    proof (cases "n = 0")
      case True
      then show ?thesis using \<open>n < length ?f\<close> by (intro exI[of _ 0]) (simp add: enc)
    next
      case False
      then have "read_loop cv um (take n ?f) = Some ([], Some UnexpectedEOF)"
        using True by (intro read_torn[OF assms(1) enc, of _ "drop n ?f"]) auto
      then show ?thesis using True unfolding t by (intro exI[of _ 0]) (simp add: enc)
    qed
  next
    case False
    then have t: "take n (frames av ma (b # bs)) = ?f @ take (n - length ?f) (frames av ma bs)" by (simp add: enc)
    obtain k e where k: "read_loop cv um (take (n - length ?f) (frames av ma bs)) = Some (take k bs, e)"
      "e \<in> {None, Some UnexpectedEOF}" "length (frames av ma (take k bs)) \<le> n - length ?f"
      "k < length bs \<longrightarrow> n - length ?f < length (frames av ma (take (Suc k) bs))"
      using Cons.IH[of "n - length ?f"] Cons.prems by auto
    have "read_loop cv um (take n (frames av ma (b # bs))) = Some (take (Suc k) (b # bs), e)"
      unfolding t using read_frame[OF assms(1) enc] k(1) by simp
    then show ?thesis using k(2-4) False by (intro exI[of _ "Suc k"]) (auto simp: enc)
  qed
qed

end
