(* ===== verification/Trace_Recorder.thy ===== *)
theory Trace_Recorder
  imports Trace_Frame
begin

text \<open>
  \<^verbatim>\<open>internal/trace/recorder.go\<close>: the goroutine that drains the rings into segment files. The world it
  runs in is the \<open>world\<close> of \<open>Files\<close>.
\<close>

section \<open>The recorder\<close>

record rconfig =
  Dir :: string
  NodeID :: string
  cfg_Shards :: int
  RingCapacity :: int
  SampleDenominator :: int
  SegmentBytes :: int
  FlushInterval :: int
  SegmentMaxAge :: int
  BatchSize :: int

record recorder =
  rings :: "tring list"
  seg_open :: bool
  seg_path :: string
  opened :: int
  rcfg :: rconfig
  written :: u64
  lost :: u64
  seg_size :: int
  r_sequence :: u64

datatype new_error = ShardsNotPositive | DirRequired | MkdirFailed | NotWritable | MakeSlicePanic

text \<open>\<open>writable\<close> creates a file with a fresh name, closes and removes it.\<close>

definition writable :: "string \<Rightarrow> world \<Rightarrow> bool \<times> world" where
  "writable probe w =
     (case os_create probe w of (ok, w) \<Rightarrow>
        if \<not> ok then (False, w)
        else case os_close w of (ok, w) \<Rightarrow>
          if \<not> ok then (False, w) else os_remove probe w)"

definition with_defaults :: "rconfig \<Rightarrow> rconfig" where
  "with_defaults c =
     (let c = (if RingCapacity c \<le> 0 then c\<lparr>RingCapacity := 8192\<rparr> else c);
          c = (if BatchSize c \<le> 0 then c\<lparr>BatchSize := 4096\<rparr> else c);
          c = (if SegmentBytes c \<le> 0 then c\<lparr>SegmentBytes := 32 * 2 ^ 20\<rparr> else c);
          c = (if FlushInterval c \<le> 0 then c\<lparr>FlushInterval := 1000000000\<rparr> else c)
      in if SegmentMaxAge c \<le> 0 then c\<lparr>SegmentMaxAge := 60 * 1000000000\<rparr> else c)"

definition NewRecorder :: "string \<Rightarrow> rconfig \<Rightarrow> world \<Rightarrow> (new_error + recorder) \<times> world" where
  "NewRecorder probe cfg w =
     (if cfg_Shards cfg \<le> 0 then (Inl ShardsNotPositive, w)
      else if Dir cfg = [] then (Inl DirRequired, w)
      else
        let cfg = with_defaults cfg
        in case next_fault w of (f, w) \<Rightarrow>
          if f \<noteq> Fine then (Inl MkdirFailed, w)
          else case writable probe w of (ok, w) \<Rightarrow>
            if \<not> ok then (Inl NotWritable, w)
            else case NewRing (RingCapacity cfg) (SampleDenominator cfg) of
              None \<Rightarrow> (Inl MakeSlicePanic, w)
            | Some ring \<Rightarrow>
                (Inr \<lparr>rings = replicate (nat (cfg_Shards cfg)) ring, seg_open = False, seg_path = [], opened = 0,
                      rcfg = cfg, written = 0, lost = 0, seg_size = 0, r_sequence = 0\<rparr>, w))"

definition Shards :: "recorder \<Rightarrow> nat" where "Shards r = length (rings r)"
definition Ring :: "recorder \<Rightarrow> nat \<Rightarrow> tring" where "Ring r i = rings r ! i"

definition Stats :: "recorder \<Rightarrow> u64 \<times> u64" where
  "Stats r = (written r, fold (\<lambda>ring d. d + snd (ring_counters ring)) (rings r) 0 + lost r)"

section \<open>Segments\<close>

definition publish :: "string \<Rightarrow> int \<Rightarrow> world \<Rightarrow> bool \<times> world" where
  "publish path sz w =
     (if sz = 0 then os_remove (path @ tmp_ext) w else os_rename (path @ tmp_ext) (path @ trace_ext) w)"

definition seg_name :: "rconfig \<Rightarrow> int \<Rightarrow> string" where
  "seg_name c t = NodeID c @ ''-'' @ show_int t"

definition ensureSegment :: "recorder \<Rightarrow> world \<Rightarrow> bool \<times> recorder \<times> world" where
  "ensureSegment r w =
     (if seg_open r then (True, r, w)
      else case clock_now w of (t, w) \<Rightarrow>
        let r = r\<lparr>seg_path := seg_name (rcfg r) t\<rparr>
        in case os_create (seg_path r @ tmp_ext) w of (ok, w) \<Rightarrow>
          if \<not> ok then (False, r, w)
          else case clock_now w of (t, w) \<Rightarrow> (True, r\<lparr>seg_open := True, seg_size := 0, opened := t\<rparr>, w))"

definition close_state :: "recorder \<Rightarrow> recorder" where
  "close_state r = r\<lparr>seg_open := False, seg_path := [], seg_size := 0\<rparr>"

definition closeSegment :: "recorder \<Rightarrow> world \<Rightarrow> bool \<times> recorder \<times> world" where
  "closeSegment r w =
     (if \<not> seg_open r then (True, r, w)
      else case os_close w of (ok, w) \<Rightarrow>
        if \<not> ok then (False, close_state r, w)
        else case publish (seg_path r) (seg_size r) w of (ok, w) \<Rightarrow> (ok, close_state r, w))"

definition truncateSegment :: "recorder \<Rightarrow> world \<Rightarrow> bool \<times> recorder \<times> world" where
  "truncateSegment r w =
     (case os_close w of (_, w) \<Rightarrow>
        case os_truncate (seg_path r @ tmp_ext) (nat (seg_size r)) w of (ok, w) \<Rightarrow>
          case publish (seg_path r) (seg_size r) w of (ok', w) \<Rightarrow> (ok \<and> ok', close_state r, w))"

section \<open>Batches\<close>

definition writeBatch :: "(u64 \<Rightarrow> byte list) \<Rightarrow> (batch \<Rightarrow> byte list option) \<Rightarrow> nat \<Rightarrow> trec list \<Rightarrow>
    recorder \<Rightarrow> world \<Rightarrow> bool \<times> recorder \<times> world" where
  "writeBatch av ma shard recs r w =
     (let r = r\<lparr>r_sequence := r_sequence r + 1\<rparr>;
          b = \<lparr>node_id = NodeID (rcfg r) @ ''/'' @ itoa shard, b_sequence = r_sequence r, b_records = recs\<rparr>
      in case ma b of None \<Rightarrow> (False, r, w)
      | Some enc \<Rightarrow>
          (case ensureSegment r w of (ok, r, w) \<Rightarrow>
             if \<not> ok then (False, r, w)
             else case os_write (seg_path r @ tmp_ext) (frame av enc) w of (ok, w) \<Rightarrow>
               if \<not> ok then (case truncateSegment r w of (_, r, w) \<Rightarrow> (False, r, w))
               else
                 let r = r\<lparr>seg_size := wrap64 (seg_size r + int (length (frame av enc))),
                           written := written r + of_nat (length recs)\<rparr>
                 in if SegmentBytes (rcfg r) \<le> seg_size r
                    then (case closeSegment r w of (_, r, w) \<Rightarrow> (True, r, w))
                    else (True, r, w)))"

text \<open>The inner loop of \<open>drainAll\<close>; each turn but the last takes a whole batch out of the ring.\<close>

fun drain_ring :: "(u64 \<Rightarrow> byte list) \<Rightarrow> (batch \<Rightarrow> byte list option) \<Rightarrow> nat \<Rightarrow> nat \<Rightarrow>
    recorder \<Rightarrow> world \<Rightarrow> bool \<times> recorder \<times> world" where
  "drain_ring av ma i 0 r w = (True, r, w)"
| "drain_ring av ma i (Suc fuel) r w =
     (case ring_drain (rings r ! i) (nat (BatchSize (rcfg r))) of (ring, recs) \<Rightarrow>
        let r = r\<lparr>rings := (rings r)[i := ring]\<rparr>
        in if recs = [] then (True, r, w)
           else case writeBatch av ma i recs r w of (ok, r, w) \<Rightarrow>
             if \<not> ok then (False, r\<lparr>lost := lost r + of_nat (length recs)\<rparr>, w)
             else if length recs < nat (BatchSize (rcfg r)) then (True, r, w)
             else drain_ring av ma i fuel r w)"

definition queued :: "tring \<Rightarrow> nat" where
  "queued ring = unat (tail ring - head ring)"

fun drain_rings :: "(u64 \<Rightarrow> byte list) \<Rightarrow> (batch \<Rightarrow> byte list option) \<Rightarrow> nat list \<Rightarrow>
    recorder \<Rightarrow> world \<Rightarrow> bool \<times> recorder \<times> world" where
  "drain_rings av ma [] r w = (True, r, w)"
| "drain_rings av ma (i # is) r w =
     (case drain_ring av ma i (Suc (queued (rings r ! i))) r w of (ok, r, w) \<Rightarrow>
        if \<not> ok then (False, r, w) else drain_rings av ma is r w)"

definition drainAll :: "(u64 \<Rightarrow> byte list) \<Rightarrow> (batch \<Rightarrow> byte list option) \<Rightarrow>
    recorder \<Rightarrow> world \<Rightarrow> bool \<times> recorder \<times> world" where
  "drainAll av ma r w = drain_rings av ma [0..<length (rings r)] r w"

section \<open>The loop\<close>

text \<open>A shard's push into its ring, a tick of the flush interval, and the cancellation that ends the loop.\<close>

datatype rec_event = Produce nat trec | Tick | Cancel

definition tick :: "(u64 \<Rightarrow> byte list) \<Rightarrow> (batch \<Rightarrow> byte list option) \<Rightarrow> recorder \<Rightarrow> world \<Rightarrow> recorder \<times> world" where
  "tick av ma r w =
     (case drainAll av ma r w of (_, r, w) \<Rightarrow>
        if seg_open r
        then (case clock_now w of (t, w) \<Rightarrow>
                if SegmentMaxAge (rcfg r) \<le> t - opened r then snd (closeSegment r w) else (r, w))
        else (r, w))"

text \<open>A run returns the records the rings accepted beside the final state.\<close>

definition produce :: "nat \<Rightarrow> trec \<Rightarrow> recorder \<Rightarrow> recorder \<times> trec list" where
  "produce i x r =
     (if i < length (rings r)
      then (case ring_push (rings r ! i) x of (ring, ok) \<Rightarrow>
              (r\<lparr>rings := (rings r)[i := ring]\<rparr>, if ok then [x] else []))
      else (r, []))"

fun rec_run :: "(u64 \<Rightarrow> byte list) \<Rightarrow> (batch \<Rightarrow> byte list option) \<Rightarrow> rec_event list \<Rightarrow>
    recorder \<Rightarrow> world \<Rightarrow> recorder \<times> world \<times> trec list" where
  "rec_run av ma [] r w = (r, w, [])"
| "rec_run av ma (Produce i x # es) r w =
     (case produce i x r of (r, acc) \<Rightarrow>
        case rec_run av ma es r w of (r, w, acc') \<Rightarrow> (r, w, acc @ acc'))"
| "rec_run av ma (Tick # es) r w = (case tick av ma r w of (r, w) \<Rightarrow> rec_run av ma es r w)"
| "rec_run av ma (Cancel # es) r w =
     (case drainAll av ma r w of (_, r, w) \<Rightarrow> case closeSegment r w of (_, r, w) \<Rightarrow> (r, w, []))"

section \<open>What the operations leave alone\<close>

lemma ensureSegment_core:
  "ensureSegment r w = (ok, r', w') \<Longrightarrow>
   rings r' = rings r \<and> rcfg r' = rcfg r \<and> lost r' = lost r \<and> written r' = written r \<and> (ok \<longrightarrow> seg_open r') \<and>
   (seg_open r \<longrightarrow> ok \<and> r' = r \<and> w' = w) \<and> r_sequence r' = r_sequence r"
  by (auto simp: ensureSegment_def Let_def split: prod.splits if_splits)

lemma closeSegment_core:
  "closeSegment r w = (ok, r', w') \<Longrightarrow>
   rings r' = rings r \<and> rcfg r' = rcfg r \<and> lost r' = lost r \<and> written r' = written r \<and> \<not> seg_open r'"
  by (auto simp: closeSegment_def close_state_def split: prod.splits if_splits)

lemma truncateSegment_core:
  "truncateSegment r w = (ok, r', w') \<Longrightarrow>
   rings r' = rings r \<and> rcfg r' = rcfg r \<and> lost r' = lost r \<and> written r' = written r \<and> \<not> seg_open r'"
  by (auto simp: truncateSegment_def close_state_def split: prod.splits)

lemma writeBatch_core:
  assumes "writeBatch av ma i recs r w = (ok, r', w')"
  shows "rings r' = rings r" and "rcfg r' = rcfg r" and "lost r' = lost r"
    and "written r' = written r + (if ok then of_nat (length recs) else 0)"
  using assms
  by (auto simp: writeBatch_def Let_def split: prod.splits if_splits option.splits
      dest!: ensureSegment_core closeSegment_core truncateSegment_core)

section \<open>Every accepted record is accounted for\<close>

definition rings_ok :: "recorder \<Rightarrow> bool" where
  "rings_ok r \<longleftrightarrow> list_all ring_inv (rings r)"

definition account :: "recorder \<Rightarrow> u64" where
  "account r = written r + lost r + of_nat (sum_list (map queued (rings r)))"

lemma queued_items: "queued ring = length (ring_items ring)"
  by (simp add: queued_def)

lemma queued_drain:
  assumes "ring_inv ring" and "ring_drain ring n = (ring', recs)"
  shows "queued ring = length recs + queued ring'" and "ring_inv ring'" and "recs = take n (ring_items ring)"
    and "ring_items ring' = drop n (ring_items ring)"
  using ring_drain_eq[OF assms(1), of n] ring_drain_head[OF assms(1), of n] assms(2)
  by (simp_all add: queued_items del: length_ring_items)

lemma sum_list_update:
  fixes xs :: "nat list"
  shows "i < length xs \<Longrightarrow> sum_list (xs[i := y]) + xs ! i = sum_list xs + y"
  by (induction xs arbitrary: i) (auto split: nat.split)

lemma account_update:
  assumes "i < length (rings r)" and "queued (rings r ! i) = n + queued ring"
  shows "of_nat (sum_list (map queued (rings r))) = (of_nat n + of_nat (sum_list (map queued ((rings r)[i := ring]))) :: u64)"
proof -
  have "sum_list ((map queued (rings r))[i := queued ring]) + queued (rings r ! i) = sum_list (map queued (rings r)) + queued ring"
    using sum_list_update[of i "map queued (rings r)" "queued ring"] assms(1) by simp
  then have "sum_list (map queued (rings r)) = n + sum_list (map queued ((rings r)[i := ring]))"
    using assms(2) by (simp add: map_update)
  then show ?thesis by simp
qed

definition same_others :: "nat \<Rightarrow> recorder \<Rightarrow> recorder \<Rightarrow> bool" where
  "same_others i r r' \<longleftrightarrow> length (rings r') = length (rings r) \<and> (\<forall>j. j \<noteq> i \<longrightarrow> rings r' ! j = rings r ! j)"

lemma drain_ring_account:
  "rings_ok r \<Longrightarrow> i < length (rings r) \<Longrightarrow> drain_ring av ma i fuel r w = (ok, r', w') \<Longrightarrow>
   rings_ok r' \<and> rcfg r' = rcfg r \<and> account r' = account r \<and> same_others i r r'"
proof (induction fuel arbitrary: r w)
  case (Suc fuel)
  obtain ring recs where d: "ring_drain (rings r ! i) (nat (BatchSize (rcfg r))) = (ring, recs)" by fastforce
  define r1 where "r1 = r\<lparr>rings := (rings r)[i := ring]\<rparr>"
  have inv: "ring_inv (rings r ! i)" using Suc.prems(1,2) by (simp add: rings_ok_def list_all_length)
  note Q = queued_drain[OF inv d]
  have r1: "rings_ok r1" "rcfg r1 = rcfg r" "same_others i r r1" "i < length (rings r1)"
    using Suc.prems(1,2) Q(2) by (auto simp: r1_def rings_ok_def same_others_def list_all_length nth_list_update)
  have acc: "account r = account r1 + of_nat (length recs)"
    using account_update[OF Suc.prems(2) Q(1)] by (simp add: account_def r1_def)
  show ?case
  proof (cases "recs = []")
    case True
    then show ?thesis using Suc.prems(3) d r1 acc by (auto simp: r1_def[symmetric] Let_def)
  next
    case False
    obtain ok2 r2 w2 where wb: "writeBatch av ma i recs r1 w = (ok2, r2, w2)" by (metis prod_cases3)
    note W = writeBatch_core[OF wb]
    have r2: "rings_ok r2" "rcfg r2 = rcfg r" "same_others i r r2" "i < length (rings r2)"
      using r1 W(1,2) by (auto simp: rings_ok_def same_others_def)
    show ?thesis
    proof (cases ok2)
      case False
      then have "account (r2\<lparr>lost := lost r2 + of_nat (length recs)\<rparr>) = account r" using W acc by (simp add: account_def)
      moreover have "r' = r2\<lparr>lost := lost r2 + of_nat (length recs)\<rparr>"
        using Suc.prems(3) d \<open>recs \<noteq> []\<close> wb False by (simp add: r1_def Let_def)
      ultimately show ?thesis using r2 by (simp add: rings_ok_def same_others_def)
    next
      case True
      then have acc2: "account r2 = account r" using W acc by (simp add: account_def)
      show ?thesis
      proof (cases "length recs < nat (BatchSize (rcfg r2))")
        case short: True
        then have "r' = r2" using Suc.prems(3) d \<open>recs \<noteq> []\<close> wb True by (simp add: r1_def Let_def)
        then show ?thesis using r2 acc2 by simp
      next
        case long: False
        then have "drain_ring av ma i fuel r2 w2 = (ok, r', w')"
          using Suc.prems(3) d \<open>recs \<noteq> []\<close> wb True by (simp add: r1_def Let_def)
        from Suc.IH[OF r2(1,4) this] show ?thesis using r2 acc2 by (auto simp: same_others_def)
      qed
    qed
  qed
qed (auto simp: same_others_def)

lemma drain_rings_account:
  "rings_ok r \<Longrightarrow> list_all (\<lambda>i. i < length (rings r)) is \<Longrightarrow> drain_rings av ma is r w = (ok, r', w') \<Longrightarrow>
   rings_ok r' \<and> rcfg r' = rcfg r \<and> account r' = account r \<and> length (rings r') = length (rings r)"
proof (induction "is" arbitrary: r w)
  case (Cons i "is")
  obtain ok1 r1 w1 where d: "drain_ring av ma i (Suc (queued (rings r ! i))) r w = (ok1, r1, w1)" by (metis prod_cases3)
  have D: "rings_ok r1" "rcfg r1 = rcfg r" "account r1 = account r" "length (rings r1) = length (rings r)"
    using drain_ring_account[OF Cons.prems(1) _ d] Cons.prems(2) by (simp_all add: same_others_def)
  show ?case
  proof (cases ok1)
    case True
    then have "drain_rings av ma is r1 w1 = (ok, r', w')" using Cons.prems(3) d by (simp del: drain_ring.simps)
    with Cons.IH[OF D(1)] D Cons.prems(2) show ?thesis by simp
  next
    case False
    then show ?thesis using Cons.prems(3) d D by (simp del: drain_ring.simps)
  qed
qed simp

lemma drainAll_account:
  assumes "rings_ok r" and "drainAll av ma r w = (ok, r', w')"
  shows "rings_ok r'" and "rcfg r' = rcfg r" and "account r' = account r" and "length (rings r') = length (rings r)"
  using drain_rings_account[OF assms(1), of "[0..<length (rings r)]" av ma w ok r' w'] assms(2)
  by (simp_all add: drainAll_def list_all_length)

lemma close_account: "rings_ok r \<Longrightarrow> closeSegment r w = (ok, r', w') \<Longrightarrow>
    rings_ok r' \<and> account r' = account r \<and> length (rings r') = length (rings r) \<and> rcfg r' = rcfg r"
  by (auto dest!: closeSegment_core simp: account_def rings_ok_def)

lemma tick_account:
  assumes "rings_ok r" and "tick av ma r w = (r', w')"
  shows "rings_ok r' \<and> account r' = account r \<and> length (rings r') = length (rings r) \<and> rcfg r' = rcfg r"
proof -
  obtain ok1 r1 w1 where d: "drainAll av ma r w = (ok1, r1, w1)" by (metis prod_cases3)
  note D = drainAll_account[OF assms(1) d]
  have "r' = r1 \<or> (\<exists>ok2 w2 w3. closeSegment r1 w2 = (ok2, r', w3))"
    using assms(2) d by (auto simp: tick_def split: prod.splits if_splits) (metis prod.collapse)
  then show ?thesis using D close_account[OF D(1)] by metis
qed

lemma produce_account:
  assumes "rings_ok r" and "produce i x r = (r', acc)"
  shows "rings_ok r'" and "account r' = account r + of_nat (length acc)" and "length (rings r') = length (rings r)"
    and "rcfg r' = rcfg r"
proof -
  have all: "rings_ok r' \<and> account r' = account r + of_nat (length acc) \<and> length (rings r') = length (rings r) \<and> rcfg r' = rcfg r"
  proof (cases "i < length (rings r)")
    case True
    obtain ring ok where p: "ring_push (rings r ! i) x = (ring, ok)" by fastforce
    have inv: "ring_inv (rings r ! i)" using assms(1) True by (simp add: rings_ok_def list_all_length)
    have P: "ring_inv ring" "queued ring = (if ok then 1 else 0) + queued (rings r ! i)"
      using spsc.push_inv[OF inv, of x] spsc.push_items[OF inv, of x] p by (simp_all add: queued_items del: length_ring_items)
    have r': "r' = r\<lparr>rings := (rings r)[i := ring]\<rparr>" "acc = (if ok then [x] else [])"
      using assms(2) True p by (auto simp: produce_def)
    have "sum_list ((map queued (rings r))[i := queued ring]) + queued (rings r ! i) = sum_list (map queued (rings r)) + queued ring"
      using sum_list_update[of i "map queued (rings r)" "queued ring"] True by simp
    then have "sum_list (map queued (rings r')) = sum_list (map queued (rings r)) + length acc"
      using P(2) by (simp add: r' map_update)
    moreover have "rings_ok r'"
      using assms(1) P(1) set_update_subset_insert[of "rings r" i ring] by (auto simp: r' rings_ok_def list_all_iff)
    ultimately show ?thesis by (simp add: account_def) (simp add: r')
  next
    case False
    then show ?thesis using assms by (simp add: produce_def)
  qed
  then show "rings_ok r'" and "account r' = account r + of_nat (length acc)" and "length (rings r') = length (rings r)"
    and "rcfg r' = rcfg r" by simp_all
qed

lemma rec_run_account:
  "rings_ok r \<Longrightarrow> rec_run av ma es r w = (r', w', acc) \<Longrightarrow>
   rings_ok r' \<and> account r' = account r + of_nat (length acc)"
proof (induction es arbitrary: r w acc)
  case (Cons e es)
  show ?case
  proof (cases e)
    case (Produce i x)
    obtain r1 acc1 acc2 where p: "produce i x r = (r1, acc1)" "rec_run av ma es r1 w = (r', w', acc2)" "acc = acc1 @ acc2"
      using Cons.prems(2) by (auto simp: Produce split: prod.splits)
    show ?thesis using Cons.IH[OF _ p(2)] produce_account[OF Cons.prems(1) p(1)] p(3) by simp
  next
    case Tick
    obtain r1 w1 where t: "tick av ma r w = (r1, w1)" by fastforce
    then have "rec_run av ma es r1 w1 = (r', w', acc)" using Cons.prems(2) by (simp add: Tick)
    from Cons.IH[OF _ this] tick_account[OF Cons.prems(1) t] show ?thesis by simp
  next
    case Cancel
    obtain ok1 r1 w1 where d: "drainAll av ma r w = (ok1, r1, w1)" by (metis prod_cases3)
    obtain ok2 where c: "closeSegment r1 w1 = (ok2, r', w')" "acc = []"
      using Cons.prems(2) d by (auto simp: Cancel split: prod.splits)
    show ?thesis using drainAll_account[OF Cons.prems(1) d] close_account[OF _ c(1)] c(2) by simp
  qed
qed simp

lemma new_recorder_ok:
  assumes "NewRecorder probe cfg w = (Inr r, w')" and "RingCapacity cfg \<le> 2 ^ 62"
  shows "rings_ok r" and "account r = 0" and "\<not> seg_open r" and "rcfg r = with_defaults cfg"
    and "length (rings r) = nat (cfg_Shards cfg)" and "list_all (\<lambda>ring. ring_items ring = []) (rings r)"
proof -
  obtain ring where ring: "NewRing (RingCapacity (with_defaults cfg)) (SampleDenominator (with_defaults cfg)) = Some ring"
    and r: "r = \<lparr>rings = replicate (nat (cfg_Shards cfg)) ring, seg_open = False, seg_path = [], opened = 0,
      rcfg = with_defaults cfg, written = 0, lost = 0, seg_size = 0, r_sequence = 0\<rparr>"
    using assms(1) by (auto simp: NewRecorder_def Let_def with_defaults_def split: prod.splits if_splits option.splits)
  have "RingCapacity (with_defaults cfg) \<le> 2 ^ 62" using assms(2) by (simp add: with_defaults_def Let_def)
  note N = NewRing_inv[OF ring this]
  have "queued ring = 0" using N(2) by (metis queued_items list.size(3))
  then show "rings_ok r" and "account r = 0" and "\<not> seg_open r" and "rcfg r = with_defaults cfg"
    and "length (rings r) = nat (cfg_Shards cfg)" and "list_all (\<lambda>ring. ring_items ring = []) (rings r)"
    using N by (simp_all add: r rings_ok_def account_def list_all_iff sum_list_replicate)
qed

section \<open>Published segments are readable, whatever fails\<close>

definition good_segment :: "(u64 \<Rightarrow> byte list) \<Rightarrow> (batch \<Rightarrow> byte list option) \<Rightarrow> byte list \<Rightarrow> bool" where
  "good_segment av ma c \<longleftrightarrow> (\<exists>bs m. encodable ma bs \<and> c = take m (frames av ma bs))"

definition traces_good :: "(u64 \<Rightarrow> byte list) \<Rightarrow> (batch \<Rightarrow> byte list option) \<Rightarrow> world \<Rightarrow> bool" where
  "traces_good av ma w \<longleftrightarrow> (\<forall>p c. map_of (files w) p = Some c \<longrightarrow> has_suffix trace_ext p \<longrightarrow> good_segment av ma c)"

text \<open>The open segment holds whole frames, as many bytes as the recorder has counted.\<close>

definition whole_open :: "(u64 \<Rightarrow> byte list) \<Rightarrow> (batch \<Rightarrow> byte list option) \<Rightarrow> recorder \<Rightarrow> world \<Rightarrow> batch list \<Rightarrow> bool" where
  "whole_open av ma r w bs \<longleftrightarrow> encodable ma bs \<and> map_of (files w) (seg_path r @ tmp_ext) = Some (frames av ma bs) \<and>
     seg_size r = int (length (frames av ma bs)) \<and> seg_size r < SegmentBytes (rcfg r)"

definition file_inv :: "(u64 \<Rightarrow> byte list) \<Rightarrow> (batch \<Rightarrow> byte list option) \<Rightarrow> recorder \<Rightarrow> world \<Rightarrow> bool" where
  "file_inv av ma r w \<longleftrightarrow> traces_good av ma w \<and> (seg_open r \<longrightarrow> (\<exists>bs. whole_open av ma r w bs))"

definition rcfg_ok :: "rconfig \<Rightarrow> bool" where
  "rcfg_ok c \<longleftrightarrow> 0 < SegmentBytes c \<and> SegmentBytes c \<le> 2 ^ 62 \<and> 0 < BatchSize c"

lemma ext_facts [simp]: "\<not> has_suffix trace_ext (p @ tmp_ext)" "has_suffix trace_ext (p @ trace_ext)"
    "p @ tmp_ext \<noteq> q @ trace_ext" "tmp_ext \<noteq> trace_ext"
proof -
  show no: "\<not> has_suffix trace_ext (p @ tmp_ext)" for p
    by (simp add: has_suffix_rev trace_ext_def tmp_ext_def)
  show yes: "has_suffix trace_ext (p @ trace_ext)" for p by (auto simp: has_suffix_append)
  show "p @ tmp_ext \<noteq> q @ trace_ext" using no[of p] yes[of q] by metis
  show "tmp_ext \<noteq> trace_ext" by (simp add: trace_ext_def tmp_ext_def)
qed

lemmas ext_facts' [simp] = ext_facts(3,4)[symmetric]

lemma good_frames: "encodable ma bs \<Longrightarrow> good_segment av ma (frames av ma bs)"
  unfolding good_segment_def by (metis take_all_iff order_refl)

lemma good_torn:
  assumes "encodable ma bs" and "ma b = Some enc"
  shows "good_segment av ma (frames av ma bs @ take n (frame av enc))"
  unfolding good_segment_def
  by (rule exI[of _ "bs @ [b]"], rule exI[of _ "length (frames av ma bs) + n"]) (use assms in simp)

lemma publish_good:
  assumes "traces_good av ma w" and "\<And>c. map_of (files w) (path @ tmp_ext) = Some c \<Longrightarrow> good_segment av ma c"
    and "publish path n w = (ok, w')"
  shows "traces_good av ma w'"
  using assms
  by (auto simp: traces_good_def publish_def os_remove_def os_rename_def content_def split: if_splits prod.splits option.splits)

lemma ensureSegment_good:
  assumes "file_inv av ma r w" and "0 < SegmentBytes (rcfg r)" and "ensureSegment r w = (ok, r', w')"
  shows "file_inv av ma r' w'"
  using assms
  by (auto simp: file_inv_def traces_good_def whole_open_def ensureSegment_def Let_def os_create_def clock_now_def
      split: prod.splits if_splits intro!: exI[of _ "[] :: batch list"])

lemma closeSegment_good:
  assumes "traces_good av ma w"
    and "\<And>c. seg_open r \<Longrightarrow> map_of (files w) (seg_path r @ tmp_ext) = Some c \<Longrightarrow> good_segment av ma c"
    and "closeSegment r w = (ok, r', w')"
  shows "file_inv av ma r' w'"
proof (cases "seg_open r")
  case True
  obtain f w1 where f: "next_fault w = (f, w1)" by fastforce
  then have w1: "files w1 = files w" by simp
  have g: "traces_good av ma w1" using assms(1) w1 by (simp add: traces_good_def)
  show ?thesis
  proof (cases "f = Fine")
    case True
    obtain ok2 w2 where p: "publish (seg_path r) (seg_size r) w1 = (ok2, w2)" by fastforce
    have "traces_good av ma w2"
      by (rule publish_good[OF g _ p]) (rule assms(2), use \<open>seg_open r\<close> w1 in simp_all)
    then show ?thesis using assms(3) \<open>seg_open r\<close> f p True
      by (auto simp: closeSegment_def os_close_def close_state_def file_inv_def split: if_splits)
  next
    case False
    then show ?thesis using assms(3) \<open>seg_open r\<close> f g
      by (auto simp: closeSegment_def os_close_def close_state_def file_inv_def)
  qed
next
  case False
  then show ?thesis using assms by (simp add: closeSegment_def file_inv_def)
qed

lemma closeSegment_inv: "file_inv av ma r w \<Longrightarrow> closeSegment r w = (ok, r', w') \<Longrightarrow> file_inv av ma r' w'"
  by (rule closeSegment_good) (auto simp: file_inv_def whole_open_def good_frames)

lemma truncateSegment_good:
  assumes "traces_good av ma w" and "map_of (files w) (seg_path r @ tmp_ext) = Some (frames av ma bs @ take n (frame av enc))"
    and "encodable ma bs" and "ma b = Some enc" and "seg_size r = int (length (frames av ma bs))"
    and "truncateSegment r w = (ok, r', w')"
  shows "file_inv av ma r' w'"
proof -
  obtain f1 w1 where f1: "next_fault w = (f1, w1)" by fastforce
  obtain ok2 w2 where tr: "os_truncate (seg_path r @ tmp_ext) (nat (seg_size r)) w1 = (ok2, w2)" by fastforce
  obtain ok3 w3 where pb: "publish (seg_path r) (seg_size r) w2 = (ok3, w3)" by fastforce
  have w1: "files w1 = files w" using f1 by simp
  have "files w2 = files w \<or> files w2 = AList.update (seg_path r @ tmp_ext) (frames av ma bs) (files w)"
    using tr assms(2,5) w1 by (auto simp: os_truncate_def content_def split: prod.splits if_splits)
  then have "traces_good av ma w2" and "good_segment av ma c" if "map_of (files w2) (seg_path r @ tmp_ext) = Some c" for c
    using assms(1,2) good_torn[OF assms(3,4)] good_frames[OF assms(3)] that
    by (auto simp: traces_good_def split: if_splits)
  moreover from \<open>files w2 = _ \<or> _\<close> have "traces_good av ma w2"
    using assms(1) by (auto simp: traces_good_def split: if_splits)
  ultimately have "traces_good av ma w3" using publish_good[OF _ _ pb] by blast
  then show ?thesis using assms(6) f1 tr pb
    by (auto simp: truncateSegment_def os_close_def close_state_def file_inv_def)
qed

lemma writeBatch_good:
  assumes codec: "codec_ok av cv ma um" and inv: "file_inv av ma r w" and cfg: "rcfg_ok (rcfg r)"
    and wb: "writeBatch av ma i recs r w = (ok, r', w')"
  shows "file_inv av ma r' w'"
proof -
  define r0 where "r0 = r\<lparr>r_sequence := r_sequence r + 1\<rparr>"
  define b where "b = \<lparr>node_id = NodeID (rcfg r) @ ''/'' @ itoa i, b_sequence = r_sequence r + 1, b_records = recs\<rparr>"
  have inv0: "file_inv av ma r0 w" "rcfg r0 = rcfg r" using inv by (simp_all add: r0_def file_inv_def whole_open_def)
  show ?thesis
  proof (cases "ma b")
    case None
    then show ?thesis using wb inv0 by (simp add: writeBatch_def Let_def r0_def b_def)
  next
    case (Some enc)
    obtain ok1 r1 w1 where en: "ensureSegment r0 w = (ok1, r1, w1)" by (metis prod_cases3)
    have inv1: "file_inv av ma r1 w1" by (rule ensureSegment_good[OF inv0(1) _ en]) (use cfg inv0 in \<open>simp add: rcfg_ok_def\<close>)
    note E = ensureSegment_core[OF en]
    show ?thesis
    proof (cases ok1)
      case False
      then show ?thesis using wb Some en inv1 by (simp add: writeBatch_def Let_def r0_def b_def)
    next
      case True
      then obtain bs where bs: "whole_open av ma r1 w1 bs" using inv1 E by (auto simp: file_inv_def)
      have tg: "traces_good av ma w1" using inv1 by (simp add: file_inv_def)
      obtain f w1' where f: "next_fault w1 = (f, w1')" by fastforce
      define data where "data = (case f of Fine \<Rightarrow> frame av enc | Fail n \<Rightarrow> take n (frame av enc))"
      define w2 where "w2 = w1'\<lparr>files := AList.update (seg_path r1 @ tmp_ext) (frames av ma bs @ data) (files w1)\<rparr>"
      have wr: "os_write (seg_path r1 @ tmp_ext) (frame av enc) w1 = (f = Fine, w2)"
        using f bs by (simp add: os_write_def w2_def data_def content_def whole_open_def)
      have t2: "traces_good av ma w2" using tg by (auto simp: w2_def traces_good_def split: if_splits)
      have c2: "map_of (files w2) (seg_path r1 @ tmp_ext) = Some (frames av ma bs @ data)" by (simp add: w2_def)
      show ?thesis
      proof (cases "f = Fine")
        case False
        then obtain n where n: "data = take n (frame av enc)" by (cases f) (auto simp: data_def)
        obtain ok3 r3 w3 where tr: "truncateSegment r1 w2 = (ok3, r3, w3)" by (metis prod_cases3)
        have "file_inv av ma r3 w3"
          by (rule truncateSegment_good[OF t2 c2[unfolded n] _ Some _ tr]) (use bs in \<open>simp_all add: whole_open_def\<close>)
        then show ?thesis using wb Some en True wr False tr by (simp add: writeBatch_def Let_def r0_def b_def)
      next
        case fine: True
        define r2 where "r2 = r1\<lparr>seg_size := wrap64 (seg_size r1 + int (length (frame av enc))),
          written := written r1 + of_nat (length recs)\<rparr>"
        have "length (frame av enc) \<le> 2 ^ 31 + 10"
          using codec_enc(3)[OF codec Some] codec_varint(4)[OF codec, of "of_nat (length enc)"] by (simp add: frame_def)
        then have "int (length (frame av enc)) \<le> int (2 ^ 31 + 10)" by (simp only: of_nat_le_iff)
        moreover have "0 \<le> seg_size r1" "seg_size r1 < 2 ^ 62"
          using bs cfg E inv0 by (auto simp: whole_open_def rcfg_ok_def)
        ultimately have "wrap64 (seg_size r1 + int (length (frame av enc))) = seg_size r1 + int (length (frame av enc))"
          by (intro wrap64_id) simp
        then have sz: "seg_size r2 = int (length (frames av ma (bs @ [b])))"
          using bs Some by (simp add: r2_def whole_open_def)
        have c2': "map_of (files w2) (seg_path r2 @ tmp_ext) = Some (frames av ma (bs @ [b]))"
          using c2 fine Some by (simp add: r2_def data_def)
        have en2: "encodable ma (bs @ [b])" using bs Some by (simp add: whole_open_def)
        show ?thesis
        proof (cases "SegmentBytes (rcfg r2) \<le> seg_size r2")
          case True
          obtain ok3 r3 w3 where cl: "closeSegment r2 w2 = (ok3, r3, w3)" by (metis prod_cases3)
          have "file_inv av ma r3 w3" by (rule closeSegment_good[OF t2 _ cl]) (metis c2' good_frames[OF en2] option.inject)
          then show ?thesis using wb Some en \<open>ok1\<close> wr fine cl True by (simp add: writeBatch_def Let_def r0_def b_def r2_def)
        next
          case False
          then have "file_inv av ma r2 w2" using t2 c2' sz en2 unfolding file_inv_def whole_open_def by (metis not_le)
          then show ?thesis using wb Some en \<open>ok1\<close> wr fine False by (simp add: writeBatch_def Let_def r0_def b_def r2_def)
        qed
      qed
    qed
  qed
qed

lemma drain_ring_good:
  "codec_ok av cv ma um \<Longrightarrow> file_inv av ma r w \<Longrightarrow> rcfg_ok (rcfg r) \<Longrightarrow> drain_ring av ma i fuel r w = (ok, r', w') \<Longrightarrow>
   file_inv av ma r' w' \<and> rcfg r' = rcfg r"
proof (induction fuel arbitrary: r w)
  case (Suc fuel)
  obtain ring recs where d: "ring_drain (rings r ! i) (nat (BatchSize (rcfg r))) = (ring, recs)" by fastforce
  define r1 where "r1 = r\<lparr>rings := (rings r)[i := ring]\<rparr>"
  obtain ok2 r2 w2 where wb: "writeBatch av ma i recs r1 w = (ok2, r2, w2)" by (metis prod_cases3)
  have r1: "file_inv av ma r1 w" "rcfg r1 = rcfg r" using Suc.prems(2) by (simp_all add: r1_def file_inv_def whole_open_def)
  have W: "file_inv av ma r2 w2" by (rule writeBatch_good[OF Suc.prems(1) r1(1) _ wb]) (use r1 Suc.prems in simp)
  have c2: "rcfg r2 = rcfg r" using writeBatch_core(2)[OF wb] r1 by simp
  have "file_inv av ma (r2\<lparr>lost := x\<rparr>) w2" for x using W by (simp add: file_inv_def whole_open_def)
  then show ?case
    using Suc.prems(4) d wb W c2 r1 Suc.IH[OF Suc.prems(1) W] Suc.prems(3)
    by (auto simp: Let_def r1_def[symmetric] split: if_splits)
qed simp

lemma drain_rings_good:
  "codec_ok av cv ma um \<Longrightarrow> file_inv av ma r w \<Longrightarrow> rcfg_ok (rcfg r) \<Longrightarrow> drain_rings av ma is r w = (ok, r', w') \<Longrightarrow>
   file_inv av ma r' w' \<and> rcfg r' = rcfg r"
proof (induction "is" arbitrary: r w)
  case (Cons i "is")
  obtain ok1 r1 w1 where d: "drain_ring av ma i (Suc (queued (rings r ! i))) r w = (ok1, r1, w1)" by (metis prod_cases3)
  note D = drain_ring_good[OF Cons.prems(1-3) d]
  show ?case using Cons.IH[OF Cons.prems(1), of r1 w1] D Cons.prems(3,4) d
    by (cases ok1) (simp_all del: drain_ring.simps)
qed simp

lemma rec_run_good:
  "codec_ok av cv ma um \<Longrightarrow> file_inv av ma r w \<Longrightarrow> rcfg_ok (rcfg r) \<Longrightarrow> rec_run av ma es r w = (r', w', acc) \<Longrightarrow>
   file_inv av ma r' w'"
proof (induction es arbitrary: r w acc)
  case (Cons e es)
  have drain: "file_inv av ma r1 w1 \<and> rcfg r1 = rcfg r" if "drainAll av ma r w = (ok, r1, w1)" for ok r1 w1
    using drain_rings_good[OF Cons.prems(1-3)] that by (simp add: drainAll_def)
  show ?case
  proof (cases e)
    case (Produce i x)
    obtain r1 acc1 acc2 where p: "produce i x r = (r1, acc1)" "rec_run av ma es r1 w = (r', w', acc2)"
      using Cons.prems(4) by (auto simp: Produce split: prod.splits)
    have "file_inv av ma r1 w" "rcfg r1 = rcfg r"
      using Cons.prems(2) p(1) by (auto simp: produce_def file_inv_def whole_open_def split: if_splits prod.splits)
    then show ?thesis using Cons.IH[OF Cons.prems(1) _ _ p(2)] Cons.prems(3) by simp
  next
    case Tick
    obtain ok1 r1 w1 where d: "drainAll av ma r w = (ok1, r1, w1)" by (metis prod_cases3)
    note D = drain[OF d]
    obtain r2 w2 where t: "tick av ma r w = (r2, w2)" by fastforce
    have same: "file_inv av ma r1 (w1\<lparr>readings := n\<rparr>)" for n using D by (auto simp: file_inv_def traces_good_def whole_open_def)
    have "file_inv av ma r2 w2 \<and> rcfg r2 = rcfg r1"
    proof (cases "seg_open r1 \<and> SegmentMaxAge (rcfg r1) \<le> clock w1 (readings w1) - opened r1")
      case True
      obtain ok3 where cl: "closeSegment r1 (w1\<lparr>readings := Suc (readings w1)\<rparr>) = (ok3, r2, w2)"
        using t d True by (auto simp: tick_def clock_now_def) (metis prod.collapse snd_conv)
      show ?thesis using closeSegment_inv[OF same cl] closeSegment_core[OF cl] by simp
    next
      case False
      then show ?thesis using t d D same by (auto simp: tick_def clock_now_def split: if_splits)
    qed
    then show ?thesis using Cons.IH[OF Cons.prems(1), of r2 w2] D Cons.prems(3,4) t by (simp add: Tick)
  next
    case Cancel
    obtain ok1 r1 w1 where d: "drainAll av ma r w = (ok1, r1, w1)" by (metis prod_cases3)
    obtain ok2 where c: "closeSegment r1 w1 = (ok2, r', w')"
      using Cons.prems(4) d by (auto simp: Cancel split: prod.splits)
    show ?thesis using closeSegment_inv[OF _ c] drain[OF d] by simp
  qed
qed simp

text \<open>A good segment reads without complaint, but for a torn tail; so does a directory of them.\<close>

lemma good_read:
  assumes "codec_ok av cv ma um" and "good_segment av ma c"
  shows "\<exists>bs e. read_loop cv um c = Some (bs, e) \<and> e \<in> {None, Some UnexpectedEOF}"
proof -
  obtain bs m where "encodable ma bs" "c = take m (frames av ma bs)" using assms(2) by (auto simp: good_segment_def)
  then show ?thesis using read_prefix[OF assms(1), of bs m] by blast
qed

lemma read_all_good:
  assumes "codec_ok av cv ma um"
    and "\<And>p. p \<in> set ps \<Longrightarrow> \<exists>c. map_of dir p = Some c \<and> good_segment av ma c"
  shows "\<exists>bs. read_all cv um dir ps = Some (bs, None)"
  using assms(2)
proof (induction ps)
  case (Cons p ps)
  obtain c where c: "map_of dir p = Some c" "good_segment av ma c" using Cons.prems[of p] by auto
  obtain bs e where "ReadFile cv um dir p = Some (bs, e)" "e \<in> {None, Some UnexpectedEOF}"
    using good_read[OF assms(1) c(2)] c(1) by (auto simp: ReadFile_def)
  then show ?case using Cons.IH Cons.prems by auto
qed simp

lemma ReadDir_good:
  assumes "codec_ok av cv ma um" and "traces_good av ma w"
  shows "\<exists>bs e. ReadDir cv um (files w) = Some (bs, e) \<and> (e = None \<or> Segments (files w) = [] \<and> bs = [])"
proof (cases "Segments (files w) = []")
  case False
  have "\<exists>c. map_of (files w) p = Some c \<and> good_segment av ma c" if "p \<in> set (Segments (files w))" for p
  proof -
    have p: "p \<in> fst ` set (files w)" "has_suffix trace_ext p" using that by (auto simp: Segments_def)
    then obtain c where c: "map_of (files w) p = Some c" using map_of_eq_None_iff[of "files w" p] by auto
    then show ?thesis using assms(2) p(2) by (auto simp: traces_good_def)
  qed
  then show ?thesis using read_all_good[OF assms(1), of "Segments (files w)" "files w"] False
    by (simp add: ReadDir_def Let_def)
qed (simp add: ReadDir_def)

end
