(* ===== verification/Trace_Clean.thy ===== *)
theory Trace_Clean
  imports Trace_Recorder
begin

text \<open>
  A recorder in a world where nothing fails: every record a ring accepted is in a published segment when
  the loop has ended, once. Names of segments come from the clock, so the clock must not repeat.
\<close>

section \<open>The invariant\<close>

definition names_free :: "rconfig \<Rightarrow> world \<Rightarrow> bool" where
  "names_free c w \<longleftrightarrow> (\<forall>k \<ge> readings w.
     map_of (files w) (seg_name c (clock w k) @ tmp_ext) = None \<and> map_of (files w) (seg_name c (clock w k) @ trace_ext) = None)"

definition whole :: "(u64 \<Rightarrow> byte list) \<Rightarrow> (batch \<Rightarrow> byte list option) \<Rightarrow> byte list \<Rightarrow> bool" where
  "whole av ma c \<longleftrightarrow> (\<exists>bs. encodable ma bs \<and> c = frames av ma bs)"

definition clean :: "(u64 \<Rightarrow> byte list) \<Rightarrow> (batch \<Rightarrow> byte list option) \<Rightarrow> recorder \<Rightarrow> world \<Rightarrow> bool" where
  "clean av ma r w \<longleftrightarrow> faults w = [] \<and> inj (clock w) \<and> distinct (map fst (files w)) \<and> names_free (rcfg r) w \<and>
     (\<forall>p c. map_of (files w) p = Some c \<longrightarrow> whole av ma c \<and> (has_suffix trace_ext p \<or> seg_open r \<and> p = seg_path r @ tmp_ext)) \<and>
     (seg_open r \<longrightarrow> (\<exists>bs. whole_open av ma r w bs) \<and> map_of (files w) (seg_path r @ trace_ext) = None \<and>
        (\<exists>k < readings w. seg_path r = seg_name (rcfg r) (clock w k))) \<and>
     rcfg_ok (rcfg r)"

lemma clean_frame [simp]:
  "clean av ma (r\<lparr>rings := rs\<rparr>) w = clean av ma r w" "clean av ma (r\<lparr>r_sequence := n\<rparr>) w = clean av ma r w"
  by (simp_all add: clean_def whole_open_def)

lemma seg_name_inj: "seg_name c s = seg_name c t \<Longrightarrow> s = t"
proof -
  have dash: "CHR ''-'' # xs \<noteq> itoa n" for xs n using itoa_hd[of n] by (cases "itoa n") auto
  assume "seg_name c s = seg_name c t"
  then have "show_int s = show_int t" by (simp add: seg_name_def)
  then show "s = t" using dash by (auto simp: show_int_def dest!: itoa_inj split: if_splits) (metis dash)+
qed

section \<open>How often a record is stored\<close>

definition rec_count :: "(byte list \<Rightarrow> varint_error + u64 \<times> nat) \<Rightarrow> (byte list \<Rightarrow> batch option) \<Rightarrow> trec \<Rightarrow> byte list \<Rightarrow> int" where
  "rec_count cv um x c = int (count (mset (concat (map b_records (fst (the (read_loop cv um c)))))) x)"

definition stored :: "(byte list \<Rightarrow> varint_error + u64 \<times> nat) \<Rightarrow> (byte list \<Rightarrow> batch option) \<Rightarrow> trec \<Rightarrow> world \<Rightarrow> int" where
  "stored cv um x w = vsum (rec_count cv um x) (files w)"

lemma rec_count_frames:
  assumes "codec_ok av cv ma um" and "encodable ma bs"
  shows "rec_count cv um x (frames av ma bs) = int (count (mset (concat (map b_records bs))) x)"
  using read_frames[OF assms, of "[]"] by (simp add: rec_count_def)

lemma rec_count_Nil [simp]: "rec_count cv um x [] = 0"
  by (simp add: rec_count_def)

section \<open>Opening, closing, writing\<close>

lemma ensure_clean:
  assumes c: "clean av ma r w"
  shows "\<exists>r' w'. ensureSegment r w = (True, r', w') \<and> clean av ma r' w' \<and> seg_open r' \<and> rcfg r' = rcfg r \<and>
    r_sequence r' = r_sequence r \<and> (\<forall>x. stored cv um x w' = stored cv um x w)"
proof (cases "seg_open r")
  case True
  then show ?thesis using c by (simp add: ensureSegment_def)
next
  case False
  let ?p = "seg_name (rcfg r) (clock w (readings w))"
  define w1 where "w1 = w\<lparr>files := files w @ [(?p @ tmp_ext, [])], readings := Suc (Suc (readings w))\<rparr>"
  define r1 where "r1 = r\<lparr>seg_path := ?p, seg_open := True, seg_size := 0, opened := clock w (Suc (readings w))\<rparr>"
  have free: "map_of (files w) (?p @ tmp_ext) = None" "map_of (files w) (?p @ trace_ext) = None"
    using c by (auto simp: clean_def names_free_def)
  have en: "ensureSegment r w = (True, r1, w1)"
    using c False free by (simp add: ensureSegment_def clock_now_def os_create_def clean_def Let_def update_new w1_def r1_def)
  have m1: "map_of (files w1) = (map_of (files w))(?p @ tmp_ext \<mapsto> [])"
    using free by (simp add: w1_def map_add_def fun_eq_iff split: option.split) 
  have "clock w k \<noteq> clock w (readings w)" if "Suc (Suc (readings w)) \<le> k" for k
  proof
    assume "clock w k = clock w (readings w)"
    then have "k = readings w" using c unfolding clean_def inj_def by blast
    with that show False by simp
  qed
  then have "seg_name (rcfg r) (clock w k) @ tmp_ext \<noteq> ?p @ tmp_ext" if "Suc (Suc (readings w)) \<le> k" for k
    using that seg_name_inj by fastforce
  then have nf: "names_free (rcfg r1) w1"
    using c unfolding names_free_def m1 by (auto simp: clean_def names_free_def w1_def r1_def)
  have "distinct (map fst (files w1))" using c free by (auto simp: clean_def w1_def map_of_eq_None_iff)
  moreover have "whole_open av ma r1 w1 []"
    using c by (simp add: whole_open_def m1 r1_def clean_def rcfg_ok_def)
  moreover have "whole av ma []" unfolding whole_def by (rule exI[of _ "[]"]) simp
  moreover have "map_of (files w1) (?p @ trace_ext) = None" using free by (simp add: m1)
  moreover have "\<exists>k < readings w1. seg_path r1 = seg_name (rcfg r1) (clock w1 k)"
    by (rule exI[of _ "readings w"]) (simp add: w1_def r1_def)
  ultimately have "clean av ma r1 w1"
    using c False nf unfolding clean_def m1 by (auto simp: w1_def r1_def)
  moreover have "stored cv um x w1 = stored cv um x w" for x by (simp add: stored_def w1_def)
  ultimately show ?thesis using en by (intro exI[of _ r1] exI[of _ w1]) (simp add: r1_def)
qed

lemma close_clean:
  assumes codec: "codec_ok av cv ma um" and f: "faults w = []" "inj (clock w)" "distinct (map fst (files w))" "names_free (rcfg r) w"
    and all: "\<And>p c. map_of (files w) p = Some c \<Longrightarrow> whole av ma c \<and> (has_suffix trace_ext p \<or> seg_open r \<and> p = seg_path r @ tmp_ext)"
    and op: "seg_open r \<Longrightarrow> \<exists>bs. encodable ma bs \<and> map_of (files w) (seg_path r @ tmp_ext) = Some (frames av ma bs) \<and>
        seg_size r = int (length (frames av ma bs))"
    and nm: "seg_open r \<Longrightarrow> map_of (files w) (seg_path r @ trace_ext) = None \<and>
        (\<exists>k < readings w. seg_path r = seg_name (rcfg r) (clock w k))"
    and cfg: "rcfg_ok (rcfg r)"
  shows "\<exists>r' w'. closeSegment r w = (True, r', w') \<and> clean av ma r' w' \<and> \<not> seg_open r' \<and> rcfg r' = rcfg r \<and>
    (\<forall>x. stored cv um x w' = stored cv um x w)"
proof (cases "seg_open r")
  case False
  then show ?thesis using f all cfg by (simp add: closeSegment_def clean_def)
next
  case True
  obtain bs where bs: "encodable ma bs" "map_of (files w) (seg_path r @ tmp_ext) = Some (frames av ma bs)"
    "seg_size r = int (length (frames av ma bs))" using op[OF True] by blast
  let ?t = "seg_path r @ tmp_ext" and ?d = "seg_path r @ trace_ext"
  define fs where "fs = (if seg_size r = 0 then AList.delete ?t (files w)
    else AList.update ?d (frames av ma bs) (AList.delete ?t (files w)))"
  have cl: "closeSegment r w = (True, close_state r, w\<lparr>files := fs\<rparr>)"
    using True f(1) bs by (simp add: closeSegment_def os_close_def publish_def os_remove_def os_rename_def content_def fs_def)
  have dn: "map_of (AList.delete ?t (files w)) ?d = None" using nm[OF True] by simp
  have st: "vsum (rec_count cv um x) fs = vsum (rec_count cv um x) (files w)" for x
  proof -
    have z: "rec_count cv um x (frames av ma bs) = 0" if "seg_size r = 0" using that bs(3) by simp
    show ?thesis unfolding fs_def using vsum_delete[OF f(3) bs(2), of "rec_count cv um x"] z update_new[OF dn] by simp
  qed
  have m: "map_of fs p = (if p = ?t then None else if p = ?d \<and> seg_size r \<noteq> 0 then Some (frames av ma bs) else map_of (files w) p)" for p
    by (auto simp: fs_def)
  have "seg_name (rcfg r) (clock w k) \<noteq> seg_path r" if "readings w \<le> k" for k
  proof -
    obtain j where j: "j < readings w" "seg_path r = seg_name (rcfg r) (clock w j)" using nm[OF True] by blast
    then have "clock w k \<noteq> clock w j" using injD[OF f(2), of k j] that by linarith
    then show ?thesis using j(2) seg_name_inj by metis
  qed
  then have nf: "names_free (rcfg r) (w\<lparr>files := fs\<rparr>)" using f(4) by (simp add: names_free_def m)
  have "distinct (map fst fs)" using f(3) by (simp add: fs_def)
  moreover have "whole av ma c \<and> has_suffix trace_ext p" if "map_of fs p = Some c" for p c
    using that all[of p c] bs(1) by (auto simp: m whole_def split: if_splits)
  ultimately have "clean av ma (close_state r) (w\<lparr>files := fs\<rparr>)"
    using f nf cfg by (simp add: clean_def close_state_def)
  then show ?thesis using cl st by (intro exI[of _ "close_state r"] exI[of _ "w\<lparr>files := fs\<rparr>"]) (simp add: stored_def close_state_def)
qed

lemma write_clean:
  assumes codec: "codec_ok av cv ma um" and c: "clean av ma r w"
    and enc: "ma \<lparr>node_id = NodeID (rcfg r) @ ''/'' @ itoa i, b_sequence = r_sequence r + 1, b_records = recs\<rparr> = Some enc"
  shows "\<exists>r' w'. writeBatch av ma i recs r w = (True, r', w') \<and> clean av ma r' w' \<and>
    (\<forall>x. stored cv um x w' = stored cv um x w + int (count (mset recs) x))"
proof -
  define r0 where "r0 = r\<lparr>r_sequence := r_sequence r + 1\<rparr>"
  define b where "b = \<lparr>node_id = NodeID (rcfg r) @ ''/'' @ itoa i, b_sequence = r_sequence r + 1, b_records = recs\<rparr>"
  have b: "ma b = Some enc" "b_records b = recs" using enc by (simp_all add: b_def)
  have c0: "clean av ma r0 w" "rcfg r0 = rcfg r" using c by (auto simp: clean_def r0_def whole_open_def)
  obtain r1 w1 where en: "ensureSegment r0 w = (True, r1, w1)" and c1: "clean av ma r1 w1" and op: "seg_open r1"
    and k1: "rcfg r1 = rcfg r" and st1: "\<And>x. stored cv um x w1 = stored cv um x w"
    using ensure_clean[OF c0(1)] c0(2) by metis
  obtain bs where bs: "whole_open av ma r1 w1 bs" using c1 op by (auto simp: clean_def)
  let ?p = "seg_path r1 @ tmp_ext" and ?new = "frames av ma (bs @ [b])"
  have old: "map_of (files w1) ?p = Some (frames av ma bs)" and ebs: "encodable ma bs" "encodable ma (bs @ [b])"
    using bs b by (simp_all add: whole_open_def)
  define w2 where "w2 = w1\<lparr>files := AList.update ?p ?new (files w1)\<rparr>"
  have wr: "os_write ?p (frame av enc) w1 = (True, w2)"
    using c1 old b by (simp add: os_write_def w2_def content_def clean_def)
  define r2 where "r2 = r1\<lparr>seg_size := wrap64 (seg_size r1 + int (length (frame av enc))), written := written r1 + of_nat (length recs)\<rparr>"
  have "length (frame av enc) \<le> 2 ^ 31 + 10"
    using codec_enc(3)[OF codec b(1)] codec_varint(4)[OF codec, of "of_nat (length enc)"] by (simp add: frame_def)
  then have "int (length (frame av enc)) \<le> int (2 ^ 31 + 10)" by (simp only: of_nat_le_iff)
  moreover have "0 \<le> seg_size r1" "seg_size r1 < 2 ^ 62" using bs c1 by (auto simp: whole_open_def rcfg_ok_def clean_def)
  ultimately have "wrap64 (seg_size r1 + int (length (frame av enc))) = seg_size r1 + int (length (frame av enc))"
    by (intro wrap64_id) simp
  then have sz: "seg_size r2 = int (length ?new)" using bs b by (simp add: r2_def whole_open_def)
  have f1: "faults w1 = []" "inj (clock w1)" "distinct (map fst (files w1))" "names_free (rcfg r1) w1" "rcfg_ok (rcfg r1)"
    using c1 by (simp_all add: clean_def)
  have all1: "whole av ma d \<and> (has_suffix trace_ext p \<or> seg_open r1 \<and> p = ?p)" if "map_of (files w1) p = Some d" for p d
    using c1 that by (simp add: clean_def)
  have nm1: "map_of (files w1) (seg_path r1 @ trace_ext) = None" "\<exists>k < readings w1. seg_path r1 = seg_name (rcfg r1) (clock w1 k)"
    using c1 op by (simp_all add: clean_def)
  have st2: "stored cv um x w2 = stored cv um x w + int (count (mset recs) x)" for x
    using vsum_update_old[OF f1(3) old, of "rec_count cv um x" ?new] st1[of x]
      rec_count_frames[OF codec ebs(1), of x] rec_count_frames[OF codec ebs(2), of x] b(2)
    by (simp add: stored_def w2_def del: frames_simps)
  have m2: "map_of (files w2) = (map_of (files w1))(?p \<mapsto> ?new)" by (simp add: w2_def)
  have wh: "whole av ma ?new" using ebs(2) unfolding whole_def by blast
  have all2: "whole av ma d \<and> (has_suffix trace_ext p \<or> seg_open r2 \<and> p = seg_path r2 @ tmp_ext)" if "map_of (files w2) p = Some d" for p d
    using that all1[of p d] wh op by (auto simp: m2 r2_def split: if_splits simp del: frames_simps)
  have nf2: "names_free (rcfg r2) w2"
  proof -
    obtain j where j: "j < readings w1" "seg_path r1 = seg_name (rcfg r1) (clock w1 j)" using nm1(2) by blast
    have "seg_name (rcfg r1) (clock w1 k) \<noteq> seg_path r1" if "readings w1 \<le> k" for k
    proof -
      have "clock w1 k \<noteq> clock w1 j" using injD[OF f1(2), of k j] that j(1) by linarith
      then show ?thesis using j(2) seg_name_inj by metis
    qed
    then show ?thesis using f1(4) by (simp add: names_free_def w2_def r2_def)
  qed
  have base2: "faults w2 = []" "inj (clock w2)" "distinct (map fst (files w2))" "rcfg_ok (rcfg r2)" "rcfg r2 = rcfg r1"
    "readings w2 = readings w1" "clock w2 = clock w1" "seg_path r2 = seg_path r1" "seg_open r2"
    using f1 op by (simp_all add: w2_def r2_def)
  have open2: "encodable ma (bs @ [b]) \<and> map_of (files w2) (seg_path r2 @ tmp_ext) = Some ?new \<and> seg_size r2 = int (length ?new)"
    using ebs(2) sz base2 by (simp add: m2 del: frames_simps)
  have ex2: "\<exists>bs. encodable ma bs \<and> map_of (files w2) (seg_path r2 @ tmp_ext) = Some (frames av ma bs) \<and>
      seg_size r2 = int (length (frames av ma bs))" by (rule exI[of _ "bs @ [b]"]) (rule open2)
  have nm2: "map_of (files w2) (seg_path r2 @ trace_ext) = None \<and> (\<exists>k < readings w2. seg_path r2 = seg_name (rcfg r2) (clock w2 k))"
    using nm1 base2 by (simp add: m2 del: frames_simps)
  have wb: "writeBatch av ma i recs r w = (if SegmentBytes (rcfg r2) \<le> seg_size r2
      then (case closeSegment r2 w2 of (_, r, w) \<Rightarrow> (True, r, w)) else (True, r2, w2))"
    using en wr b(1) by (simp add: writeBatch_def Let_def r0_def b_def r2_def)
  show ?thesis
  proof (cases "SegmentBytes (rcfg r2) \<le> seg_size r2")
    case True
    obtain r3 w3 where "closeSegment r2 w2 = (True, r3, w3)" "clean av ma r3 w3" "\<And>x. stored cv um x w3 = stored cv um x w2"
      using close_clean[OF codec base2(1-3) nf2 all2 ex2 nm2 base2(4)] by metis
    then show ?thesis using wb True st2 by simp
  next
    case False
    then have "whole_open av ma r2 w2 (bs @ [b])" using open2 by (simp add: whole_open_def del: frames_simps)
    then have "clean av ma r2 w2" unfolding clean_def using base2 nf2 all2 nm2 by blast
    then show ?thesis using wb False st2 by simp
  qed
qed

section \<open>Draining\<close>

definition marshals :: "(batch \<Rightarrow> byte list option) \<Rightarrow> rconfig \<Rightarrow> nat \<Rightarrow> trec set \<Rightarrow> bool" where
  "marshals ma c n R \<longleftrightarrow> (\<forall>i < n. \<forall>s recs. set recs \<subseteq> R \<and> length recs \<le> nat (BatchSize c) \<longrightarrow>
     ma \<lparr>node_id = NodeID c @ ''/'' @ itoa i, b_sequence = s, b_records = recs\<rparr> \<noteq> None)"

definition rings_in :: "trec set \<Rightarrow> recorder \<Rightarrow> bool" where
  "rings_in R r \<longleftrightarrow> (\<forall>i < length (rings r). ring_inv (rings r ! i) \<and> set (ring_items (rings r ! i)) \<subseteq> R)"

definition waiting :: "trec \<Rightarrow> recorder \<Rightarrow> int" where
  "waiting x r = sum_list (map (\<lambda>ring. int (count (mset (ring_items ring)) x)) (rings r))"

text \<open>What is stored and what waits, together, of each record.\<close>

definition tally :: "(byte list \<Rightarrow> varint_error + u64 \<times> nat) \<Rightarrow> (byte list \<Rightarrow> batch option) \<Rightarrow> recorder \<Rightarrow> world \<Rightarrow> trec \<Rightarrow> int" where
  "tally cv um r w x = stored cv um x w + waiting x r"

lemma sum_list_update_int:
  fixes xs :: "int list"
  shows "i < length xs \<Longrightarrow> sum_list (xs[i := y]) = sum_list xs - xs ! i + y"
  by (induction xs arbitrary: i) (auto split: nat.split)

lemma waiting_update:
  "i < length (rings r) \<Longrightarrow> waiting x (r\<lparr>rings := (rings r)[i := ring]\<rparr>) =
   waiting x r - int (count (mset (ring_items (rings r ! i))) x) + int (count (mset (ring_items ring)) x)"
  by (simp add: waiting_def map_update sum_list_update_int)

lemma waiting_cong: "rings r' = rings r \<Longrightarrow> waiting x r' = waiting x r"
  by (simp add: waiting_def)

lemma waiting_empty: "list_all (\<lambda>ring. ring_items ring = []) (rings r) \<Longrightarrow> waiting x r = 0"
proof -
  have "sum_list (map (\<lambda>ring. int (count (mset (ring_items ring)) x)) rs) = 0"
    if "list_all (\<lambda>ring. ring_items ring = []) rs" for rs
    using that by (induction rs) simp_all
  then show "list_all (\<lambda>ring. ring_items ring = []) (rings r) \<Longrightarrow> waiting x r = 0" by (simp add: waiting_def)
qed

text \<open>A state in which the recorder can go on.\<close>

definition going :: "(u64 \<Rightarrow> byte list) \<Rightarrow> (batch \<Rightarrow> byte list option) \<Rightarrow> trec set \<Rightarrow> recorder \<Rightarrow> world \<Rightarrow> bool" where
  "going av ma R r w \<longleftrightarrow> clean av ma r w \<and> rings_in R r \<and> marshals ma (rcfg r) (length (rings r)) R"

lemma drain_ring_clean:
  assumes codec: "codec_ok av cv ma um"
  shows "going av ma R r w \<Longrightarrow> i < length (rings r) \<Longrightarrow> queued (rings r ! i) < fuel \<Longrightarrow>
    \<exists>r' w'. drain_ring av ma i fuel r w = (True, r', w') \<and> going av ma R r' w' \<and> same_others i r r' \<and>
      ring_items (rings r' ! i) = [] \<and> tally cv um r' w' = tally cv um r w \<and> lost r' = lost r"
proof (induction fuel arbitrary: r w)
  case (Suc fuel)
  let ?n = "nat (BatchSize (rcfg r))"
  have c: "clean av ma r w" and rin: "rings_in R r" and ms: "marshals ma (rcfg r) (length (rings r)) R"
    using Suc.prems(1) by (simp_all add: going_def)
  have n0: "0 < ?n" using c by (simp add: clean_def rcfg_ok_def)
  obtain ring recs where d: "ring_drain (rings r ! i) ?n = (ring, recs)" by fastforce
  have inv: "ring_inv (rings r ! i)" and sub: "set (ring_items (rings r ! i)) \<subseteq> R"
    using rin Suc.prems(2) by (simp_all add: rings_in_def)
  note Q = queued_drain[OF inv d]
  define r1 where "r1 = r\<lparr>rings := (rings r)[i := ring]\<rparr>"
  have items: "ring_items (rings r ! i) = recs @ ring_items ring" using Q(3,4) by (metis append_take_drop_id)
  have r1: "clean av ma r1 w" "rcfg r1 = rcfg r" "length (rings r1) = length (rings r)" "same_others i r r1"
    "rings r1 ! i = ring" "lost r1 = lost r"
    using c Suc.prems(2) by (simp_all add: r1_def same_others_def)
  have rin1: "rings_in R r1"
    using rin Q(2) sub items Suc.prems(2) by (auto simp: r1_def rings_in_def nth_list_update)
  have w1: "waiting x r1 = waiting x r - int (count (mset recs) x)" for x
    using waiting_update[OF Suc.prems(2), of x ring] by (simp add: r1_def items)
  show ?case
  proof (cases "recs = []")
    case True
    then have "ring_items (rings r ! i) = []" using Q(3) n0 by simp
    then have e: "ring_items (rings r1 ! i) = []" using Q(4) by (simp add: r1(5))
    have dr: "drain_ring av ma i (Suc fuel) r w = (True, r1, w)" using d True by (simp add: r1_def)
    have t: "tally cv um r1 w = tally cv um r w" by (rule ext) (simp add: tally_def w1 True)
    have g: "going av ma R r1 w" using r1 rin1 ms by (simp add: going_def)
    show ?thesis by (intro exI[of _ r1] exI[of _ w] conjI dr g r1(4) e t r1(6))
  next
    case False
    have "set recs \<subseteq> R" using sub by (simp add: items)
    moreover have "length recs \<le> ?n" using Q(3) by simp
    ultimately have "ma \<lparr>node_id = NodeID (rcfg r1) @ ''/'' @ itoa i, b_sequence = r_sequence r1 + 1, b_records = recs\<rparr> \<noteq> None"
      using ms Suc.prems(2) unfolding marshals_def r1(2) by blast
    then obtain enc where enc: "ma \<lparr>node_id = NodeID (rcfg r1) @ ''/'' @ itoa i, b_sequence = r_sequence r1 + 1, b_records = recs\<rparr> = Some enc"
      by blast
    obtain r2 w2 where wb: "writeBatch av ma i recs r1 w = (True, r2, w2)" and c2: "clean av ma r2 w2"
      and st: "\<And>x. stored cv um x w2 = stored cv um x w + int (count (mset recs) x)"
      using write_clean[OF codec r1(1) enc] by blast
    note W = writeBatch_core[OF wb]
    have g2: "going av ma R r2 w2" using c2 rin1 ms W(1,2) r1 by (simp add: going_def rings_in_def)
    have t2: "tally cv um r2 w2 = tally cv um r w"
      by (rule ext) (simp add: tally_def st w1 waiting_cong[OF W(1)])
    have i2: "rings r2 ! i = ring" "length (rings r2) = length (rings r)" "same_others i r r2" "lost r2 = lost r"
      using W(1,3) r1 by (simp_all add: same_others_def)
    show ?thesis
    proof (cases "length recs < ?n")
      case True
      then have "ring_items ring = []" using Q(3,4) by simp
      moreover have "drain_ring av ma i (Suc fuel) r w = (True, r2, w2)"
        using d False wb True W(2) r1(2) by (simp add: r1_def[symmetric] Let_def)
      ultimately show ?thesis using g2 t2 i2 by simp
    next
      case long: False
      have "queued (rings r2 ! i) < fuel" using Suc.prems(3) Q(1) False i2 by (cases recs) auto
      from Suc.IH[OF g2 _ this] i2 Suc.prems(2) obtain r3 w3 where
        "drain_ring av ma i fuel r2 w2 = (True, r3, w3)" "going av ma R r3 w3" "same_others i r2 r3"
        "ring_items (rings r3 ! i) = []" "tally cv um r3 w3 = tally cv um r2 w2" "lost r3 = lost r2" by auto
      moreover have "drain_ring av ma i (Suc fuel) r w = drain_ring av ma i fuel r2 w2"
        using d False wb long W(2) r1(2) by (simp add: r1_def[symmetric] Let_def)
      ultimately show ?thesis using t2 i2 by (auto simp: same_others_def)
    qed
  qed
qed simp

lemma drain_rings_clean:
  assumes codec: "codec_ok av cv ma um"
  shows "going av ma R r w \<Longrightarrow> list_all (\<lambda>i. i < length (rings r)) is \<Longrightarrow>
    \<exists>r' w'. drain_rings av ma is r w = (True, r', w') \<and> going av ma R r' w' \<and> length (rings r') = length (rings r) \<and>
      (\<forall>i. i \<in> set is \<or> ring_items (rings r ! i) = [] \<longrightarrow> ring_items (rings r' ! i) = []) \<and>
      tally cv um r' w' = tally cv um r w \<and> lost r' = lost r"
proof (induction "is" arbitrary: r w)
  case (Cons i "is")
  obtain r1 w1 where d: "drain_ring av ma i (Suc (queued (rings r ! i))) r w = (True, r1, w1)"
    and D: "going av ma R r1 w1" "same_others i r r1" "ring_items (rings r1 ! i) = []" "tally cv um r1 w1 = tally cv um r w"
      "lost r1 = lost r"
    using drain_ring_clean[OF codec Cons.prems(1), of i "Suc (queued (rings r ! i))"] Cons.prems(2) by auto
  have len: "length (rings r1) = length (rings r)" using D(2) by (simp add: same_others_def)
  obtain r2 w2 where "drain_rings av ma is r1 w1 = (True, r2, w2)" "going av ma R r2 w2" "length (rings r2) = length (rings r1)"
    "\<And>i. i \<in> set is \<or> ring_items (rings r1 ! i) = [] \<Longrightarrow> ring_items (rings r2 ! i) = []"
    "tally cv um r2 w2 = tally cv um r1 w1" "lost r2 = lost r1"
    using Cons.IH[OF D(1)] Cons.prems(2) len by auto
  moreover have "ring_items (rings r1 ! j) = []" if "j = i \<or> ring_items (rings r ! j) = []" for j
    using that D(2,3) by (auto simp: same_others_def)
  ultimately show ?case using d D len by (auto simp del: drain_ring.simps)
qed simp

lemma drainAll_clean:
  assumes "codec_ok av cv ma um" and "going av ma R r w"
  shows "\<exists>r' w'. drainAll av ma r w = (True, r', w') \<and> going av ma R r' w' \<and> length (rings r') = length (rings r) \<and>
      list_all (\<lambda>ring. ring_items ring = []) (rings r') \<and> tally cv um r' w' = tally cv um r w \<and> lost r' = lost r"
proof -
  obtain r' w' where "drain_rings av ma [0..<length (rings r)] r w = (True, r', w')" "going av ma R r' w'"
    "length (rings r') = length (rings r)" "\<And>i. i < length (rings r) \<Longrightarrow> ring_items (rings r' ! i) = []"
    "tally cv um r' w' = tally cv um r w" "lost r' = lost r"
    using drain_rings_clean[OF assms, of "[0..<length (rings r)]"] by (auto simp: list_all_length)
  then show ?thesis by (auto simp: drainAll_def list_all_length)
qed

lemma close_going:
  assumes "codec_ok av cv ma um" and "going av ma R r w"
  shows "\<exists>r' w'. closeSegment r w = (True, r', w') \<and> going av ma R r' w' \<and> \<not> seg_open r' \<and> rings r' = rings r \<and>
    tally cv um r' w' = tally cv um r w \<and> lost r' = lost r"
proof -
  have c: "clean av ma r w" using assms(2) by (simp add: going_def)
  obtain r' w' where cl: "closeSegment r w = (True, r', w')" "clean av ma r' w'" "\<not> seg_open r'" "rcfg r' = rcfg r"
    "\<And>x. stored cv um x w' = stored cv um x w"
  proof -
    have "\<exists>r' w'. closeSegment r w = (True, r', w') \<and> clean av ma r' w' \<and> \<not> seg_open r' \<and> rcfg r' = rcfg r \<and>
        (\<forall>x. stored cv um x w' = stored cv um x w)"
      by (rule close_clean[OF assms(1)]; use c in \<open>unfold clean_def whole_open_def, blast\<close>)
    then show ?thesis using that by blast
  qed
  note K = closeSegment_core[OF cl(1)]
  have "going av ma R r' w'" using assms(2) cl K by (simp add: going_def rings_in_def)
  moreover have "tally cv um r' w' = tally cv um r w"
    by (rule ext) (simp only: tally_def cl(5), use K in \<open>simp add: waiting_def\<close>)
  ultimately show ?thesis using cl(1,3) K by (intro exI[of _ r'] exI[of _ w'] conjI) simp_all
qed

section \<open>The whole loop\<close>

lemma tick_clean:
  assumes codec: "codec_ok av cv ma um" and g: "going av ma R r w"
  shows "\<exists>r' w'. tick av ma r w = (r', w') \<and> going av ma R r' w' \<and> tally cv um r' w' = tally cv um r w \<and>
    lost r' = lost r \<and> length (rings r') = length (rings r)"
proof -
  obtain r1 w1 where d: "drainAll av ma r w = (True, r1, w1)" and D: "going av ma R r1 w1" "length (rings r1) = length (rings r)"
    "tally cv um r1 w1 = tally cv um r w" "lost r1 = lost r"
    using drainAll_clean[OF codec g] by blast
  let ?w = "w1\<lparr>readings := Suc (readings w1)\<rparr>"
  have g1: "going av ma R r1 ?w"
    using D(1) by (auto simp: going_def clean_def names_free_def whole_open_def less_Suc_eq)
  have t1: "tally cv um r1 ?w = tally cv um r1 w1" by (simp add: tally_def stored_def fun_eq_iff)
  obtain r2 w2 where cl: "closeSegment r1 ?w = (True, r2, w2)" "going av ma R r2 w2" "rings r2 = rings r1"
    "tally cv um r2 w2 = tally cv um r1 ?w" "lost r2 = lost r1"
    using close_going[OF codec g1] by blast
  show ?thesis
  proof (cases "seg_open r1 \<and> SegmentMaxAge (rcfg r1) \<le> clock w1 (readings w1) - opened r1")
    case True
    then have "tick av ma r w = (r2, w2)" using d cl by (simp add: tick_def clock_now_def)
    then show ?thesis using cl D t1 by simp
  next
    case False
    then have "tick av ma r w = (r1, if seg_open r1 then ?w else w1)" using d by (auto simp: tick_def clock_now_def)
    then show ?thesis using D g1 t1 by simp
  qed
qed

lemma produce_clean:
  assumes g: "going av ma R r w" and x: "x \<in> R" and p: "produce i x r = (r', acc)"
  shows "going av ma R r' w" and "tally cv um r' w y = tally cv um r w y + int (count (mset acc) y)"
    and "lost r' = lost r" and "length (rings r') = length (rings r)"
proof -
  have all: "going av ma R r' w \<and> tally cv um r' w y = tally cv um r w y + int (count (mset acc) y) \<and>
    lost r' = lost r \<and> length (rings r') = length (rings r)"
  proof (cases "i < length (rings r)")
    case True
    obtain ring ok where q: "ring_push (rings r ! i) x = (ring, ok)" by fastforce
    have inv: "ring_inv (rings r ! i)" "set (ring_items (rings r ! i)) \<subseteq> R" using g True by (simp_all add: going_def rings_in_def)
    have P: "ring_inv ring" "ring_items ring = (if ok then ring_items (rings r ! i) @ [x] else ring_items (rings r ! i))"
      using spsc.push_inv[OF inv(1), of x] spsc.push_items[OF inv(1), of x] q by simp_all
    have r': "r' = r\<lparr>rings := (rings r)[i := ring]\<rparr>" "acc = (if ok then [x] else [])"
      using p True q by (auto simp: produce_def)
    have "rings_in R r'" using g P inv x True by (auto simp: r' going_def rings_in_def nth_list_update)
    then have "going av ma R r' w" using g by (simp add: going_def r')
    moreover have "waiting y r' = waiting y r + int (count (mset acc) y)"
      using waiting_update[OF True, of y ring] P(2) by (simp add: r')
    ultimately show ?thesis by (simp add: tally_def) (simp add: r')
  next
    case False
    then show ?thesis using g p by (simp add: produce_def)
  qed
  then show "going av ma R r' w" and "tally cv um r' w y = tally cv um r w y + int (count (mset acc) y)"
    and "lost r' = lost r" and "length (rings r') = length (rings r)" by simp_all
qed

text \<open>A run that ends with the cancellation.\<close>

definition produced :: "rec_event list \<Rightarrow> trec set" where
  "produced es = {x. \<exists>i. Produce i x \<in> set es}"

lemma produced_simps [simp]: "produced [] = {}" "produced (Tick # es) = produced es" "produced (Cancel # es) = produced es"
    "produced (Produce i x # es) = insert x (produced es)"
  by (auto simp: produced_def)

lemma run_clean:
  assumes codec: "codec_ok av cv ma um"
  shows "going av ma R r w \<Longrightarrow> Cancel \<notin> set es \<Longrightarrow> produced es \<subseteq> R \<Longrightarrow>
    \<exists>r' w' acc. rec_run av ma (es @ [Cancel]) r w = (r', w', acc) \<and> going av ma R r' w' \<and> \<not> seg_open r' \<and>
      list_all (\<lambda>ring. ring_items ring = []) (rings r') \<and> lost r' = lost r \<and>
      (\<forall>x. tally cv um r' w' x = tally cv um r w x + int (count (mset acc) x))"
proof (induction es arbitrary: r w)
  case Nil
  obtain r1 w1 where d: "drainAll av ma r w = (True, r1, w1)" and D: "going av ma R r1 w1"
    "list_all (\<lambda>ring. ring_items ring = []) (rings r1)" "tally cv um r1 w1 = tally cv um r w" "lost r1 = lost r"
    using drainAll_clean[OF codec Nil(1)] by blast
  obtain r2 w2 where "closeSegment r1 w1 = (True, r2, w2)" "going av ma R r2 w2" "\<not> seg_open r2" "rings r2 = rings r1"
    "tally cv um r2 w2 = tally cv um r1 w1" "lost r2 = lost r1"
    using close_going[OF codec D(1)] by blast
  then show ?case using d D by simp
next
  case (Cons e es)
  show ?case
  proof (cases e)
    case (Produce i x)
    obtain r1 acc1 where p: "produce i x r = (r1, acc1)" by fastforce
    have "x \<in> R" using Cons.prems(3) Produce by simp
    note P = produce_clean[OF Cons.prems(1) this p]
    obtain r' w' acc where "rec_run av ma (es @ [Cancel]) r1 w = (r', w', acc)" "going av ma R r' w'" "\<not> seg_open r'"
      "list_all (\<lambda>ring. ring_items ring = []) (rings r')" "lost r' = lost r1"
      "\<And>x. tally cv um r' w' x = tally cv um r1 w x + int (count (mset acc) x)"
      using Cons.IH[OF P(1)] Cons.prems(2,3) Produce by auto
    then show ?thesis using p P(2,3) by (simp add: Produce)
  next
    case Tick
    obtain r1 w1 where t: "tick av ma r w = (r1, w1)" and T: "going av ma R r1 w1" "tally cv um r1 w1 = tally cv um r w" "lost r1 = lost r"
      using tick_clean[OF codec Cons.prems(1)] by blast
    show ?thesis using Cons.IH[OF T(1)] Cons.prems(2,3) t T by (simp add: Tick)
  next
    case Cancel
    then show ?thesis using Cons.prems(2) by simp
  qed
qed

section \<open>Reading it all back\<close>

definition batch_count :: "trec \<Rightarrow> batch list \<Rightarrow> int" where
  "batch_count x bs = int (count (mset (concat (map b_records bs))) x)"

lemma batch_count_append [simp]: "batch_count x (bs @ cs) = batch_count x bs + batch_count x cs"
  by (simp add: batch_count_def)

lemma read_all_whole:
  assumes codec: "codec_ok av cv ma um"
    and "\<And>p. p \<in> set ps \<Longrightarrow> \<exists>c. map_of dir p = Some c \<and> whole av ma c"
  shows "\<exists>bs. read_all cv um dir ps = Some (bs, None) \<and>
    (\<forall>x. batch_count x bs = sum_list (map (\<lambda>p. rec_count cv um x (the (map_of dir p))) ps))"
  using assms(2)
proof (induction ps)
  case Nil
  then show ?case by (simp add: batch_count_def)
next
  case (Cons p ps)
  obtain c bs where c: "map_of dir p = Some c" "encodable ma bs" "c = frames av ma bs"
    using Cons.prems[of p] by (auto simp: whole_def)
  have "ReadFile cv um dir p = Some (bs, None)" using c read_frames[OF codec c(2), of "[]"] by (simp add: ReadFile_def)
  moreover have "batch_count x bs = rec_count cv um x (the (map_of dir p))" for x
    using rec_count_frames[OF codec c(2)] c by (simp add: batch_count_def)
  ultimately show ?case using Cons.IH Cons.prems by auto
qed

lemma sum_over_names:
  "distinct (map fst dir) \<Longrightarrow> sum_list (map (\<lambda>p. f (the (map_of dir p))) (map fst dir)) = vsum f dir"
proof -
  assume d: "distinct (map fst dir)"
  have eq: "map (\<lambda>p. f (the (map_of dir p))) (map fst dir) = map (f \<circ> snd) dir"
    using d by (auto intro!: map_cong)
  show ?thesis by (simp only: vsum_def eq)
qed

lemma ReadDir_clean:
  assumes codec: "codec_ok av cv ma um" and c: "clean av ma r w" and cl: "\<not> seg_open r"
  shows "\<exists>bs e. ReadDir cv um (files w) = Some (bs, e) \<and> (\<forall>x. batch_count x bs = stored cv um x w) \<and>
    (e = None \<or> files w = [])"
proof -
  have all: "has_suffix trace_ext p \<and> whole av ma d" if "map_of (files w) p = Some d" for p d
    using c cl that by (auto simp: clean_def)
  have dist: "distinct (map fst (files w))" using c by (simp add: clean_def)
  have ex: "\<exists>d. map_of (files w) p = Some d \<and> whole av ma d" if p: "p \<in> set (map fst (files w))" for p
  proof -
    from p obtain d where d: "map_of (files w) p = Some d" using map_of_eq_None_iff[of "files w" p] by auto
    with all show ?thesis by blast
  qed
  have "has_suffix trace_ext p" if "p \<in> set (map fst (files w))" for p using ex[OF that] all by blast
  then have seg: "Segments (files w) = sort (map fst (files w))" unfolding Segments_def by (metis filter_True)
  obtain bs where bs: "read_all cv um (files w) (Segments (files w)) = Some (bs, None)"
    "\<And>x. batch_count x bs = sum_list (map (\<lambda>p. rec_count cv um x (the (map_of (files w) p))) (Segments (files w)))"
    using read_all_whole[OF codec, of "Segments (files w)" "files w"] ex seg by auto
  have "batch_count x bs = stored cv um x w" for x
  proof -
    let ?f = "\<lambda>p. rec_count cv um x (the (map_of (files w) p))"
    have "mset (map ?f (sort (map fst (files w)))) = mset (map ?f (map fst (files w)))" by (simp only: mset_map mset_sort)
    from arg_cong[OF this, of sum_mset]
    have "sum_list (map ?f (sort (map fst (files w)))) = sum_list (map ?f (map fst (files w)))"
      by (simp only: sum_mset_sum_list)
    then show ?thesis using bs(2)[of x] sum_over_names[OF dist, of "rec_count cv um x"] by (simp only: seg stored_def)
  qed
  moreover have "files w = []" if "Segments (files w) = []" using that seg by (metis length_0_conv length_map length_sort)
  ultimately show ?thesis using bs(1)
    by (cases "Segments (files w) = []") (auto simp: ReadDir_def Let_def batch_count_def stored_def)
qed

lemma new_clean:
  assumes new: "NewRecorder probe cfg w0 = (Inr r, w)" and w0: "faults w0 = []" "inj (clock w0)" "files w0 = []"
    and cfg: "RingCapacity cfg \<le> 2 ^ 62" "SegmentBytes cfg \<le> 2 ^ 62"
    and ms: "marshals ma (with_defaults cfg) (nat (cfg_Shards cfg)) R"
  shows "going av ma R r w" and "lost r = 0" and "tally cv um r w x = 0"
proof -
  note N = new_recorder_ok[OF new cfg(1)]
  have w: "w = w0"
    using new w0 by (auto simp: NewRecorder_def writable_def os_create_def os_close_def os_remove_def Let_def
        split: if_splits option.splits prod.splits)
  have l: "lost r = 0" using new by (auto simp: NewRecorder_def Let_def split: if_splits option.splits prod.splits)
  have c: "rcfg_ok (with_defaults cfg)" using cfg(2) by (auto simp: rcfg_ok_def with_defaults_def Let_def)
  have "clean av ma r w" using w0 c by (simp add: clean_def w N(3,4) names_free_def)
  moreover have "rings_in R r" using N(1,6) by (auto simp: rings_in_def rings_ok_def list_all_length)
  ultimately show "going av ma R r w" using ms N(4,5) by (simp add: going_def)
  show "lost r = 0" by (rule l)
  show "tally cv um r w x = 0" using waiting_empty[OF N(6)] by (simp add: tally_def stored_def w w0(3))
qed

lemma nothing_lost:
  assumes codec: "codec_ok av cv ma um"
    and new: "NewRecorder probe cfg w0 = (Inr r, w)" and w0: "faults w0 = []" "inj (clock w0)" "files w0 = []"
    and cfg: "RingCapacity cfg \<le> 2 ^ 62" "SegmentBytes cfg \<le> 2 ^ 62"
    and ms: "marshals ma (with_defaults cfg) (nat (cfg_Shards cfg)) (produced es)" and es: "Cancel \<notin> set es"
    and run: "rec_run av ma (es @ [Cancel]) r w = (r', w', acc)"
  shows "\<exists>bs e. ReadDir cv um (files w') = Some (bs, e) \<and> mset (concat (map b_records bs)) = mset acc \<and>
    (e = None \<or> files w' = []) \<and> lost r' = 0"
proof -
  note G = new_clean[OF new w0 cfg ms]
  obtain r2 w2 acc2 where "rec_run av ma (es @ [Cancel]) r w = (r2, w2, acc2)" "going av ma (produced es) r2 w2" "\<not> seg_open r2"
    "list_all (\<lambda>ring. ring_items ring = []) (rings r2)" "lost r2 = lost r"
    "\<And>x. tally cv um r2 w2 x = tally cv um r w x + int (count (mset acc2) x)"
    using run_clean[OF codec G(1) es order_refl] by blast
  then have R: "going av ma (produced es) r' w'" "\<not> seg_open r'" "list_all (\<lambda>ring. ring_items ring = []) (rings r')"
    "lost r' = lost r" "\<And>x. tally cv um r' w' x = tally cv um r w x + int (count (mset acc) x)"
    using run by auto
  have "stored cv um x w' = int (count (mset acc) x)" for x
    using R(5)[of x] G(3)[of cv um x] waiting_empty[OF R(3), of x] by (simp only: tally_def)
  moreover have "clean av ma r' w'" using R(1) by (simp add: going_def)
  from ReadDir_clean[OF codec this R(2)] obtain bs e where "ReadDir cv um (files w') = Some (bs, e)"
    "\<And>x. batch_count x bs = stored cv um x w'" "e = None \<or> files w' = []" by blast
  ultimately have "ReadDir cv um (files w') = Some (bs, e)" "\<And>x. batch_count x bs = int (count (mset acc) x)" "e = None \<or> files w' = []"
    by simp_all
  moreover from this(2) have "mset (concat (map b_records bs)) = mset acc" by (intro multiset_eqI) (simp add: batch_count_def)
  ultimately show ?thesis using R(4) G(2) by (intro exI[of _ bs] exI[of _ e]) simp
qed

end
