(* ===== verification/Trace_Properties.thy ===== *)
theory Trace_Properties
  imports Trace_Clean
begin

text \<open>
  The claims about the access trace, from the ring to the directory the trainer reads. The witnesses use
  a concrete codec: the base-128 varint of protocol buffers, and a message format for the batches of
  one shard of a node \<open>n\<close> that hold one known record or none.
\<close>

section \<open>A concrete codec\<close>

fun varint :: "nat \<Rightarrow> byte list" where
  "varint n = (if n < 128 then [of_nat n] else of_nat (128 + n mod 128) # varint (n div 128))"

declare varint.simps [simp del]

fun consume :: "byte list \<Rightarrow> (nat \<times> nat) option" where
  "consume [] = None"
| "consume (b # bs) =
     (if unat b < 128 then Some (unat b, 1)
      else case consume bs of None \<Rightarrow> None | Some (v, k) \<Rightarrow> Some (unat b - 128 + 128 * v, Suc k))"

lemma unat_byte: "n < 256 \<Longrightarrow> unat (of_nat n :: byte) = n"
  by (rule unat_of_small) simp

lemma unat_low: "unat (of_nat (128 + n mod 128) :: byte) = 128 + n mod 128"
  by (rule unat_byte) (use mod_less_divisor[of 128 n] in linarith)

lemma consume_varint: "consume (varint n @ rest) = Some (n, length (varint n))"
proof (induction n rule: varint.induct)
  case (1 n)
  show ?case
  proof (cases "n < 128")
    case True
    then show ?thesis by (simp add: varint.simps[of n] unat_byte del: of_nat_numeral)
  next
    case False
    then have "varint n = of_nat (128 + n mod 128) # varint (n div 128)" by (simp add: varint.simps[of n])
    then show ?thesis using 1[OF False] by (simp add: unat_low del: of_nat_add)
  qed
qed

lemma consume_prefix: "varint n = p @ q \<Longrightarrow> q \<noteq> [] \<Longrightarrow> consume p = None"
proof (induction n arbitrary: p rule: varint.induct)
  case (1 n)
  show ?case
  proof (cases p)
    case (Cons b bs)
    have n: "\<not> n < 128" using 1(2,3) Cons by (auto simp: varint.simps[of n] split: if_splits)
    then have "b = of_nat (128 + n mod 128)" "varint (n div 128) = bs @ q"
      using 1(2) Cons by (simp_all add: varint.simps[of n])
    then show ?thesis using 1(1)[OF n, of bs] 1(3) Cons by (simp add: unat_low del: of_nat_add)
  qed simp
qed

lemma varint_length: "n < 128 ^ Suc k \<Longrightarrow> 0 < length (varint n) \<and> length (varint n) \<le> Suc k"
proof (induction k arbitrary: n)
  case 0
  then show ?case by (simp add: varint.simps[of n])
next
  case (Suc k)
  have "n div 128 < 128 ^ Suc k" using Suc.prems by (simp add: div_less_iff_less_mult mult.commute)
  from Suc.IH[OF this] show ?case by (subst (1 2) varint.simps) simp
qed

definition demo_rec :: trec where
  "demo_rec = \<lparr>key_hash = 7, timestamp_us = 1, size_bytes = 2, hit = True\<rparr>"

definition demo_av :: "u64 \<Rightarrow> byte list" where
  "demo_av v = varint (unat v)"

definition demo_cv :: "byte list \<Rightarrow> varint_error + u64 \<times> nat" where
  "demo_cv bs = (case consume bs of None \<Rightarrow> Inl VTruncated | Some (v, k) \<Rightarrow> Inr (of_nat v, k))"

definition demo_ma :: "batch \<Rightarrow> byte list option" where
  "demo_ma b =
     (if node_id b = ''n/0'' \<and> (b_records b = [] \<or> b_records b = [demo_rec])
      then Some ((if b_records b = [] then 0 else 1) # varint (unat (b_sequence b))) else None)"

definition demo_um :: "byte list \<Rightarrow> batch option" where
  "demo_um enc =
     (case enc of [] \<Rightarrow> None
      | f # bs \<Rightarrow> (case consume bs of None \<Rightarrow> None
          | Some (v, _) \<Rightarrow> Some \<lparr>node_id = ''n/0'', b_sequence = of_nat v, b_records = (if f = 0 then [] else [demo_rec])\<rparr>))"

lemma u64_varint_length: "0 < length (varint (unat (v :: u64))) \<and> length (varint (unat v)) \<le> 10"
proof -
  have "unat v < 2 ^ 64" using unsigned_less[of v] by simp
  then have "unat v < 128 ^ Suc 9" by simp
  from varint_length[OF this] show ?thesis by simp
qed

lemma demo_codec: "codec_ok demo_av demo_cv demo_ma demo_um"
  unfolding codec_ok_def
proof (intro conjI allI impI)
  fix v :: u64 and rest p q :: "byte list"
  show "demo_cv (demo_av v @ rest) = Inr (v, length (demo_av v))"
    by (simp add: demo_cv_def demo_av_def consume_varint)
  show "demo_cv p = Inl VTruncated" if "demo_av v = p @ q \<and> q \<noteq> []"
    using consume_prefix[of "unat v" p q] that by (simp add: demo_cv_def demo_av_def)
  show "demo_av v \<noteq> []" "length (demo_av v) \<le> 10" using u64_varint_length[of v] by (auto simp: demo_av_def)
next
  fix b enc assume e: "demo_ma b = Some enc"
  have "consume (varint (unat (b_sequence b))) = Some (unat (b_sequence b), length (varint (unat (b_sequence b))))"
    using consume_varint[of _ "[]"] by simp
  with e show "demo_um enc = Some b" by (cases b) (auto simp: demo_ma_def demo_um_def split: if_splits)
  have "length (varint (unat (b_sequence b))) \<le> 10" using u64_varint_length by blast
  with e show "length enc < 2 ^ 31" by (auto simp: demo_ma_def split: if_splits)
qed


section \<open>A recorder with that codec\<close>

definition demo_rcfg :: rconfig where
  "demo_rcfg = \<lparr>Dir = ''d'', NodeID = ''n'', cfg_Shards = 1, RingCapacity = 2, SampleDenominator = 1,
     SegmentBytes = 1, FlushInterval = 1, SegmentMaxAge = 1, BatchSize = 1\<rparr>"

definition demo_world :: "fault list \<Rightarrow> world" where
  "demo_world fs = \<lparr>files = [], faults = fs, clock = int, readings = 0\<rparr>"

definition demo_queue :: tring where
  "demo_queue = the (NewRing 2 1)"

definition demo_recorder :: recorder where
  "demo_recorder = \<lparr>rings = [demo_queue], seg_open = False, seg_path = [], opened = 0, rcfg = demo_rcfg,
     written = 0, lost = 0, seg_size = 0, r_sequence = 0\<rparr>"

lemma demo_rcfg_fields [simp]:
  "with_defaults demo_rcfg = demo_rcfg" "cfg_Shards demo_rcfg = 1" "Dir demo_rcfg = ''d''" "NodeID demo_rcfg = ''n''"
  "RingCapacity demo_rcfg = 2" "SampleDenominator demo_rcfg = 1" "SegmentBytes demo_rcfg = 1" "BatchSize demo_rcfg = 1"
  by (simp_all add: with_defaults_def demo_rcfg_def)

lemma demo_world_fields [simp]:
  "files (demo_world fs) = []" "faults (demo_world fs) = fs" "clock (demo_world fs) = int"
  "(demo_world fs)\<lparr>faults := gs\<rparr> = demo_world gs" "(demo_world fs)\<lparr>files := []\<rparr> = demo_world fs"
  by (simp_all add: demo_world_def)

lemmas probe_defs = NewRecorder_def writable_def next_fault_def os_create_def os_close_def os_remove_def

lemma demo_ring: "NewRing 2 1 = Some demo_queue"
  by (simp add: demo_queue_def NewRing_def roundUpPow2_def shl_bits_len_def wrap_simps Let_def)

lemma demo_new: "NewRecorder ''p'' demo_rcfg (demo_world (Fine # Fine # Fine # Fine # fs)) = (Inr demo_recorder, demo_world fs)"
  by (simp add: probe_defs Let_def demo_recorder_def demo_ring demo_world_def)

lemma demo_new_clean: "NewRecorder ''p'' demo_rcfg (demo_world []) = (Inr demo_recorder, demo_world [])"
  by (simp add: probe_defs Let_def demo_recorder_def demo_ring demo_world_def)

lemma demo_marshals: "marshals demo_ma demo_rcfg 1 (produced [Produce 0 demo_rec])"
  unfolding marshals_def
proof (intro allI impI)
  fix i s recs assume "i < (1::nat)" and r: "set recs \<subseteq> produced [Produce 0 demo_rec] \<and> length recs \<le> nat (BatchSize demo_rcfg)"
  then have "recs = [] \<or> recs = [demo_rec]" by (cases recs) auto
  moreover have zero: "itoa 0 = ''0''" by code_simp
  ultimately show "demo_ma \<lparr>node_id = NodeID demo_rcfg @ ''/'' @ itoa i, b_sequence = s, b_records = recs\<rparr> \<noteq> None"
    using \<open>i < 1\<close> zero by (auto simp: demo_ma_def)
qed

section \<open>Segments\<close>

text \<open>
  C20. A segment reads back to the batches that were framed into it; cut off anywhere, it reads back to a
  prefix of them, the longest one that is whole, and the error is the one the directory reader forgives.
\<close>

theorem segment_roundtrip:
  assumes "codec_ok av cv ma um" and "encodable ma bs"
  shows "read_loop cv um (frames av ma bs) = Some (bs, None) \<and>
    (\<forall>n. \<exists>k e. read_loop cv um (take n (frames av ma bs)) = Some (take k bs, e) \<and> e \<in> {None, Some UnexpectedEOF} \<and>
       length (frames av ma (take k bs)) \<le> n \<and> (k < length bs \<longrightarrow> n < length (frames av ma (take (Suc k) bs))))"
proof (intro conjI allI)
  show "read_loop cv um (frames av ma bs) = Some (bs, None)"
    using read_frames[OF assms, of "[]"] by (simp add: read_loop.simps)
qed (rule read_prefix[OF assms])

lemma segment_roundtrip_witness:
  "read_loop demo_cv demo_um (frames demo_av demo_ma [\<lparr>node_id = ''n/0'', b_sequence = 300, b_records = [demo_rec]\<rparr>]) =
    Some ([\<lparr>node_id = ''n/0'', b_sequence = 300, b_records = [demo_rec]\<rparr>], None)"
  by (rule conjunct1[OF segment_roundtrip[OF demo_codec]]) (simp add: demo_ma_def)

section \<open>The recorder\<close>

text \<open>
  C24. Every record a ring accepted is, at every moment of every run and whatever the file system does,
  counted once: as written, as lost to a failed write, or as still queued (modulo the counters' width).
\<close>

theorem records_accounted:
  assumes "NewRecorder probe cfg w0 = (Inr r, w)" and "RingCapacity cfg \<le> 2 ^ 62"
    and "rec_run av ma es r w = (r', w', acc)"
  shows "written r' + lost r' + of_nat (sum_list (map queued (rings r'))) = (of_nat (length acc) :: u64)"
  using rec_run_account[OF new_recorder_ok(1)[OF assms(1,2)] assms(3)] new_recorder_ok(2)[OF assms(1,2)]
  by (simp add: account_def)

lemma records_accounted_witness:
  "\<exists>r' w' acc. rec_run demo_av demo_ma [Produce 0 demo_rec, Tick] demo_recorder (demo_world [Fail 0]) = (r', w', acc) \<and>
    written r' + lost r' + of_nat (sum_list (map queued (rings r'))) = (of_nat (length acc) :: u64)"
proof -
  let ?run = "rec_run demo_av demo_ma [Produce 0 demo_rec, Tick] demo_recorder (demo_world [Fail 0])"
  obtain r' w' acc where run: "?run = (r', w', acc)" by (rule prod_cases3)
  have cap: "RingCapacity demo_rcfg \<le> 2 ^ 62" by simp
  show ?thesis by (intro exI conjI, rule run, rule records_accounted[OF demo_new cap run])
qed

lemma os_create_files: "os_create p w = (True, w') \<Longrightarrow> files w' = AList.update p [] (files w)"
  by (auto simp: os_create_def dest: next_fault_files split: prod.splits if_splits)

lemma os_close_files: "os_close w = (b, w') \<Longrightarrow> files w' = files w"
  by (auto simp: os_close_def dest: next_fault_files split: prod.splits)

lemma os_remove_files: "os_remove p w = (True, w') \<Longrightarrow> files w' = AList.delete p (files w)"
  by (auto simp: os_remove_def dest: next_fault_files split: prod.splits if_splits)

lemma writable_files: "writable probe w = (True, w') \<Longrightarrow> files w' = AList.delete probe (files w)"
  by (auto simp: writable_def AList.delete_update_same dest!: os_create_files os_close_files os_remove_files
      split: prod.splits if_splits)

lemma NewRecorder_files:
  assumes "NewRecorder probe cfg w0 = (Inr r, w)"
  shows "files w = AList.delete probe (files w0)"
proof -
  obtain f w1 where w1: "next_fault w0 = (f, w1)" by fastforce
  with assms have "writable probe w1 = (True, w)"
    by (auto simp: NewRecorder_def Let_def split: if_splits prod.splits option.splits)
  from writable_files[OF this] next_fault_files[OF w1] show ?thesis by simp
qed

text \<open>
  C8. Whatever fails, and however the ticks and the records interleave, every published segment stays
  readable: reading the directory after any run succeeds, or reports that there is no segment yet.
\<close>

theorem published_always_readable:
  assumes "codec_ok av cv ma um" and "NewRecorder probe cfg w0 = (Inr r, w)" and "files w0 = []"
    and "RingCapacity cfg \<le> 2 ^ 62" and "SegmentBytes cfg \<le> 2 ^ 62" and "rec_run av ma es r w = (r', w', acc)"
  shows "\<exists>bs e. ReadDir cv um (files w') = Some (bs, e) \<and> (e = None \<or> Segments (files w') = [] \<and> bs = [])"
proof -
  have "files w = []" using NewRecorder_files[OF assms(2)] assms(3) by simp
  then have "file_inv av ma r w" using new_recorder_ok(3)[OF assms(2,4)] by (simp add: file_inv_def traces_good_def)
  moreover have "rcfg_ok (rcfg r)"
    using new_recorder_ok(4)[OF assms(2,4)] assms(5) by (simp add: rcfg_ok_def with_defaults_def Let_def)
  ultimately have "file_inv av ma r' w'" by (rule rec_run_good[OF assms(1) _ _ assms(6)])
  then show ?thesis by (intro ReadDir_good[OF assms(1)]) (simp add: file_inv_def)
qed

lemma published_always_readable_witness:
  "\<exists>r' w' acc bs e. rec_run demo_av demo_ma [Produce 0 demo_rec, Tick, Cancel] demo_recorder (demo_world [Fine, Fail 1, Fine, Fail 0]) = (r', w', acc) \<and>
    ReadDir demo_cv demo_um (files w') = Some (bs, e) \<and> (e = None \<or> bs = [])"
proof -
  let ?w = "demo_world [Fine, Fail 1, Fine, Fail 0]" and ?es = "[Produce 0 demo_rec, Tick, Cancel]"
  obtain r' w' acc where run: "rec_run demo_av demo_ma ?es demo_recorder ?w = (r', w', acc)"
    by (cases "rec_run demo_av demo_ma ?es demo_recorder ?w") blast
  have "files (demo_world (Fine # Fine # Fine # Fine # [Fine, Fail 1, Fine, Fail 0])) = []" by simp
  from published_always_readable[OF demo_codec demo_new this _ _ run]
  obtain bs e where "ReadDir demo_cv demo_um (files w') = Some (bs, e)" "e = None \<or> bs = []" by auto
  with run show ?thesis by blast
qed





end
