(* ===== verification/Registry.thy ===== *)
theory Registry
  imports Files
begin

text \<open>
  \<^verbatim>\<open>internal/registry/registry.go\<close>: the versioned directory of models and the service over it. The SHA-256
  digest in hexadecimal (\<open>sha\<close>), and the protobuf coding of the metadata (\<open>mm\<close>, \<open>um\<close>) are parameters.
  A stream is the list of its messages; its end is the client's half-close. A call returns the messages
  it sent and its status.
\<close>

record meta =
  m_version :: string
  m_format :: string
  m_size :: u64
  m_sha256 :: string
  m_created :: int
  m_features :: u32
  m_boundary :: u32
  m_metrics :: "(string \<times> string) list"

definition modelExt :: string where "modelExt = ''.model''"
definition metaExt :: string where "metaExt = ''.meta''"
definition tmpExt :: string where "tmpExt = ''.partial''"
definition chunkBytes :: nat where "chunkBytes = 256 * 2 ^ 10"
definition MaxModelBytes :: nat where "MaxModelBytes = 64 * 2 ^ 20"
definition modelFormat :: string where "modelFormat = ''lightgbm-text''"

section \<open>Receiving a model\<close>

datatype malformed = MetaTwice | OverLimit | NoMetaFirst | ExceedsDeclared | NoMeta | ShortBody | DigestMismatch | EmptyPayload

datatype stream_error = Malformed malformed | Transport

text \<open>What \<open>next\<close> returns: metadata, or a chunk, or an error that is not the end of the stream.\<close>

datatype item = Item "meta option" "byte list" | Broken stream_error

fun receive_loop :: "meta option \<Rightarrow> byte list \<Rightarrow> item list \<Rightarrow> stream_error + meta option \<times> byte list" where
  "receive_loop meta body [] = Inr (meta, body)"
| "receive_loop meta body (Broken e # is) = Inl e"
| "receive_loop meta body (Item (Some m) chunk # is) =
     (if meta \<noteq> None then Inl (Malformed MetaTwice)
      else if MaxModelBytes < unat (m_size m) then Inl (Malformed OverLimit)
      else receive_loop (Some m) [] is)"
| "receive_loop meta body (Item None chunk # is) =
     (case meta of None \<Rightarrow> Inl (Malformed NoMetaFirst)
      | Some m \<Rightarrow>
          if unat (m_size m) < length body + length chunk then Inl (Malformed ExceedsDeclared)
          else receive_loop meta (body @ chunk) is)"

definition receive :: "(byte list \<Rightarrow> string) \<Rightarrow> item list \<Rightarrow> stream_error + meta \<times> byte list" where
  "receive sha is =
     (case receive_loop None [] is of Inl e \<Rightarrow> Inl e
      | Inr (None, body) \<Rightarrow> Inl (Malformed NoMeta)
      | Inr (Some m, body) \<Rightarrow>
          if length body \<noteq> unat (m_size m) then Inl (Malformed ShortBody)
          else if sha body \<noteq> m_sha256 m then Inl (Malformed DigestMismatch)
          else Inr (m, body))"

section \<open>The store\<close>

text \<open>\<open>changed\<close> is the number of the channel: each publish closes the current one and makes the next.\<close>

record store =
  latest :: "meta option"
  changed :: nat

definition versions :: "world \<Rightarrow> bool \<times> string list \<times> world" where
  "versions w =
     (case next_fault w of (f, w) \<Rightarrow>
        if f \<noteq> Fine then (False, [], w)
        else (True, sort (map (\<lambda>p. take (length p - length metaExt) p) (filter (has_suffix metaExt) (map fst (files w)))), w))"

definition paths :: "string \<Rightarrow> string \<times> string" where
  "paths version = (version @ modelExt, version @ metaExt)"

datatype read_fail = NotExist | ReadFailed | Unreadable

definition os_read :: "string \<Rightarrow> world \<Rightarrow> (read_fail + byte list) \<times> world" where
  "os_read p w =
     (case next_fault w of (f, w) \<Rightarrow>
        (if f \<noteq> Fine then Inl ReadFailed
         else case map_of (files w) p of None \<Rightarrow> Inl NotExist | Some c \<Rightarrow> Inr c, w))"

definition read_meta :: "(byte list \<Rightarrow> meta option) \<Rightarrow> string \<Rightarrow> world \<Rightarrow> (read_fail + meta) \<times> world" where
  "read_meta um version w =
     (case os_read (snd (paths version)) w of
        (Inl e, w) \<Rightarrow> (Inl e, w)
      | (Inr raw, w) \<Rightarrow> (case um raw of None \<Rightarrow> Inl Unreadable | Some m \<Rightarrow> Inr m, w))"

text \<open>\<open>None\<close> is a registry that does not start.\<close>

definition newStore :: "(byte list \<Rightarrow> meta option) \<Rightarrow> world \<Rightarrow> store option \<times> world" where
  "newStore um w =
     (case next_fault w of (f, w) \<Rightarrow>
        if f \<noteq> Fine then (None, w)
        else case versions w of (ok, vs, w) \<Rightarrow>
          if \<not> ok then (None, w)
          else if vs = [] then (Some \<lparr>latest = None, changed = 0\<rparr>, w)
          else case read_meta um (last vs) w of
            (Inl e, w) \<Rightarrow> (None, w)
          | (Inr m, w) \<Rightarrow> (Some \<lparr>latest = Some m, changed = 0\<rparr>, w))"

definition snapshot :: "store \<Rightarrow> meta option \<times> nat" where
  "snapshot s = (latest s, changed s)"

definition writeAtomic :: "string \<Rightarrow> byte list \<Rightarrow> world \<Rightarrow> bool \<times> world" where
  "writeAtomic path body w =
     (case os_write_file (path @ tmpExt) body w of (ok, w) \<Rightarrow>
        if \<not> ok then (False, w) else os_rename (path @ tmpExt) path w)"

datatype publish_error = Exists | PublishIO

text \<open>The last, locked part of \<open>publish\<close>: a newer version becomes the latest and wakes the watchers.\<close>

definition advance :: "meta \<Rightarrow> store \<Rightarrow> store" where
  "advance m s =
     (if (case latest s of None \<Rightarrow> True | Some l \<Rightarrow> m_version l < m_version m)
      then s\<lparr>latest := Some m, changed := changed s + 1\<rparr> else s)"

definition publish :: "(meta \<Rightarrow> byte list option) \<Rightarrow> meta \<Rightarrow> byte list \<Rightarrow> store \<Rightarrow> world \<Rightarrow>
    publish_error option \<times> store \<times> world" where
  "publish mm m body s w =
     (case os_stat (snd (paths (m_version m))) w of
        (Present, w) \<Rightarrow> (Some Exists, s, w)
      | (StatFailed, w) \<Rightarrow> (Some PublishIO, s, w)
      | (Absent, w) \<Rightarrow>
          (case writeAtomic (fst (paths (m_version m))) body w of (ok, w) \<Rightarrow>
             if \<not> ok then (Some PublishIO, s, w)
             else case mm m of None \<Rightarrow> (Some PublishIO, s, w)
             | Some encoded \<Rightarrow>
                 (case writeAtomic (snd (paths (m_version m))) encoded w of (ok, w) \<Rightarrow>
                    if \<not> ok then (Some PublishIO, s, w) else (None, advance m s, w))))"

section \<open>Validation\<close>

datatype invalid = VersionRequired | VersionTooLong | VersionNotBare | BadFormat | NoFeatureCount | NoBoundary | EmptyBody

definition validVersion :: "string \<Rightarrow> invalid option" where
  "validVersion version =
     (if version = [] then Some VersionRequired
      else if 64 < length version then Some VersionTooLong
      else if \<exists>c \<in> set version. c \<in> set [CHR ''/'', CHR 0x5C, CHR ''.''] then Some VersionNotBare
      else None)"

definition validate :: "meta \<Rightarrow> byte list \<Rightarrow> invalid option" where
  "validate m body =
     (case validVersion (m_version m) of Some e \<Rightarrow> Some e
      | None \<Rightarrow>
          if m_format m \<noteq> modelFormat then Some BadFormat
          else if m_features m = 0 then Some NoFeatureCount
          else if m_boundary m = 0 then Some NoBoundary
          else if body = [] then Some EmptyBody
          else None)"

section \<open>The service\<close>

datatype status = OK | InvalidArgument | AlreadyExists | NotFound | Internal | StreamFailed

text \<open>\<open>time.Now().Unix()\<close>: the clock of the world counts nanoseconds.\<close>

definition stamp :: "meta \<Rightarrow> world \<Rightarrow> meta \<times> world" where
  "stamp m w = (if m_created m = 0 then (case clock_now w of (t, w) \<Rightarrow> (m\<lparr>m_created := t div 1000000000\<rparr>, w)) else (m, w))"

definition PublishModel :: "(byte list \<Rightarrow> string) \<Rightarrow> (meta \<Rightarrow> byte list option) \<Rightarrow> item list \<Rightarrow> store \<Rightarrow> world \<Rightarrow>
    status \<times> meta option \<times> store \<times> world" where
  "PublishModel sha mm is s w =
     (case receive sha is of
        Inl (Malformed _) \<Rightarrow> (InvalidArgument, None, s, w)
      | Inl Transport \<Rightarrow> (StreamFailed, None, s, w)
      | Inr (m, body) \<Rightarrow>
          if validate m body \<noteq> None then (InvalidArgument, None, s, w)
          else case stamp m w of (m, w) \<Rightarrow>
            (case publish mm m body s w of
               (Some Exists, s, w) \<Rightarrow> (AlreadyExists, None, s, w)
             | (Some PublishIO, s, w) \<Rightarrow> (Internal, None, s, w)
             | (None, s, w) \<Rightarrow> (OK, Some m, s, w)))"

text \<open>The chunks in which a file is read and sent.\<close>

function chunks :: "nat \<Rightarrow> byte list \<Rightarrow> byte list list" where
  "chunks n bs = (if n = 0 \<or> bs = [] then [] else take n bs # chunks n (drop n bs))"
  by auto
termination by (relation "measure (\<lambda>(n, bs). length bs)") auto

declare chunks.simps [simp del]

definition GetModel :: "(byte list \<Rightarrow> meta option) \<Rightarrow> string \<Rightarrow> store \<Rightarrow> world \<Rightarrow> item list \<times> status \<times> world" where
  "GetModel um version s w =
     (let target = (if version = [] then
                      (case fst (snapshot s) of None \<Rightarrow> Inl NotFound | Some m \<Rightarrow> Inr (m_version m))
                    else if validVersion version \<noteq> None then Inl InvalidArgument else Inr version)
      in case target of Inl st \<Rightarrow> ([], st, w)
      | Inr version \<Rightarrow>
          (case read_meta um version w of
             (Inl NotExist, w) \<Rightarrow> ([], NotFound, w)
           | (Inl _, w) \<Rightarrow> ([], Internal, w)
           | (Inr m, w) \<Rightarrow>
               (case os_read (fst (paths version)) w of
                  (Inl _, w) \<Rightarrow> ([Item (Some m) []], Internal, w)
                | (Inr body, w) \<Rightarrow>
                    (case next_fault w of
                       (Fine, w) \<Rightarrow> (Item (Some m) [] # map (Item None) (chunks chunkBytes body), OK, w)
                     | (Fail n, w) \<Rightarrow> (Item (Some m) [] # map (Item None) (chunks chunkBytes (take n body)), Internal, w)))))"

fun list_metas :: "(byte list \<Rightarrow> meta option) \<Rightarrow> string list \<Rightarrow> world \<Rightarrow> meta list \<times> world" where
  "list_metas um [] w = ([], w)"
| "list_metas um (v # vs) w =
     (case read_meta um v w of (r, w) \<Rightarrow>
        case list_metas um vs w of (ms, w) \<Rightarrow> ((case r of Inl _ \<Rightarrow> ms | Inr m \<Rightarrow> m # ms), w))"

definition ListModels :: "(byte list \<Rightarrow> meta option) \<Rightarrow> u32 \<Rightarrow> world \<Rightarrow> (status + meta list) \<times> world" where
  "ListModels um limit w =
     (case versions w of (ok, vs, w) \<Rightarrow>
        if \<not> ok then (Inl Internal, w)
        else
          let vs = rev vs;
              n = (if unat limit = 0 \<or> length vs < unat limit then length vs else unat limit)
          in case list_metas um (take n vs) w of (ms, w) \<Rightarrow> (Inr ms, w))"

definition Latest :: "store \<Rightarrow> string" where
  "Latest s = (case fst (snapshot s) of None \<Rightarrow> [] | Some m \<Rightarrow> m_version m)"

section \<open>What receive accepts\<close>

definition declared :: "(byte list \<Rightarrow> string) \<Rightarrow> meta \<Rightarrow> byte list \<Rightarrow> bool" where
  "declared sha m body \<longleftrightarrow> length body = unat (m_size m) \<and> unat (m_size m) \<le> MaxModelBytes \<and> sha body = m_sha256 m"

lemma receive_chunks:
  "length body + length (concat cs) \<le> unat (m_size m) \<Longrightarrow>
   receive_loop (Some m) body (map (Item None) cs) = Inr (Some m, body @ concat cs)"
  by (induction cs arbitrary: body) auto

lemma receive_loop_some:
  "receive_loop (Some m) body is = Inr (m', out) \<Longrightarrow>
   \<exists>cs. is = map (Item None) cs \<and> m' = Some m \<and> out = body @ concat cs"
proof (induction "is" arbitrary: body)
  case Nil
  then show ?case by (intro exI[of _ "[]"]) simp
next
  case (Cons i "is")
  show ?case
  proof (cases i)
    case (Broken e)
    then show ?thesis using Cons.prems by simp
  next
    case (Item mo c)
    then have i: "i = Item None c" using Cons.prems by (cases mo) auto
    then have "receive_loop (Some m) (body @ c) is = Inr (m', out)" using Cons.prems by (simp split: if_splits)
    from Cons.IH[OF this] obtain cs where "is = map (Item None) cs" "m' = Some m" "out = (body @ c) @ concat cs" by blast
    then show ?thesis using i by (intro exI[of _ "c # cs"]) simp
  qed
qed

lemma receive_loop_start:
  assumes "receive_loop None [] is = Inr (Some m, body)"
  shows "\<exists>c0 cs. is = Item (Some m) c0 # map (Item None) cs \<and> body = concat cs \<and> unat (m_size m) \<le> MaxModelBytes"
proof (cases "is")
  case (Cons i js)
  show ?thesis
  proof (cases i)
    case (Item mo c0)
    then obtain m' where mo: "mo = Some m'" using assms Cons by (cases mo) auto
    then have r: "unat (m_size m') \<le> MaxModelBytes" "receive_loop (Some m') [] js = Inr (Some m, body)"
      using assms Cons Item by (auto split: if_splits)
    from receive_loop_some[OF r(2)] r(1) show ?thesis using Cons Item mo by auto
  qed (use assms Cons in simp)
qed (use assms in simp)

lemma receive_iff:
  "receive sha is = Inr (m, body) \<longleftrightarrow>
   (\<exists>c0 cs. is = Item (Some m) c0 # map (Item None) cs \<and> body = concat cs \<and> declared sha m body)"
proof
  assume r: "receive sha is = Inr (m, body)"
  then have l: "receive_loop None [] is = Inr (Some m, body)" and d: "length body = unat (m_size m)" "sha body = m_sha256 m"
    by (auto simp: receive_def split: sum.splits option.splits if_splits)
  with receive_loop_start[OF l] show "\<exists>c0 cs. is = Item (Some m) c0 # map (Item None) cs \<and> body = concat cs \<and> declared sha m body"
    by (auto simp: declared_def)
next
  assume "\<exists>c0 cs. is = Item (Some m) c0 # map (Item None) cs \<and> body = concat cs \<and> declared sha m body"
  then show "receive sha is = Inr (m, body)"
    using receive_chunks[of "[]" _ m] by (auto simp: receive_def declared_def)
qed

lemma concat_chunks: "0 < n \<Longrightarrow> concat (chunks n bs) = bs"
proof (induction "length bs" arbitrary: bs rule: less_induct)
  case less
  show ?case
  proof (cases "bs = []")
    case False
    then have "concat (chunks n (drop n bs)) = drop n bs" using less by (intro less.hyps) auto
    then show ?thesis using False less.prems by (subst chunks.simps) simp
  qed (simp add: chunks.simps)
qed

end
