(* ===== verification/Registry_Store.thy ===== *)
theory Registry_Store
  imports Registry
begin

text \<open>
  The invariant of the registry's directory and of its store, kept by every publication whatever fails
  and wherever it stops, and what follows: a version that can be listed can be fetched whole, and a
  restart comes back with the version that was latest.
\<close>

section \<open>The invariant of the directory\<close>

definition mcodec_ok :: "(meta \<Rightarrow> byte list option) \<Rightarrow> (byte list \<Rightarrow> meta option) \<Rightarrow> bool" where
  "mcodec_ok mm um \<longleftrightarrow> (\<forall>m enc. mm m = Some enc \<longrightarrow> um enc = Some m)"

definition entry_ok :: "(byte list \<Rightarrow> string) \<Rightarrow> (byte list \<Rightarrow> meta option) \<Rightarrow> world \<Rightarrow> string \<Rightarrow> meta \<Rightarrow> byte list \<Rightarrow> bool" where
  "entry_ok sha um w v m body \<longleftrightarrow>
     (\<exists>enc. map_of (files w) (v @ metaExt) = Some enc \<and> um enc = Some m) \<and> m_version m = v \<and>
     map_of (files w) (v @ modelExt) = Some body \<and> declared sha m body \<and> validVersion v = None"

definition published :: "world \<Rightarrow> string set" where
  "published w = {v. map_of (files w) (v @ metaExt) \<noteq> None}"

definition reg_inv :: "(byte list \<Rightarrow> string) \<Rightarrow> (byte list \<Rightarrow> meta option) \<Rightarrow> world \<Rightarrow> bool" where
  "reg_inv sha um w \<longleftrightarrow> distinct (map fst (files w)) \<and> (\<forall>v \<in> published w. \<exists>m body. entry_ok sha um w v m body)"

lemma ext_ne [simp]:
  "v @ modelExt \<noteq> u @ metaExt" "v @ metaExt \<noteq> u @ modelExt"
  "v @ modelExt @ tmpExt \<noteq> u @ metaExt" "v @ modelExt @ tmpExt \<noteq> u @ modelExt"
  "v @ metaExt @ tmpExt \<noteq> u @ metaExt" "v @ metaExt @ tmpExt \<noteq> u @ modelExt"
  "u @ metaExt \<noteq> v @ modelExt @ tmpExt" "u @ modelExt \<noteq> v @ modelExt @ tmpExt"
  "u @ metaExt \<noteq> v @ metaExt @ tmpExt" "u @ modelExt \<noteq> v @ metaExt @ tmpExt"
proof -
  have no: "\<not> has_suffix metaExt (v @ modelExt)" "\<not> has_suffix metaExt (v @ modelExt @ tmpExt)"
    "\<not> has_suffix modelExt (v @ modelExt @ tmpExt)" "\<not> has_suffix metaExt (v @ metaExt @ tmpExt)"
    "\<not> has_suffix modelExt (v @ metaExt @ tmpExt)" for v
    by (simp_all add: has_suffix_rev modelExt_def metaExt_def tmpExt_def)
  have yes: "has_suffix metaExt (u @ metaExt)" "has_suffix modelExt (u @ modelExt)" for u
    by (auto simp: has_suffix_append)
  show "v @ modelExt \<noteq> u @ metaExt" "v @ metaExt \<noteq> u @ modelExt"
    "v @ modelExt @ tmpExt \<noteq> u @ metaExt" "v @ modelExt @ tmpExt \<noteq> u @ modelExt"
    "v @ metaExt @ tmpExt \<noteq> u @ metaExt" "v @ metaExt @ tmpExt \<noteq> u @ modelExt"
    "u @ metaExt \<noteq> v @ modelExt @ tmpExt" "u @ modelExt \<noteq> v @ modelExt @ tmpExt"
    "u @ metaExt \<noteq> v @ metaExt @ tmpExt" "u @ modelExt \<noteq> v @ metaExt @ tmpExt"
    using no yes by metis+
qed

text \<open>An atomic write changes its path only when it succeeds, and besides it only the temporary name.\<close>

lemma writeAtomic_files:
  assumes "writeAtomic path body w = (ok, w')"
  shows "q \<noteq> path \<Longrightarrow> q \<noteq> path @ tmpExt \<Longrightarrow> map_of (files w') q = map_of (files w) q"
    and "map_of (files w') path = (if ok then Some body else map_of (files w) path)"
    and "distinct (map fst (files w)) \<Longrightarrow> distinct (map fst (files w'))"
proof -
  have ne: "path \<noteq> path @ tmpExt" by (simp add: tmpExt_def)
  obtain f w1 where f: "next_fault w = (f, w1)" by fastforce
  define w2 where "w2 = w1\<lparr>files := AList.update (path @ tmpExt) (case f of Fine \<Rightarrow> body | Fail n \<Rightarrow> take n body) (files w)\<rparr>"
  have wf: "os_write_file (path @ tmpExt) body w = (f = Fine, w2)" using f by (simp add: os_write_file_def w2_def)
  obtain f' w3 where f': "next_fault w2 = (f', w3)" by fastforce
  have "(ok \<and> f = Fine \<and> files w' = AList.update path body (AList.delete (path @ tmpExt) (files w2))) \<or> (\<not> ok \<and> files w' = files w2)"
    using assms wf f' next_fault_files[OF f']
    by (auto simp: writeAtomic_def os_rename_def content_def w2_def split: if_splits)
  then show "q \<noteq> path \<Longrightarrow> q \<noteq> path @ tmpExt \<Longrightarrow> map_of (files w') q = map_of (files w) q"
    and "map_of (files w') path = (if ok then Some body else map_of (files w) path)"
    and "distinct (map fst (files w)) \<Longrightarrow> distinct (map fst (files w'))"
    using ne by (auto simp: w2_def)
qed

lemma path_names: "fst (paths v) = v @ modelExt" "snd (paths v) = v @ metaExt"
  by (simp_all add: paths_def)

lemma entry_frame:
  assumes "map_of (files w') (v @ metaExt) = map_of (files w) (v @ metaExt)"
    and "map_of (files w') (v @ modelExt) = map_of (files w) (v @ modelExt)"
  shows "entry_ok sha um w' v m body = entry_ok sha um w v m body"
  by (simp add: entry_ok_def assms)

lemma publish_inv:
  assumes inv: "reg_inv sha um w" and codec: "mcodec_ok mm um" and v: "validVersion (m_version m) = None"
    and d: "declared sha m body" and p: "publish mm m body s w = (e, s', w')"
  shows "reg_inv sha um w'"
    and "e = None \<Longrightarrow> entry_ok sha um w' (m_version m) m body"
    and "published w' = (if e = None then insert (m_version m) (published w) else published w)"
    and "e = None \<Longrightarrow> m_version m \<notin> published w"
    and "s' = (if e = None then advance m s else s)"
    and "v \<in> published w \<Longrightarrow> entry_ok sha um w' v m0 b0 = entry_ok sha um w v m0 b0"
proof -
  let ?v = "m_version m"
  obtain f w1 where f: "next_fault w = (f, w1)" by fastforce
  then have w1: "files w1 = files w" by simp
  have all: "reg_inv sha um w' \<and> (e = None \<longrightarrow> entry_ok sha um w' ?v m body \<and> ?v \<notin> published w) \<and>
    published w' = (if e = None then insert ?v (published w) else published w) \<and> s' = (if e = None then advance m s else s) \<and>
    (\<forall>v m0 b0. v \<in> published w \<longrightarrow> entry_ok sha um w' v m0 b0 = entry_ok sha um w v m0 b0)"
  proof (cases "f = Fine \<and> map_of (files w) (?v @ metaExt) = None")
    case False
    then obtain err where e: "e = Some err" "s' = s" "files w' = files w"
      using p f w1 by (auto simp: publish_def os_stat_def paths_def split: if_splits)
    have "reg_inv sha um w' = reg_inv sha um w" "published w' = published w"
      "\<And>v m0 b0. entry_ok sha um w' v m0 b0 = entry_ok sha um w v m0 b0"
      by (simp_all only: reg_inv_def published_def entry_ok_def e(3))
    then show ?thesis using inv e by simp
  next
    case True
    obtain ok2 w2 where a: "writeAtomic (?v @ modelExt) body w1 = (ok2, w2)" by fastforce
    note A = writeAtomic_files[OF a]
    have new: "?v \<notin> published w" using True by (simp add: published_def)
    have m2: "map_of (files w2) (u @ metaExt) = map_of (files w) (u @ metaExt)" for u using A(1)[of "u @ metaExt"] w1 by simp
    have o2: "map_of (files w2) (u @ modelExt) = map_of (files w) (u @ modelExt)" if "u \<noteq> ?v" for u
      using A(1)[of "u @ modelExt"] that w1 by simp
    have p2: "published w2 = published w" by (simp add: published_def m2)
    have e2: "entry_ok sha um w2 u m0 b0 = entry_ok sha um w u m0 b0" if "u \<in> published w" for u m0 b0
      by (rule entry_frame) (use m2 o2[of u] that new in auto)
    have "\<exists>m body. entry_ok sha um w2 u m body" if "u \<in> published w" for u
      using inv that e2[OF that] unfolding reg_inv_def by blast
    then have i2: "reg_inv sha um w2" using inv A(3) by (simp add: reg_inv_def p2 w1)
    have run: "publish mm m body s w =
      (if \<not> ok2 then (Some PublishIO, s, w2) else case mm m of None \<Rightarrow> (Some PublishIO, s, w2)
       | Some encoded \<Rightarrow> (case writeAtomic (?v @ metaExt) encoded w2 of (ok, w) \<Rightarrow>
           if \<not> ok then (Some PublishIO, s, w) else (None, advance m s, w)))"
      unfolding publish_def path_names using f True a w1 by (simp add: os_stat_def)
    show ?thesis
    proof (cases "ok2 \<and> mm m \<noteq> None")
      case False
      then have "e = Some PublishIO \<and> s' = s \<and> w' = w2" using p run by (auto split: if_splits option.splits)
      then show ?thesis using i2 p2 e2 by simp
    next
      case True
      then obtain enc where enc: "mm m = Some enc" "um enc = Some m" using codec by (auto simp: mcodec_ok_def)
      obtain ok3 w3 where b: "writeAtomic (?v @ metaExt) enc w2 = (ok3, w3)" by fastforce
      note B = writeAtomic_files[OF b]
      have r: "e = (if ok3 then None else Some PublishIO)" "w' = w3" "s' = (if ok3 then advance m s else s)"
        using p run True enc b by (auto split: if_splits)
      have m3: "map_of (files w3) (u @ metaExt) = (if u = ?v \<and> ok3 then Some enc else map_of (files w2) (u @ metaExt))" for u
        using B(1)[of "u @ metaExt"] B(2) by (cases "u = ?v") auto
      have o3: "map_of (files w3) (u @ modelExt) = map_of (files w2) (u @ modelExt)" for u using B(1)[of "u @ modelExt"] by simp
      have p3: "published w3 = (if ok3 then insert ?v (published w) else published w)"
        using p2 by (auto simp: published_def m3)
      have e3: "entry_ok sha um w3 u m0 b0 = entry_ok sha um w u m0 b0" if "u \<in> published w" for u m0 b0
      proof -
        have "u \<noteq> ?v" using that new by blast
        then have "entry_ok sha um w3 u m0 b0 = entry_ok sha um w2 u m0 b0" using m3 o3 by (intro entry_frame) simp_all
        then show ?thesis using e2[OF that] by simp
      qed
      have mine: "entry_ok sha um w3 ?v m body" if ok3
        using that enc d v A(2) True by (simp add: entry_ok_def m3 o3)
      have "reg_inv sha um w3"
        unfolding reg_inv_def p3
      proof (intro conjI ballI)
        show "distinct (map fst (files w3))" using B(3) i2 by (simp add: reg_inv_def)
        fix u assume u: "u \<in> (if ok3 then insert ?v (published w) else published w)"
        show "\<exists>m body. entry_ok sha um w3 u m body"
        proof (cases "u \<in> published w")
          case True
          then show ?thesis using inv e3 by (auto simp: reg_inv_def)
        next
          case False
          then show ?thesis using u mine by (auto split: if_splits)
        qed
      qed
      then show ?thesis using r p3 e3 mine new by auto
    qed
  qed
  then show "reg_inv sha um w'" and "e = None \<Longrightarrow> entry_ok sha um w' ?v m body"
    and "published w' = (if e = None then insert ?v (published w) else published w)"
    and "e = None \<Longrightarrow> ?v \<notin> published w" and "s' = (if e = None then advance m s else s)"
    and "v \<in> published w \<Longrightarrow> entry_ok sha um w' v m0 b0 = entry_ok sha um w v m0 b0" by simp_all
qed

section \<open>The store and its restart\<close>

definition store_inv :: "(byte list \<Rightarrow> string) \<Rightarrow> (byte list \<Rightarrow> meta option) \<Rightarrow> store \<Rightarrow> world \<Rightarrow> bool" where
  "store_inv sha um s w \<longleftrightarrow> reg_inv sha um w \<and>
     (case latest s of None \<Rightarrow> published w = {}
      | Some m \<Rightarrow> m_version m \<in> published w \<and> (\<forall>v \<in> published w. v \<le> m_version m) \<and>
          (\<exists>body. entry_ok sha um w (m_version m) m body))"

lemma publish_store:
  assumes inv: "store_inv sha um s w" and codec: "mcodec_ok mm um" and v: "validVersion (m_version m) = None"
    and d: "declared sha m body" and p: "publish mm m body s w = (e, s', w')"
  shows "store_inv sha um s' w'"
proof -
  have ri: "reg_inv sha um w" using inv by (simp add: store_inv_def)
  note P = publish_inv[OF ri codec v d p]
  show ?thesis
  proof (cases e)
    case (Some err)
    have "entry_ok sha um w' (m_version l) l b = entry_ok sha um w (m_version l) l b" if "m_version l \<in> published w" for l b
      by (rule P(6)[OF that])
    then show ?thesis using inv P(1,3,5) Some by (auto simp: store_inv_def split: option.splits)
  next
    case None
    have mine: "entry_ok sha um w' (m_version m) m body" by (rule P(2)[OF None])
    have pub: "published w' = insert (m_version m) (published w)" using P(3) None by simp
    show ?thesis
    proof (cases "latest s")
      case none: None
      then have "s' = s\<lparr>latest := Some m, changed := changed s + 1\<rparr>" using P(5) None by (simp add: advance_def)
      moreover have "published w = {}" using inv none by (simp add: store_inv_def)
      ultimately show ?thesis using P(1) pub mine by (auto simp: store_inv_def)
    next
      case (Some l)
      have l: "m_version l \<in> published w" "\<And>v. v \<in> published w \<Longrightarrow> v \<le> m_version l"
        and "\<exists>b. entry_ok sha um w (m_version l) l b" using inv Some by (auto simp: store_inv_def)
      then have old: "\<exists>b. entry_ok sha um w' (m_version l) l b" using P(6)[OF l(1)] by blast
      show ?thesis
      proof (cases "m_version l < m_version m")
        case True
        then have "latest s' = Some m" using P(5) None Some by (simp add: advance_def)
        moreover have "v \<le> m_version m" if "v \<in> published w'" for v
          using that pub l(2)[of v] True by auto
        ultimately show ?thesis using P(1) pub mine by (auto simp: store_inv_def)
      next
        case False
        then have "latest s' = Some l" using P(5) None Some by (simp add: advance_def)
        moreover have "v \<le> m_version l" if "v \<in> published w'" for v
          using that pub l(2)[of v] False by auto
        ultimately show ?thesis using P(1) pub old l(1) by (auto simp: store_inv_def)
      qed
    qed
  qed
qed

text \<open>The names \<open>versions\<close> lists are the published ones, oldest first.\<close>

lemma versions_published:
  assumes "distinct (map fst (files w))" and "versions w = (True, vs, w')"
  shows "set vs = published w" and "sorted vs" and "distinct vs" and "files w' = files w"
proof -
  let ?cut = "\<lambda>p. take (length p - length metaExt) p"
  let ?ms = "filter (has_suffix metaExt) (map fst (files w))"
  obtain f w1 where f: "next_fault w = (f, w1)" by fastforce
  then have vs: "vs = sort (map ?cut ?ms)" "w' = w1" using assms(2) by (auto simp: versions_def split: if_splits)
  show "files w' = files w" using f vs by simp
  have cutb: "?cut p @ metaExt = p" if "p \<in> set ?ms" for p
    using that by (auto simp: has_suffix_def) (metis append_take_drop_id)
  show "set vs = published w"
  proof (intro set_eqI iffI)
    fix v assume "v \<in> set vs"
    then obtain p where p: "p \<in> set ?ms" "v = ?cut p" using vs by auto
    then have "v @ metaExt \<in> fst ` set (files w)" using cutb[OF p(1)] by simp
    then show "v \<in> published w" by (simp add: published_def map_of_eq_None_iff)
  next
    fix v assume "v \<in> published w"
    then have "v @ metaExt \<in> set (map fst (files w))" by (simp add: published_def map_of_eq_None_iff)
    then have "v @ metaExt \<in> set ?ms" by (auto simp: has_suffix_append)
    then have "?cut (v @ metaExt) \<in> ?cut ` set ?ms" by (rule imageI)
    moreover have "set vs = ?cut ` set ?ms" by (simp only: vs(1) set_sort set_map)
    moreover have "?cut (v @ metaExt) = v" by simp
    ultimately show "v \<in> set vs" by metis
  qed
  have "inj_on ?cut (set ?ms)" using cutb by (metis (no_types, lifting) inj_onI)
  then have "distinct (map ?cut ?ms)" using assms(1) by (simp add: distinct_map distinct_filter del: set_map filter_set)
  then show "sorted vs" "distinct vs" using vs by simp_all
qed

lemma last_is_max:
  fixes vs :: "string list"
  assumes "sorted vs" and "vs \<noteq> []"
  shows "last vs \<in> set vs" and "u \<in> set vs \<Longrightarrow> u \<le> last vs"
proof -
  show "last vs \<in> set vs" using assms(2) by simp
  have "vs = butlast vs @ [last vs]" using assms(2) by simp
  with assms(1) have "\<forall>u \<in> set (butlast vs). u \<le> last vs" by (metis list.set_intros(1) sorted_append)
  moreover have "u \<in> set (butlast vs) \<or> u = last vs" if "u \<in> set vs"
    using that \<open>vs = butlast vs @ [last vs]\<close> by (metis Un_iff empty_iff insert_iff list.set(1,2) set_append)
  ultimately show "u \<in> set vs \<Longrightarrow> u \<le> last vs" by auto
qed

text \<open>A restart on the same directory: the store comes back with the version that was latest.\<close>

lemma restart:
  assumes inv: "store_inv sha um s w" and no: "faults w = []"
  shows "\<exists>s'. newStore um w = (Some s', w) \<and> latest s' = latest s \<and> store_inv sha um s' w"
proof -
  have d: "distinct (map fst (files w))" using inv by (simp add: store_inv_def reg_inv_def)
  obtain vs where vs: "versions w = (True, vs, w)" using no by (simp add: versions_def)
  note V = versions_published[OF d vs]
  show ?thesis
  proof (cases "latest s")
    case None
    then have "vs = []" using inv V(1) by (simp add: store_inv_def)
    then have "newStore um w = (Some \<lparr>latest = None, changed = 0\<rparr>, w)" using no vs by (simp add: newStore_def)
    then show ?thesis using inv None by (simp add: store_inv_def)
  next
    case (Some m)
    have m: "m_version m \<in> published w" "\<And>v. v \<in> published w \<Longrightarrow> v \<le> m_version m"
      and ex: "\<exists>b. entry_ok sha um w (m_version m) m b" using inv Some by (auto simp: store_inv_def)
    have ne: "vs \<noteq> []" using V(1) m(1) by auto
    have "last vs \<le> m_version m" using last_is_max(1)[OF V(2) ne] m(2) V(1) by blast
    moreover have "m_version m \<le> last vs" using last_is_max(2)[OF V(2) ne] m(1) V(1) by blast
    ultimately have "last vs = m_version m" by (rule antisym)
    moreover have "read_meta um (m_version m) w = (Inr m, w)"
      using ex no by (auto simp: read_meta_def os_read_def paths_def entry_ok_def)
    ultimately have "newStore um w = (Some \<lparr>latest = Some m, changed = 0\<rparr>, w)"
      using no vs ne by (simp add: newStore_def)
    then show ?thesis using inv Some by (simp add: store_inv_def)
  qed
qed

text \<open>What is published is what is fetched.\<close>

lemma fetch_published:
  assumes inv: "reg_inv sha um w" and v: "v \<in> published w" and no: "faults w = []"
  shows "\<exists>is m body. GetModel um v s w = (is, OK, w) \<and> receive sha is = Inr (m, body) \<and> entry_ok sha um w v m body"
proof -
  obtain m body where e: "entry_ok sha um w v m body" using inv v by (auto simp: reg_inv_def)
  then have "validVersion v = None" by (simp add: entry_ok_def)
  moreover from this have "v \<noteq> []" by (auto simp: validVersion_def)
  ultimately have g: "GetModel um v s w = (Item (Some m) [] # map (Item None) (chunks chunkBytes body), OK, w)"
    using e no by (auto simp: GetModel_def Let_def read_meta_def os_read_def paths_def entry_ok_def)
  have "concat (chunks chunkBytes body) = body" by (rule concat_chunks) (simp add: chunkBytes_def)
  then have "receive sha (Item (Some m) [] # map (Item None) (chunks chunkBytes body)) = Inr (m, body)"
    using e unfolding receive_iff by (metis entry_ok_def)
  then show ?thesis using g e by blast
qed

text \<open>A publication through the service.\<close>

lemma PublishModel_store:
  assumes inv: "store_inv sha um s w" and codec: "mcodec_ok mm um" and p: "PublishModel sha mm is s w = (st, r, s', w')"
  shows "store_inv sha um s' w'"
    and "st = OK \<Longrightarrow> \<exists>m body. r = Some m \<and> m_version m \<notin> published w \<and> entry_ok sha um w' (m_version m) m body"
    and "st \<noteq> OK \<Longrightarrow> published w' = published w \<and> s' = s"
    and "v \<in> published w \<Longrightarrow> entry_ok sha um w' v m0 b0 = entry_ok sha um w v m0 b0"
proof -
  have all: "store_inv sha um s' w' \<and>
    (st = OK \<longrightarrow> (\<exists>m body. r = Some m \<and> m_version m \<notin> published w \<and> entry_ok sha um w' (m_version m) m body)) \<and>
    (st \<noteq> OK \<longrightarrow> published w' = published w \<and> s' = s) \<and>
    (\<forall>v m0 b0. v \<in> published w \<longrightarrow> entry_ok sha um w' v m0 b0 = entry_ok sha um w v m0 b0)"
  proof (cases "receive sha is")
    case (Inl e)
    then have "st \<noteq> OK" "s' = s" "w' = w" using p by (cases e; auto simp: PublishModel_def)+
    then show ?thesis using inv by simp
  next
    case (Inr mb)
    obtain m body where mb: "mb = (m, body)" by fastforce
    have d: "declared sha m body" using Inr mb receive_iff by blast
    show ?thesis
    proof (cases "validate m body")
      case (Some e)
      then have "st \<noteq> OK" "s' = s" "w' = w" using p Inr mb by (simp_all add: PublishModel_def)
      then show ?thesis using inv by simp
    next
      case None
      obtain m1 w1 where st1: "stamp m w = (m1, w1)" by fastforce
      have m1: "m_version m1 = m_version m" "declared sha m1 body" "files w1 = files w"
        using st1 d by (auto simp: stamp_def clock_now_def declared_def split: if_splits)
      have v1: "validVersion (m_version m1) = None" using None m1(1) by (auto simp: validate_def split: option.splits)
      obtain e s2 w2 where pb: "publish mm m1 body s w1 = (e, s2, w2)" by (metis prod_cases3)
      have same: "published w1 = published w" "entry_ok sha um w1 v x b = entry_ok sha um w v x b" for v x b
        by (simp_all only: published_def entry_ok_def m1(3))
      have inv1: "store_inv sha um s w1 = store_inv sha um s w" by (simp only: store_inv_def reg_inv_def same m1(3))
      with inv have inv1: "store_inv sha um s w1" by simp
      then have ri: "reg_inv sha um w1" by (simp add: store_inv_def)
      note P = publish_inv[OF ri codec v1 m1(2) pb, unfolded same]
      have S: "store_inv sha um s2 w2" by (rule publish_store[OF inv1 codec v1 m1(2) pb])
      have r: "s' = s2" "w' = w2" "st = (case e of None \<Rightarrow> OK | Some Exists \<Rightarrow> AlreadyExists | Some PublishIO \<Rightarrow> Internal)"
        "e = None \<longrightarrow> r = Some m1"
        using p Inr mb None st1 pb by (auto simp: PublishModel_def split: option.splits publish_error.splits)
      show ?thesis
      proof (cases e)
        case None
        then show ?thesis using S P(2,4,6) r by auto
      next
        case (Some err)
        then have "st \<noteq> OK" using r(3) by (cases err) auto
        then show ?thesis using S P(3,5,6) r Some by auto
      qed
    qed
  qed
  then show "store_inv sha um s' w'"
    and "st = OK \<Longrightarrow> \<exists>m body. r = Some m \<and> m_version m \<notin> published w \<and> entry_ok sha um w' (m_version m) m body"
    and "st \<noteq> OK \<Longrightarrow> published w' = published w \<and> s' = s"
    and "v \<in> published w \<Longrightarrow> entry_ok sha um w' v m0 b0 = entry_ok sha um w v m0 b0" by simp_all
qed

end
