(* ===== verification/Registry_Watch.thy ===== *)
theory Registry_Watch
  imports Registry_Store
begin

text \<open>
  \<^verbatim>\<open>WatchModels\<close>, the handler, beside publications by other goroutines. The handler takes the latest
  metadata and the channel together, under the lock; it either sends and goes round, or waits for that
  channel to be closed. The step relation interleaves it with publications at every point between.
\<close>

section \<open>The steps\<close>

datatype phase = Looking | Waiting nat | Cancelled

record watch =
  w_store :: store
  w_seen :: string
  w_phase :: phase
  w_sent :: "string list"

text \<open>One turn of the loop: the snapshot, and the event or the wait that follows from it.\<close>

definition turn :: "watch \<Rightarrow> watch" where
  "turn x =
     (case snapshot (w_store x) of (m, ch) \<Rightarrow>
        (case m of
           Some m \<Rightarrow>
             (if w_seen x < m_version m
              then x\<lparr>w_sent := w_sent x @ [m_version m], w_seen := m_version m\<rparr>
              else x\<lparr>w_phase := Waiting ch\<rparr>)
         | None \<Rightarrow> x\<lparr>w_phase := Waiting ch\<rparr>))"

text \<open>A channel is closed once the store has moved on to a later one.\<close>

definition closed :: "watch \<Rightarrow> nat \<Rightarrow> bool" where
  "closed x ch \<longleftrightarrow> ch < changed (w_store x)"

inductive watcher_step :: "watch \<Rightarrow> watch \<Rightarrow> bool" where
  look: "w_phase x = Looking \<Longrightarrow> watcher_step x (turn x)"
| wake: "w_phase x = Waiting ch \<Longrightarrow> closed x ch \<Longrightarrow> watcher_step x (x\<lparr>w_phase := Looking\<rparr>)"

inductive watch_step :: "watch \<Rightarrow> watch \<Rightarrow> bool" where
  own: "watcher_step x y \<Longrightarrow> watch_step x y"
| published: "watch_step x (x\<lparr>w_store := advance m (w_store x)\<rparr>)"
| cancel: "w_phase x = Waiting ch \<Longrightarrow> watch_step x (x\<lparr>w_phase := Cancelled\<rparr>)"

inductive_cases watcher_stepE: "watcher_step x y"
inductive_cases watch_stepE: "watch_step x y"

code_pred watcher_step .

definition WatchModels :: "store \<Rightarrow> string \<Rightarrow> watch" where
  "WatchModels s since = \<lparr>w_store = s, w_seen = since, w_phase = Looking, w_sent = []\<rparr>"

section \<open>The invariant\<close>

definition newest :: "watch \<Rightarrow> string option" where
  "newest x = map_option m_version (latest (w_store x))"

definition behind :: "watch \<Rightarrow> bool" where
  "behind x \<longleftrightarrow> (case newest x of None \<Rightarrow> False | Some v \<Rightarrow> w_seen x < v)"

text \<open>
  The events ascend from the watcher's version, the last one is what it has seen, and a watcher that
  waits on the channel that is still open is not behind.
\<close>

definition watch_inv :: "string \<Rightarrow> watch \<Rightarrow> bool" where
  "watch_inv since x \<longleftrightarrow> sorted_wrt (<) (since # w_sent x) \<and> last (since # w_sent x) = w_seen x \<and>
     (\<forall>ch. w_phase x = Waiting ch \<longrightarrow> ch \<le> changed (w_store x) \<and> (ch = changed (w_store x) \<longrightarrow> \<not> behind x))"

lemma watch_start: "watch_inv since (WatchModels s since)"
  by (simp add: watch_inv_def WatchModels_def)

lemma sorted_wrt_snoc_less:
  fixes x :: "'a::linorder"
  assumes "sorted_wrt (<) xs" and "xs \<noteq> []" and "last xs < x"
  shows "sorted_wrt (<) (xs @ [x])"
  using assms
proof (induction xs rule: rev_induct)
  case (snoc y ys)
  then show ?case by (auto simp: sorted_wrt_append)
qed simp

lemma turn_inv: "watch_inv since x \<Longrightarrow> w_phase x = Looking \<Longrightarrow> watch_inv since (turn x)"
proof -
  assume inv: "watch_inv since x" and l: "w_phase x = Looking"
  show ?thesis
  proof (cases "behind x")
    case True
    then obtain m where m: "latest (w_store x) = Some m" "w_seen x < m_version m"
      by (auto simp: behind_def newest_def split: option.splits)
    have "sorted_wrt (<) ((since # w_sent x) @ [m_version m])"
      by (rule sorted_wrt_snoc_less) (use inv m in \<open>simp_all add: watch_inv_def\<close>)
    then show ?thesis using m l by (simp add: turn_def snapshot_def watch_inv_def)
  next
    case False
    then have "turn x = x\<lparr>w_phase := Waiting (changed (w_store x))\<rparr>"
      by (auto simp: turn_def snapshot_def behind_def newest_def split: option.splits)
    moreover have "behind (x\<lparr>w_phase := p\<rparr>) = behind x" for p
      by (cases "latest (w_store x)") (simp_all add: behind_def newest_def)
    ultimately show ?thesis using inv False by (simp add: watch_inv_def)
  qed
qed

lemma watch_step_inv: "watch_step x y \<Longrightarrow> watch_inv since x \<Longrightarrow> watch_inv since y"
proof (induction rule: watch_step.induct)
  case (own x y)
  from own(1) show ?case
  proof cases
    case look
    then show ?thesis using turn_inv own(2) by simp
  next
    case (wake ch)
    then show ?thesis using own(2) by (simp add: watch_inv_def)
  qed
next
  case (published x m)
  then show ?case
    by (auto simp: watch_inv_def advance_def behind_def newest_def split: option.splits if_splits)
next
  case (cancel x ch)
  then show ?case by (simp add: watch_inv_def)
qed

lemma watch_reachable: "watch_step\<^sup>*\<^sup>* (WatchModels s since) x \<Longrightarrow> watch_inv since x"
  by (induction rule: rtranclp_induct) (auto intro: watch_start watch_step_inv)

section \<open>No wakeup is lost\<close>

text \<open>From every state in which it is behind, the watcher can step by itself, and is then caught up.\<close>

lemma watcher_catches_up:
  assumes "watch_inv since x" and "w_phase x \<noteq> Cancelled" and "newest x = Some v" and "behind x"
  shows "\<exists>y. watcher_step\<^sup>*\<^sup>* x y \<and> w_store y = w_store x \<and> w_sent y = w_sent x @ [v] \<and> w_seen y = v"
proof -
  obtain m where m: "latest (w_store x) = Some m" "m_version m = v" "w_seen x < v"
    using assms(3,4) by (auto simp: newest_def behind_def)
  have sent: "w_store (turn z) = w_store x \<and> w_sent (turn z) = w_sent x @ [v] \<and> w_seen (turn z) = v"
    if "w_store z = w_store x" "w_seen z = w_seen x" "w_sent z = w_sent x" for z
    using that m by (simp add: turn_def snapshot_def)
  show ?thesis
  proof (cases "w_phase x")
    case Looking
    then show ?thesis using sent[of x] watcher_step.look[of x] by (intro exI[of _ "turn x"]) auto
  next
    case (Waiting ch)
    let ?z = "x\<lparr>w_phase := Looking\<rparr>"
    have "closed x ch" using assms(1,4) Waiting by (auto simp: watch_inv_def closed_def le_less)
    then have "watcher_step x ?z" by (rule watcher_step.wake[OF Waiting])
    moreover have "watcher_step ?z (turn ?z)" by (rule watcher_step.look) simp
    ultimately have "watcher_step\<^sup>*\<^sup>* x (turn ?z)" by simp
    then show ?thesis using sent[of ?z] by (intro exI[of _ "turn ?z"]) auto
  qed (use assms in simp)
qed

end
