(* ===== verification/Features.thy ===== *)
theory Features
  imports Floats
begin

text \<open>
  \<^verbatim>\<open>internal/features/features.go\<close>: the layout of the feature vector and its extraction from what a
  shard knows about an eviction candidate.
\<close>

section \<open>Layout\<close>

definition HistoryLen :: nat where "HistoryLen = 8"

definition SizeBytes :: nat where "SizeBytes = 0"
definition RecencyMS :: nat where "RecencyMS = 1"
definition AgeMS :: nat where "AgeMS = 2"
definition Accesses :: nat where "Accesses = 3"
definition Frequency :: nat where "Frequency = 4"
definition ReuseRate :: nat where "ReuseRate = 5"
definition Delta0 :: nat where "Delta0 = 6"
definition Count :: nat where "Count = Delta0 + HistoryLen"

lemmas layout_defs = HistoryLen_def SizeBytes_def RecencyMS_def AgeMS_def Accesses_def Frequency_def
  ReuseRate_def Delta0_def Count_def

text \<open>\<open>buildNames\<close> fills a slice of \<open>Count\<close> empty strings by index.\<close>

definition buildNames :: "string list" where
  "buildNames =
     (let n = replicate Count '''';
          n = n[SizeBytes := ''size_bytes''];
          n = n[RecencyMS := ''recency_ms''];
          n = n[AgeMS := ''age_ms''];
          n = n[Accesses := ''accesses''];
          n = n[Frequency := ''frequency''];
          n = n[ReuseRate := ''reuse_rate'']
      in fold (\<lambda>i n. n[Delta0 + i := ''delta_'' @ itoa i]) [0..<HistoryLen] n)"

section \<open>Extraction\<close>

record input =
  in_deltas :: "u32 list"
  in_now_us :: int
  in_last_access_us :: int
  in_admitted_us :: int
  in_size_bytes :: int
  in_accesses :: u32
  in_frequency :: byte

text \<open>
  \<open>Extract\<close> writes the columns into \<open>dst\<close> one after the other; an index past the end of \<open>dst\<close>
  panics, which is \<open>None\<close>.
\<close>

definition Extract :: "fl list \<Rightarrow> input \<Rightarrow> fl list option" where
  "Extract dst inp =
     (if length dst < Count then None
      else
        let recency = wrap64 (in_now_us inp - in_last_access_us inp);
            age = wrap64 (in_now_us inp - in_admitted_us inp);
            recency = (if recency < 0 then 0 else recency);
            age = (if age < 0 then 0 else age);
            dst = dst[SizeBytes := f_of_int F32 (in_size_bytes inp)];
            dst = dst[RecencyMS := f_of_int F32 (go_div recency 1000)];
            dst = dst[AgeMS := f_of_int F32 (go_div age 1000)];
            dst = dst[Accesses := f_of_int F32 (uint (in_accesses inp))];
            dst = dst[Frequency := f_of_int F32 (uint (in_frequency inp))];
            dst = dst[ReuseRate :=
              fdiv F32 (f_of_int F32 (uint (in_accesses inp)))
                (fadd F32 (fdiv F32 (f_of_int F32 age) (f_of_int F32 1000000)) (f_of_int F32 1))]
        in Some (fold (\<lambda>i dst. dst[Delta0 + i := f_of_int F32 (uint (in_deltas inp ! i))])
             [0..<HistoryLen] dst))"

section \<open>Properties\<close>

lemma upt_History: "[0..<HistoryLen] = [0, 1, 2, 3, 4, 5, 6, 7]"
  by (simp add: HistoryLen_def upt_rec)

lemma upt_14: "[0..<14] = [0, 1, 2, 3, 4, 5, 6, 7, 8, 9, 10, 11, 12, 13]"
  by (simp add: upt_rec)

lemma map_nth_upt_take: "n \<le> length xs \<Longrightarrow> map ((!) xs) [0..<n] = take n xs"
  by (intro nth_equalityI) auto

lemma length_extract: "Extract dst inp = Some v \<Longrightarrow> length v = length dst"
  by (auto simp: Extract_def Let_def upt_History split: if_splits)

text \<open>The elapsed times the columns are computed from never go negative and never wrap upwards.\<close>

definition elapsed :: "int \<Rightarrow> int \<Rightarrow> int" where
  "elapsed now since = max 0 (wrap64 (now - since))"

lemma elapsed_bounds: "0 \<le> elapsed now since" "elapsed now since < 2 ^ 63"
  using wrap64_range[of "now - since"] by (auto simp: elapsed_def)

lemma elapsed_if [simp]:
  "(if wrap64 (now - since) < 0 then 0 else wrap64 (now - since)) = elapsed now since"
  by (simp add: elapsed_def)

definition reuse_rate :: "u32 \<Rightarrow> int \<Rightarrow> fl" where
  "reuse_rate acc age =
     fdiv F32 (f_of_int F32 (uint acc))
       (fadd F32 (fdiv F32 (f_of_int F32 age) (f_of_int F32 1000000)) (f_of_int F32 1))"

text \<open>Extraction overwrites the first \<open>Count\<close> cells and leaves the rest of \<open>dst\<close> alone.\<close>

lemma extract_columns:
  assumes "Count \<le> length dst"
  shows "Extract dst inp = Some (
    [f_of_int F32 (in_size_bytes inp),
     f_of_int F32 (elapsed (in_now_us inp) (in_last_access_us inp) div 1000),
     f_of_int F32 (elapsed (in_now_us inp) (in_admitted_us inp) div 1000),
     f_of_int F32 (uint (in_accesses inp)),
     f_of_int F32 (uint (in_frequency inp)),
     reuse_rate (in_accesses inp) (elapsed (in_now_us inp) (in_admitted_us inp))]
    @ map (\<lambda>i. f_of_int F32 (uint (in_deltas inp ! i))) [0..<HistoryLen] @ drop Count dst)"
proof -
  have "\<exists>a0 a1 a2 a3 a4 a5 a6 a7 a8 a9 a10 a11 a12 a13 rest.
    dst = [a0, a1, a2, a3, a4, a5, a6, a7, a8, a9, a10, a11, a12, a13] @ rest"
  proof -
    have "map ((!) dst) [0..<14] = take 14 dst"
      using assms by (simp add: layout_defs map_nth_upt_take)
    then have "dst = map ((!) dst) [0..<14] @ drop 14 dst" by simp
    then show ?thesis by (simp only: upt_14 list.map) blast
  qed
  then obtain a0 a1 a2 a3 a4 a5 a6 a7 a8 a9 a10 a11 a12 a13 rest where
    d: "dst = [a0, a1, a2, a3, a4, a5, a6, a7, a8, a9, a10, a11, a12, a13] @ rest" by blast
  have e: "go_div (elapsed n t) 1000 = elapsed n t div 1000" for n t
    using elapsed_bounds(1)[of n t] by simp
  show ?thesis
    by (simp add: Extract_def d upt_History e reuse_rate_def[symmetric] Let_def)
      (simp add: layout_defs numeral_eq_Suc)
qed

lemma uint_f32_bounded:
  "\<exists>r. f_of_int F32 (uint (w :: 'a::len word)) = Fin r \<and> 0 \<le> r \<and> r \<le> 2 ^ LENGTH('a)"
  if "LENGTH('a) \<le> 64"
  using f_of_int_bounded[of F32 "uint w" "LENGTH('a)"] that uint_lt2p[of w]
  by (auto intro: less_imp_le)

lemma finite_uint: "LENGTH('a) \<le> 64 \<Longrightarrow> finite_fl (f_of_int F32 (uint (w :: 'a::len word)))"
  using uint_f32_bounded[of w] by auto

lemma f32_elapsed: "0 \<le> a \<Longrightarrow> a < 2 ^ 63 \<Longrightarrow> \<exists>r. f_of_int F32 a = Fin r \<and> 0 \<le> r \<and> r \<le> 2 ^ 63"
  using f_of_int_bounded[of F32 a 63] by auto

text \<open>The one column that divides: its divisor is at least one, so it is finite as well.\<close>

lemma finite_reuse_rate:
  assumes "0 \<le> age" and "age < 2 ^ 63"
  shows "finite_fl (reuse_rate acc age)"
proof -
  obtain a where a: "f_of_int F32 age = Fin a" "0 \<le> a" "a \<le> 2 ^ 63"
    using f32_elapsed[OF assms] by blast
  have m: "f_of_int F32 1000000 = Fin 1000000" and one: "f_of_int F32 1 = Fin 1"
    using f_of_int_exact[of F32 1000000] f_of_int_exact[of F32 1] by simp_all
  have "a / 1000000 \<le> 2 powi 63" using a(3) by simp
  then obtain s where s: "fdiv F32 (Fin a) (Fin 1000000) = Fin s" "0 \<le> s" "s \<le> 2 ^ 63"
    using fround_bounded[of F32 "a / 1000000" 63] a(2) by auto
  have "s + 1 \<le> 2 powi 64" using s(3) by simp
  then obtain d where d: "fadd F32 (Fin s) (Fin 1) = Fin d"
    using fround_bounded[of F32 "s + 1" 64] s(2) by auto
  have "Fin 1 \<le> fround F32 (s + 1)"
    using fround_ge_int[of F32 1 "s + 1"] s(2) by simp
  with d have d1: "1 \<le> d" by simp
  obtain n where n: "f_of_int F32 (uint acc) = Fin n" "0 \<le> n" "n \<le> 2 ^ 32"
    using uint_f32_bounded[of acc] by auto
  have "n / d \<le> n" using n(2) d1 by (simp add: divide_le_eq mult_left_mono[of 1 d n, simplified])
  then have "0 \<le> n / d" "n / d \<le> 2 powi 32" using n d1 by auto
  then obtain r where "fround F32 (n / d) = Fin r"
    using fround_bounded[of F32 "n / d" 32] by auto
  then have "finite_fl (fdiv F32 (Fin n) (Fin d))" using d1 by auto
  then show ?thesis by (simp only: reuse_rate_def a(1) m one s(1) d n(1))
qed

lemma extract_finite:
  assumes "Extract dst inp = Some v" and "in_i32 (in_size_bytes inp)" and "0 \<le> in_size_bytes inp"
    and "i < Count"
  shows "finite_fl (v ! i)"
proof -
  let ?age = "elapsed (in_now_us inp) (in_admitted_us inp)"
  let ?rec = "elapsed (in_now_us inp) (in_last_access_us inp)"
  have len: "Count \<le> length dst" using assms(1) by (simp add: Extract_def split: if_splits)
  have "finite_fl (f_of_int F32 (in_size_bytes inp))"
    using f_of_int_bounded[of F32 "in_size_bytes inp" 31] assms by auto
  moreover have "finite_fl (f_of_int F32 (e div 1000))" if "e \<in> {?age, ?rec}" for e
  proof -
    have "0 \<le> e" "e < 2 ^ 63" using that elapsed_bounds by auto
    then show ?thesis using f32_elapsed[of "e div 1000"] by fastforce
  qed
  moreover have "finite_fl (f_of_int F32 (uint (in_accesses inp)))"
    "finite_fl (f_of_int F32 (uint (in_frequency inp)))"
    "\<And>j. finite_fl (f_of_int F32 (uint (in_deltas inp ! j)))"
    by (simp_all add: finite_uint)
  moreover have "finite_fl (reuse_rate (in_accesses inp) ?age)"
    using elapsed_bounds by (intro finite_reuse_rate)
  moreover have "i \<in> {0, 1, 2, 3, 4, 5, 6, 7, 8, 9, 10, 11, 12, 13}"
    using assms(4) by (simp add: layout_defs) presburger
  ultimately show ?thesis
    using assms(1) extract_columns[OF len, of inp] by (auto simp: upt_History)
qed

end
