(* ===== verification/Entry.thy ===== *)
theory Entry
  imports Features
begin

text \<open>
  \<^verbatim>\<open>internal/cache/entry.go\<close>: a cached object with the access history every policy scores it on.
  Timestamps are \<open>int64\<close> microseconds, the deltas \<open>uint32\<close> milliseconds, newest first.
\<close>

record entry =
  e_value :: "byte list"
  e_key :: u64
  last_access :: int
  admitted :: int
  expires :: int
  deltas :: "u32 list"
  e_size :: int
  e_accesses :: u32
  e_freq :: byte

section \<open>Operations\<close>

definition expired :: "entry \<Rightarrow> int \<Rightarrow> bool" where
  "expired e now \<longleftrightarrow> expires e \<noteq> 0 \<and> expires e \<le> now"

text \<open>\<open>touch\<close> folds an access into the history: the gap, clamped to \<open>uint32\<close> milliseconds, shifts in.\<close>

definition touch :: "int \<Rightarrow> entry \<Rightarrow> entry" where
  "touch now e =
     (let gap = wrap64 (now - last_access e);
          gap = (if gap < 0 then 0 else gap);
          ms = go_div gap 1000;
          ms = (if 2 ^ 32 - 1 < ms then 2 ^ 32 - 1 else ms)
      in e\<lparr>deltas := word_of_int ms # take (HistoryLen - 1) (deltas e),
           last_access := now,
           e_accesses := (if e_accesses e < - 1 then e_accesses e + 1 else e_accesses e),
           e_freq := (if e_freq e < 3 then e_freq e + 1 else e_freq e)\<rparr>)"

text \<open>The entry \<open>insert\<close> builds in \<^verbatim>\<open>shard.go\<close>; the array of deltas starts as zeros.\<close>

definition new_entry :: "u64 \<Rightarrow> byte list \<Rightarrow> int \<Rightarrow> int \<Rightarrow> entry" where
  "new_entry k v now dl =
     \<lparr>e_value = v, e_key = k, last_access = now, admitted = now, expires = dl,
      deltas = replicate HistoryLen 0, e_size = wrap32 (int (length v)), e_accesses = 1, e_freq = 1\<rparr>"

section \<open>Well-formed entries\<close>

definition wf_entry :: "entry \<Rightarrow> bool" where
  "wf_entry e \<longleftrightarrow> length (deltas e) = HistoryLen \<and> e_freq e \<le> 3 \<and> 0 < e_accesses e \<and>
     0 \<le> e_size e \<and> e_size e = int (length (e_value e))"

lemma wf_entryD:
  "wf_entry e \<Longrightarrow> length (deltas e) = HistoryLen" "wf_entry e \<Longrightarrow> e_freq e \<le> 3"
  "wf_entry e \<Longrightarrow> 0 \<le> e_size e" "wf_entry e \<Longrightarrow> e_size e = int (length (e_value e))"
  by (simp_all add: wf_entry_def)

lemma wf_new_entry: "length v < 2 ^ 31 \<Longrightarrow> wf_entry (new_entry k v now dl)"
  by (simp add: wf_entry_def new_entry_def wrap_simps)

lemma touch_freq: "unat (e_freq (touch now e)) = min 3 (Suc (unat (e_freq e)))" if "e_freq e \<le> 3"
proof (cases "e_freq e < 3")
  case True
  then have "e_freq e < - 1" by (rule less_trans) simp
  then have "unat (e_freq e + 1) = Suc (unat (e_freq e))" by (rule inc_below_max)
  with True show ?thesis by (simp add: touch_def Let_def word_less_nat_alt)
next
  case False
  with that have "e_freq e = 3" by simp
  then show ?thesis by (simp add: touch_def Let_def)
qed

lemma touch_accesses:
  "unat (e_accesses (touch now e)) = min (2 ^ 32 - 1) (Suc (unat (e_accesses e)))"
proof (cases "e_accesses e < - 1")
  case True
  then show ?thesis using inc_below_max[OF True] unsigned_less[where ?'a = nat, of "e_accesses e + 1"]
    by (simp add: touch_def Let_def)
next
  case False
  then have "e_accesses e = - 1" by (metis word_order.not_eq_extremum)
  moreover have "unat (- 1 :: u32) = 2 ^ 32 - 1"
    by (simp add: unsigned_minus_1_eq_mask mask_eq_exp_minus_1)
  ultimately show ?thesis by (simp add: touch_def Let_def)
qed

lemma touch_fields [simp, frame_simps]:
  "e_value (touch now e) = e_value e" "e_key (touch now e) = e_key e"
  "admitted (touch now e) = admitted e" "expires (touch now e) = expires e"
  "e_size (touch now e) = e_size e" "last_access (touch now e) = now"
  by (simp_all add: touch_def Let_def)

lemma wf_touch [intro]:
  assumes "wf_entry e"
  shows "wf_entry (touch now e)"
proof -
  have "unat (e_freq (touch now e)) \<le> 3"
    using touch_freq[of e now] assms by (simp add: wf_entry_def)
  then have "e_freq (touch now e) \<le> 3" by (simp add: word_le_nat_alt)
  moreover have "0 < unat (e_accesses (touch now e))" by (simp add: touch_accesses)
  then have "0 < e_accesses (touch now e)" by (simp add: word_less_nat_alt)
  moreover have "length (deltas (touch now e)) = HistoryLen"
    using assms by (simp add: touch_def Let_def wf_entry_def HistoryLen_def)
  ultimately show ?thesis using assms by (simp add: wf_entry_def)
qed

section \<open>The history of a run of accesses\<close>

text \<open>The gap an access at \<open>now\<close> records after one at \<open>prev\<close>.\<close>

definition gap_ms :: "int \<Rightarrow> int \<Rightarrow> u32" where
  "gap_ms prev now = word_of_int (min (elapsed now prev div 1000) (2 ^ 32 - 1))"

fun gaps :: "int \<Rightarrow> int list \<Rightarrow> u32 list" where
  "gaps prev [] = []"
| "gaps prev (t # ts) = gap_ms prev t # gaps t ts"

definition touches :: "int list \<Rightarrow> entry \<Rightarrow> entry" where
  "touches ts e = fold touch ts e"

lemma touch_deltas: "deltas (touch now e) = gap_ms (last_access e) now # take (HistoryLen - 1) (deltas e)"
proof -
  have "go_div (elapsed now (last_access e)) 1000 = elapsed now (last_access e) div 1000"
    using elapsed_bounds(1)[of now "last_access e"] by simp
  then show ?thesis by (simp add: touch_def Let_def gap_ms_def min_def)
qed

lemma touches_simps [simp]:
  "touches [] e = e" "touches (t # ts) e = touches ts (touch t e)"
  by (simp_all add: touches_def)

lemma touches_frame [simp]:
  "e_value (touches ts e) = e_value e" "e_key (touches ts e) = e_key e"
  "admitted (touches ts e) = admitted e" "expires (touches ts e) = expires e"
  "e_size (touches ts e) = e_size e"
  by (induction ts arbitrary: e) simp_all

lemma wf_touches: "wf_entry e \<Longrightarrow> wf_entry (touches ts e)"
  by (induction ts arbitrary: e) auto

lemma touches_accesses:
  "unat (e_accesses (touches ts e)) = min (2 ^ 32 - 1) (unat (e_accesses e) + length ts)"
proof (induction ts arbitrary: e)
  case Nil
  show ?case using unsigned_less[where ?'a = nat, of "e_accesses e"] by simp
next
  case (Cons t ts)
  then show ?case by (simp add: touch_accesses)
qed

lemma touches_freq:
  "wf_entry e \<Longrightarrow> unat (e_freq (touches ts e)) = min 3 (unat (e_freq e) + length ts)"
proof (induction ts arbitrary: e)
  case Nil
  then show ?case by (simp add: wf_entry_def word_le_nat_alt)
next
  case (Cons t ts)
  then show ?case using touch_freq[of e t] wf_touch[of e t] by (simp add: wf_entry_def)
qed

lemma touches_deltas:
  "length (deltas e) = HistoryLen \<Longrightarrow>
   deltas (touches ts e) = take HistoryLen (rev (gaps (last_access e) ts) @ deltas e)"
proof (induction ts arbitrary: e)
  case (Cons t ts)
  let ?e = "touch t e"
  have len: "length (deltas ?e) = HistoryLen" using Cons.prems by (simp add: touch_deltas HistoryLen_def)
  have "take HistoryLen (rev (gaps t ts) @ g # take (HistoryLen - 1) d)
      = take HistoryLen ((rev (gaps t ts) @ [g]) @ d)" for g d
    by (simp add: take_Cons' HistoryLen_def)
  then show ?case using Cons.IH[OF len] by (simp add: touch_deltas)
qed simp

end
