(* ===== verification/Model_Eval.thy ===== *)
theory Model_Eval
  imports Go_Text
begin

text \<open>
  \<^verbatim>\<open>internal/model/model.go\<close>, the evaluator: all nodes of all trees in one array, children encoded as
  an index or the complement of a leaf index, and \<open>Raw\<close>, the loop that walks every tree.

  The walk is a loop that the code runs without a bound, so it is a \<open>partial_function\<close>: \<open>None\<close> is a
  walk that never ends, and an index out of range is a panic. \<open>tree_at\<close> says that an index is the root
  of a finite tree with all its indices in range; from there every walk ends at a leaf.
\<close>

record node =
  threshold :: fl
  feature :: int
  left :: int
  right :: int

record model =
  objective :: string
  nodes :: "node list"
  leaves :: "fl list"
  roots :: "int list"
  sigmoid :: fl
  num_features :: int

datatype panic = IndexOutOfRange

text \<open>Go's \<open>^v\<close> on an \<open>int32\<close>.\<close>

definition compl :: "int \<Rightarrow> int" where
  "compl v = - v - 1"

lemma compl_compl [simp]: "compl (compl v) = v"
  by (simp add: compl_def)

lemma compl_nonneg [simp]: "(0 \<le> compl v) = (v < 0)"
  by (auto simp: compl_def)

section \<open>Accessors\<close>

definition NumFeatures :: "model \<Rightarrow> int" where "NumFeatures m = num_features m"
definition NumTrees :: "model \<Rightarrow> nat" where "NumTrees m = length (roots m)"
definition NumNodes :: "model \<Rightarrow> nat" where "NumNodes m = length (nodes m)"
definition Objective :: "model \<Rightarrow> string" where "Objective m = objective m"

section \<open>The walk and the sum\<close>

partial_function (option) walk :: "node list \<Rightarrow> fl list \<Rightarrow> int \<Rightarrow> (panic + int) option" where
  "walk ns fs i =
     (if 0 \<le> i then
        (case go_nth ns i of None \<Rightarrow> Some (Inl IndexOutOfRange)
         | Some n \<Rightarrow>
            (case go_nth fs (feature n) of None \<Rightarrow> Some (Inl IndexOutOfRange)
             | Some x \<Rightarrow> walk ns fs (if x \<le> threshold n then left n else right n)))
      else Some (Inr i))"

fun sum_trees :: "model \<Rightarrow> fl list \<Rightarrow> fl \<Rightarrow> int list \<Rightarrow> (panic + fl) option" where
  "sum_trees m fs acc [] = Some (Inr acc)"
| "sum_trees m fs acc (i # is) =
     (case walk (nodes m) fs i of None \<Rightarrow> None
      | Some (Inl p) \<Rightarrow> Some (Inl p)
      | Some (Inr j) \<Rightarrow>
          (case go_nth (leaves m) (compl j) of None \<Rightarrow> Some (Inl IndexOutOfRange)
           | Some x \<Rightarrow> sum_trees m fs (fadd F32 acc x) is))"

definition Raw :: "model \<Rightarrow> fl list \<Rightarrow> (panic + fl) option" where
  "Raw m fs = sum_trees m fs (Fin 0) (roots m)"

text \<open>
  \<open>Score\<close> applies the link function. \<open>math.Exp\<close> is a parameter: Go does not specify its last bits.
\<close>

definition Score :: "(fl \<Rightarrow> fl) \<Rightarrow> model \<Rightarrow> fl list \<Rightarrow> (panic + fl) option" where
  "Score exp64 m fs =
     map_option (map_sum id (\<lambda>raw.
       if has_prefix ''binary'' (objective m)
       then fdiv F64 (Fin 1) (fadd F64 (Fin 1) (exp64 (fmul F64 (fneg (sigmoid m)) raw)))
       else raw)) (Raw m fs)"

section \<open>Finite trees\<close>

inductive tree_at :: "node list \<Rightarrow> int \<Rightarrow> int \<Rightarrow> int \<Rightarrow> bool" for ns :: "node list" and nl nf :: int where
  leaf: "i < 0 \<Longrightarrow> compl i < nl \<Longrightarrow> tree_at ns nl nf i"
| node: "0 \<le> i \<Longrightarrow> i < int (length ns) \<Longrightarrow> ns ! nat i = n \<Longrightarrow> 0 \<le> feature n \<Longrightarrow> feature n < nf \<Longrightarrow>
    tree_at ns nl nf (left n) \<Longrightarrow> tree_at ns nl nf (right n) \<Longrightarrow> tree_at ns nl nf i"

inductive_simps tree_at_leaf: "tree_at ns nl nf (- 1)"

definition wf_model :: "model \<Rightarrow> bool" where
  "wf_model m \<longleftrightarrow> roots m \<noteq> [] \<and> 0 < num_features m \<and>
     list_all (tree_at (nodes m) (int (length (leaves m))) (num_features m)) (roots m)"

lemma walk_leaf [simp]: "i < 0 \<Longrightarrow> walk ns fs i = Some (Inr i)"
  by (subst walk.simps) simp

lemma walk_node:
  "0 \<le> i \<Longrightarrow> i < int (length ns) \<Longrightarrow> ns ! nat i = n \<Longrightarrow> 0 \<le> feature n \<Longrightarrow> feature n < int (length fs) \<Longrightarrow>
   walk ns fs i = walk ns fs (if fs ! nat (feature n) \<le> threshold n then left n else right n)"
  by (subst walk.simps) simp

lemma walk_ends:
  assumes "tree_at ns nl nf i" and "nf \<le> int (length fs)"
  shows "\<exists>j. walk ns fs i = Some (Inr j) \<and> j < 0 \<and> compl j < nl"
  using assms
proof (induction rule: tree_at.induct)
  case (leaf i)
  then show ?case by simp
next
  case (node i n)
  then have "walk ns fs i = walk ns fs (if fs ! nat (feature n) \<le> threshold n then left n else right n)"
    by (intro walk_node) auto
  with node show ?case by (simp split: if_splits)
qed

lemma sum_trees_ends:
  assumes "list_all (tree_at (nodes m) (int (length (leaves m))) nf) is"
    and "nf \<le> int (length fs)"
  shows "\<exists>x. sum_trees m fs acc is = Some (Inr x)"
  using assms(1)
proof (induction "is" arbitrary: acc)
  case (Cons i "is")
  then obtain j where j: "walk (nodes m) fs i = Some (Inr j)" "j < 0" "compl j < int (length (leaves m))"
    using walk_ends[OF _ assms(2)] by fastforce
  with Cons show ?case by simp
qed simp

lemma Raw_ends:
  "wf_model m \<Longrightarrow> num_features m \<le> int (length fs) \<Longrightarrow> \<exists>x. Raw m fs = Some (Inr x)"
  unfolding wf_model_def Raw_def by (rule sum_trees_ends[where nf = "num_features m"]) simp_all

text \<open>More nodes and leaves at the end of the arrays do not disturb the trees already there.\<close>

lemma tree_at_mono:
  "tree_at ns nl nf i \<Longrightarrow> nl \<le> nl' \<Longrightarrow> tree_at (ns @ ns') nl' nf i"
proof (induction rule: tree_at.induct)
  case (leaf i)
  then show ?case by (intro tree_at.leaf) auto
next
  case (node i n)
  have "(ns @ ns') ! nat i = n" using node(1-3) by (auto simp: nth_append nat_less_iff)
  with node show ?case by (intro tree_at.node[of i "ns @ ns'" n]) simp_all
qed

end
