(* ===== verification/Policy.thy ===== *)
theory Policy
  imports Entry Model_Eval
begin

text \<open>
  \<^verbatim>\<open>internal/cache/policy.go\<close>: the \<open>Policy\<close> interface, the \<open>Candidates\<close> a shard offers a policy, and
  the sampled policies LRU and LFU.

  A Go interface value is a dictionary of methods over a hidden state; here it is the record
  \<open>policy_ops\<close> over a state type. The entries are passed to a policy by pointer and S3-FIFO writes
  their frequency, so \<open>Victim\<close> and the hooks return the entries they may have written. What the runtime
  and the other goroutines decide during one victim choice (two clock readings, the order of the range
  over the map, the model found in the holder) is the record \<open>ev_env\<close>.

  What a shard needs from a policy is the locale \<open>policy_laws\<close>; what it needs so that eviction always
  makes room is \<open>evicting_policy\<close>.
\<close>

section \<open>The shard's entries as candidates\<close>

type_synonym entries = "(u64 \<times> entry) list"

record loaded =
  l_model :: model
  l_version :: string
  l_boundary :: int

record ev_env =
  clock_start :: int
  clock_end :: int
  range_seed :: "nat list"
  holder_now :: "loaded option"

datatype flow = Continue | Stop | Abort

text \<open>
  A visitor returns whether to go on; \<open>Abort\<close> is a visitor that panicked or never returned, and then
  the loop does not get any further either.
\<close>

fun sample_loop :: "int \<Rightarrow> (entry \<Rightarrow> 's \<Rightarrow> 's \<times> flow) \<Rightarrow> 's \<Rightarrow> entry list \<Rightarrow> 's \<times> bool" where
  "sample_loop n fn s [] = (s, True)"
| "sample_loop n fn s (e # es) =
     (case fn e s of
        (s, Abort) \<Rightarrow> (s, False)
      | (s, Stop) \<Rightarrow> (s, True)
      | (s, Continue) \<Rightarrow> if n - 1 = 0 then (s, True) else sample_loop (n - 1) fn s es)"

definition Sample :: "nat list \<Rightarrow> entries \<Rightarrow> int \<Rightarrow> (entry \<Rightarrow> 's \<Rightarrow> 's \<times> flow) \<Rightarrow> 's \<Rightarrow> 's \<times> bool" where
  "Sample seed es n fn s =
     (if n \<le> 0 then (s, True) else sample_loop n fn s (map snd (range_order seed es)))"

definition Lookup :: "entries \<Rightarrow> u64 \<Rightarrow> entry option" where
  "Lookup es k = map_of es k"

definition Len :: "entries \<Rightarrow> nat" where
  "Len es = length es"

text \<open>What every visit keeps, the whole loop keeps.\<close>

lemma sample_loop_inv:
  assumes "\<And>e s. e \<in> set es \<Longrightarrow> I s \<Longrightarrow> I (fst (fn e s))" and "I s"
  shows "I (fst (sample_loop n fn s es))"
  using assms
proof (induction es arbitrary: n s)
  case (Cons e es)
  obtain s' fl where f: "fn e s = (s', fl)" by (cases "fn e s") auto
  have s': "I s'" using Cons.prems(1)[of e s] Cons.prems(2) f by simp
  have "I (fst (sample_loop (n - 1) fn s' es))"
    using Cons.IH[of s' "n - 1"] Cons.prems(1) s' by simp
  with s' show ?case by (cases fl) (simp_all add: f)
qed simp

lemma Sample_inv:
  assumes "\<And>k e s. (k, e) \<in> set es \<Longrightarrow> I s \<Longrightarrow> I (fst (fn e s))" and "I s"
  shows "I (fst (Sample seed es n fn s))"
proof -
  have "I (fst (sample_loop n fn s (map snd (range_order seed es))))"
    by (rule sample_loop_inv[where I = I]) (auto intro: assms)
  with assms(2) show ?thesis by (simp add: Sample_def)
qed

text \<open>A visitor that always continues sees the first \<open>n\<close> entries of the order.\<close>

lemma sample_loop_fold:
  assumes "\<And>e s. I s \<Longrightarrow> snd (fn e s) = Continue \<and> I (fst (fn e s))" and "0 < n" and "I s"
  shows "sample_loop n fn s es = (fold (\<lambda>e s. fst (fn e s)) (take (nat n) es) s, True)"
  using assms(2,3)
proof (induction es arbitrary: n s)
  case (Cons e es)
  obtain s' where f: "fn e s = (s', Continue)" and s': "I s'"
    using assms(1)[OF Cons.prems(2), of e] by (cases "fn e s") auto
  have t: "take (nat n) (e # es) = e # take (nat (n - 1)) es"
    using Cons.prems by (cases "nat n") (auto simp: nat_diff_distrib)
  show ?case
  proof (cases "n = 1")
    case True
    then show ?thesis by (simp add: f)
  next
    case False
    with Cons.prems have "0 < n - 1" by simp
    from Cons.IH[OF this s'] False show ?thesis unfolding t by (simp add: f)
  qed
qed simp

definition candidates :: "ev_env \<Rightarrow> int \<Rightarrow> entries \<Rightarrow> entry list" where
  "candidates ev n es = take (nat n) (map snd (range_order (range_seed ev) es))"

lemma Sample_fold:
  "(\<And>e s. I s \<Longrightarrow> snd (fn e s) = Continue \<and> I (fst (fn e s))) \<Longrightarrow> I s \<Longrightarrow>
   Sample (range_seed ev) es n fn s = (fold (\<lambda>e s. fst (fn e s)) (candidates ev n es) s, True)"
  by (simp add: Sample_def candidates_def sample_loop_fold[where I = I])

lemma candidates_subset: "e \<in> set (candidates ev n es) \<Longrightarrow> \<exists>k. (k, e) \<in> set es"
  using set_take_subset[of "nat n" "map snd (range_order (range_seed ev) es)"]
  by (force simp: candidates_def)

lemma candidates_ne: "0 < n \<Longrightarrow> es \<noteq> [] \<Longrightarrow> candidates ev n es \<noteq> []"
  by (simp add: candidates_def) (metis length_0_conv length_range_order)

section \<open>The interface\<close>

datatype vres = Victim u64 | Declined | Aborted

record 'p policy_ops =
  pol_name :: string
  pol_victim :: "ev_env \<Rightarrow> 'p \<Rightarrow> entries \<Rightarrow> int \<Rightarrow> 'p \<times> entries \<times> vres"
  pol_on_access :: "'p \<Rightarrow> entry \<Rightarrow> 'p \<times> entry"
  pol_on_admit :: "'p \<Rightarrow> entry \<Rightarrow> 'p \<times> entry"
  pol_on_remove :: "'p \<Rightarrow> entry \<Rightarrow> 'p"

definition wf_entries :: "entries \<Rightarrow> bool" where
  "wf_entries es \<longleftrightarrow> distinct (map fst es) \<and> (\<forall>(k, e) \<in> set es. e_key e = k \<and> wf_entry e)"

text \<open>The only thing a policy may write in an entry is its frequency.\<close>

definition clear_freq :: "entry \<Rightarrow> entry" where
  "clear_freq e = e\<lparr>e_freq := 0\<rparr>"

definition same_entries :: "entries \<Rightarrow> entries \<Rightarrow> bool" where
  "same_entries es es' \<longleftrightarrow> map (map_prod id clear_freq) es = map (map_prod id clear_freq) es'"

lemma clear_freq_eqD:
  assumes "clear_freq e = clear_freq e'"
  shows "e_value e = e_value e'" "e_key e = e_key e'" "last_access e = last_access e'"
    "admitted e = admitted e'" "expires e = expires e'" "deltas e = deltas e'"
    "e_size e = e_size e'" "e_accesses e = e_accesses e'"
  using assms by (simp_all add: clear_freq_def entry.defs)
    (metis entry.select_convs entry.surjective entry.update_convs(9))+

lemma same_entries_refl [simp]: "same_entries es es"
  by (simp add: same_entries_def)

lemma same_entries_trans: "same_entries a b \<Longrightarrow> same_entries b c \<Longrightarrow> same_entries a c"
  by (simp add: same_entries_def)

lemma same_entries_keys:
  assumes "same_entries es es'"
  shows "map fst es = map fst es'"
proof -
  have "map fst es = map fst (map (map_prod id clear_freq) es)" for es :: entries by simp
  then show ?thesis using assms by (metis same_entries_def)
qed

lemma same_entries_length: "same_entries es es' \<Longrightarrow> length es = length es'"
  using same_entries_keys[of es es'] by (metis length_map)

lemma map_of_clear: "map_of (map (map_prod id clear_freq) es) k = map_option clear_freq (map_of es k)"
  by (induction es) auto

lemma same_entries_map_of:
  "same_entries es es' \<Longrightarrow> map_option clear_freq (map_of es k) = map_option clear_freq (map_of es' k)"
  by (metis map_of_clear same_entries_def)

lemma same_entries_Some:
  "same_entries es es' \<Longrightarrow> map_of es k = Some e \<Longrightarrow> \<exists>e'. map_of es' k = Some e' \<and> clear_freq e = clear_freq e'"
  using same_entries_map_of[of es es' k] by (cases "map_of es' k") auto

lemma same_entries_sym: "same_entries es es' \<Longrightarrow> same_entries es' es"
  by (simp add: same_entries_def)

lemma same_entries_update:
  "distinct (map fst es) \<Longrightarrow> map_of es k = Some e \<Longrightarrow> clear_freq e = clear_freq e' \<Longrightarrow>
   same_entries es (AList.update k e' es)"
proof (induction es)
  case (Cons x es)
  then show ?case by (cases x) (auto simp: same_entries_def split: if_splits)
qed simp

lemma same_entries_vsum:
  assumes "same_entries es es'" and "\<And>e. f (clear_freq e) = f e"
  shows "vsum f es = vsum f es'"
proof -
  have "map (f \<circ> snd) es = map (f \<circ> snd) (map (map_prod id clear_freq) es)" for es :: entries
    using assms(2) by simp
  then show ?thesis using assms(1) by (metis same_entries_def vsum_def)
qed

lemma clear_freq_fields [simp]: "e_size (clear_freq e) = e_size e" "e_key (clear_freq e) = e_key e"
  by (simp_all add: clear_freq_def)

lemma wf_entriesD:
  assumes "wf_entries es"
  shows "distinct (map fst es)"
    and "map_of es k = Some e \<Longrightarrow> e_key e = k" and "map_of es k = Some e \<Longrightarrow> wf_entry e"
    and "(k, e) \<in> set es \<Longrightarrow> map_of es k = Some e"
  using assms by (auto simp: wf_entries_def dest: map_of_SomeD)

lemma wf_entries_Nil [simp]: "wf_entries []"
  by (simp add: wf_entries_def)

lemma wf_entries_delete [intro]: "wf_entries es \<Longrightarrow> wf_entries (AList.delete k es)"
  by (auto simp: wf_entries_def set_delete_iff)

lemma wf_entries_update [intro]:
  "wf_entries es \<Longrightarrow> wf_entry e \<Longrightarrow> e_key e = k \<Longrightarrow> wf_entries (AList.update k e es)"
  by (auto simp: wf_entries_def set_update_iff split: if_splits)

lemma wf_entry_freq: "wf_entry e \<Longrightarrow> f \<le> 3 \<Longrightarrow> wf_entry (e\<lparr>e_freq := f\<rparr>)"
  by (simp add: wf_entry_def)

section \<open>The laws of a policy\<close>

locale policy_laws =
  fixes ops :: "'p policy_ops"
    and new_policy :: "int \<Rightarrow> 'p"
    and pinv :: "'p \<Rightarrow> entries \<Rightarrow> bool"
    and env_ok :: "ev_env \<Rightarrow> bool"
  assumes new_inv: "pinv (new_policy c) []"
    and victim_same: "wf_entries es \<Longrightarrow> pinv p es \<Longrightarrow> pol_victim ops ev p es now = (p', es', v) \<Longrightarrow>
          same_entries es es' \<and> wf_entries es'"
    and victim_resident: "wf_entries es \<Longrightarrow> pinv p es \<Longrightarrow> pol_victim ops ev p es now = (p', es', Victim k) \<Longrightarrow>
          \<exists>e. map_of es' k = Some e \<and> pinv (pol_on_remove ops p' e) (AList.delete k es')"
    and victim_declined: "wf_entries es \<Longrightarrow> pinv p es \<Longrightarrow> pol_victim ops ev p es now = (p', es', Declined) \<Longrightarrow>
          pinv p' es'"
    and victim_returns: "wf_entries es \<Longrightarrow> pinv p es \<Longrightarrow> env_ok ev \<Longrightarrow> snd (snd (pol_victim ops ev p es now)) \<noteq> Aborted"
    and access_inv: "wf_entries es \<Longrightarrow> pinv p es \<Longrightarrow> map_of es k = Some e \<Longrightarrow>
          pol_on_access ops p (touch now e) = (p', e') \<Longrightarrow>
          clear_freq e' = clear_freq (touch now e) \<and> e_freq e' \<le> 3 \<and> pinv p' (AList.update k e' es)"
    and admit_inv: "wf_entries es \<Longrightarrow> pinv p es \<Longrightarrow> map_of es (e_key e) = None \<Longrightarrow> wf_entry e \<Longrightarrow>
          pol_on_admit ops p e = (p', e') \<Longrightarrow>
          clear_freq e' = clear_freq e \<and> e_freq e' \<le> 3 \<and> pinv p' (AList.update (e_key e) e' es)"
    and remove_inv: "wf_entries es \<Longrightarrow> pinv p es \<Longrightarrow> map_of es k = Some e \<Longrightarrow>
          pinv (pol_on_remove ops p e) (AList.delete k es)"

locale evicting_policy = policy_laws +
  assumes victim_found: "wf_entries es \<Longrightarrow> pinv p es \<Longrightarrow> es \<noteq> [] \<Longrightarrow> env_ok ev \<Longrightarrow>
          \<exists>k. snd (snd (pol_victim ops ev p es now)) = Victim k"

section \<open>Sampled policies\<close>

record sampled =
  smp_name :: string
  smp_score :: "entry \<Rightarrow> int \<Rightarrow> fl"
  smp_n :: int
  best_score :: fl
  smp_now :: int
  best :: u64
  found :: bool

definition newSampled :: "string \<Rightarrow> int \<Rightarrow> (entry \<Rightarrow> int \<Rightarrow> fl) \<Rightarrow> sampled" where
  "newSampled name n score =
     \<lparr>smp_name = name, smp_score = score, smp_n = n, best_score = Fin 0, smp_now = 0, best = 0, found = False\<rparr>"

definition sampled_consider :: "entry \<Rightarrow> sampled \<Rightarrow> sampled \<times> flow" where
  "sampled_consider e p =
     (let s = smp_score p e (smp_now p)
      in (if best_score p < s then p\<lparr>best_score := s, best := e_key e, found := True\<rparr> else p, Continue))"

definition sampled_victim :: "ev_env \<Rightarrow> sampled \<Rightarrow> entries \<Rightarrow> int \<Rightarrow> sampled \<times> entries \<times> vres" where
  "sampled_victim ev p es now =
     (let p = p\<lparr>smp_now := now, best_score := NInf, found := False\<rparr>;
          (p, returned) = Sample (range_seed ev) es (smp_n p) sampled_consider p
      in (p, es, if \<not> returned then Aborted else if found p then Victim (best p) else Declined))"

text \<open>The three hooks of a sampled policy are empty.\<close>

definition no_hook :: "'p \<Rightarrow> entry \<Rightarrow> 'p \<times> entry" where
  "no_hook p e = (p, e)"

definition no_remove :: "'p \<Rightarrow> entry \<Rightarrow> 'p" where
  "no_remove p e = p"

definition lru_score :: "entry \<Rightarrow> int \<Rightarrow> fl" where
  "lru_score e now = f_of_int F64 (wrap64 (now - last_access e))"

definition lfu_score :: "entry \<Rightarrow> int \<Rightarrow> fl" where
  "lfu_score e now = fneg (f_of_int F64 (uint (e_accesses e)))"

definition NewLRU :: "int \<Rightarrow> sampled" where
  "NewLRU sampleSize = newSampled ''lru'' sampleSize lru_score"

definition NewLFU :: "int \<Rightarrow> sampled" where
  "NewLFU sampleSize = newSampled ''lfu'' sampleSize lfu_score"

definition sampled_ops :: "string \<Rightarrow> sampled policy_ops" where
  "sampled_ops name = \<lparr>pol_name = name, pol_victim = sampled_victim, pol_on_access = no_hook,
     pol_on_admit = no_hook, pol_on_remove = no_remove\<rparr>"

lemmas sampled_ops_simps [simp] = sampled_ops_def no_hook_def no_remove_def

section \<open>The choice of a sampled policy\<close>

text \<open>The first candidate of the greatest score, as a fold over the candidates.\<close>

fun argmax_from :: "(entry \<Rightarrow> fl) \<Rightarrow> fl \<Rightarrow> entry option \<Rightarrow> entry list \<Rightarrow> entry option" where
  "argmax_from f b r [] = r"
| "argmax_from f b r (e # es) = (if b < f e then argmax_from f (f e) (Some e) es else argmax_from f b r es)"

definition sampled_run :: "entry list \<Rightarrow> sampled \<Rightarrow> sampled" where
  "sampled_run es p = fold (\<lambda>e s. fst (sampled_consider e s)) es p"

lemma sampled_run_simps [simp]:
  "sampled_run [] p = p" "sampled_run (e # es) p = sampled_run es (fst (sampled_consider e p))"
  by (simp_all add: sampled_run_def)

lemma consider_eq:
  "fst (sampled_consider e p) = (if best_score p < smp_score p e (smp_now p)
     then p\<lparr>best_score := smp_score p e (smp_now p), best := e_key e, found := True\<rparr> else p)"
  by (simp add: sampled_consider_def Let_def)

lemma sampled_run_frame [simp]:
  "smp_n (sampled_run es p) = smp_n p" "smp_score (sampled_run es p) = smp_score p"
  "smp_name (sampled_run es p) = smp_name p"
  by (induction es arbitrary: p) (simp_all add: consider_eq)

lemma sampled_run_best:
  "(found p, best p) = (case r of None \<Rightarrow> (False, b0) | Some e \<Rightarrow> (True, e_key e)) \<Longrightarrow>
   (found (sampled_run es p), best (sampled_run es p)) =
     (case argmax_from (\<lambda>e. smp_score p e (smp_now p)) (best_score p) r es of
        None \<Rightarrow> (False, b0) | Some e \<Rightarrow> (True, e_key e))"
proof (induction es arbitrary: p r)
  case (Cons e es)
  show ?case
  proof (cases "best_score p < smp_score p e (smp_now p)")
    case True
    then show ?thesis
      using Cons.IH[of "fst (sampled_consider e p)" "Some e"] by (simp add: consider_eq)
  next
    case False
    then show ?thesis using Cons.IH[OF Cons.prems] by (simp add: consider_eq)
  qed
qed simp

definition sampled_choice :: "ev_env \<Rightarrow> sampled \<Rightarrow> entries \<Rightarrow> int \<Rightarrow> entry option" where
  "sampled_choice ev p es now =
     argmax_from (\<lambda>e. smp_score p e now) NInf None (candidates ev (smp_n p) es)"

lemma sampled_victim_choice:
  "\<exists>p'. sampled_victim ev p es now =
     (p', es, case sampled_choice ev p es now of None \<Rightarrow> Declined | Some e \<Rightarrow> Victim (e_key e)) \<and>
     smp_n p' = smp_n p \<and> smp_score p' = smp_score p \<and> smp_name p' = smp_name p"
proof -
  let ?p = "p\<lparr>smp_now := now, best_score := NInf, found := False\<rparr>"
  let ?q = "sampled_run (candidates ev (smp_n p) es) ?p"
  have S: "Sample (range_seed ev) es (smp_n p) sampled_consider ?p = (?q, True)"
    using Sample_fold[of "\<lambda>_. True" sampled_consider ?p ev es "smp_n p"]
    by (simp add: sampled_consider_def Let_def sampled_run_def)
  have "(found ?q, best ?q) = (case sampled_choice ev p es now of None \<Rightarrow> (False, best p) | Some e \<Rightarrow> (True, e_key e))"
    using sampled_run_best[where p = ?p and r = None and ?b0.0 = "best p"] by (simp add: sampled_choice_def)
  then have "sampled_victim ev p es now =
      (?q, es, case sampled_choice ev p es now of None \<Rightarrow> Declined | Some e \<Rightarrow> Victim (e_key e))"
    by (simp add: sampled_victim_def S split: option.splits)
  then show ?thesis by (intro exI[of _ ?q]) simp
qed

lemma argmax_from_in: "argmax_from f b r es = Some e \<Longrightarrow> r = Some e \<or> e \<in> set es"
proof (induction es arbitrary: b r)
  case (Cons x es)
  show ?case
  proof (cases "b < f x")
    case True
    with Cons.IH[of "f x" "Some x"] Cons.prems show ?thesis by auto
  next
    case False
    with Cons.IH[of b r] Cons.prems show ?thesis by auto
  qed
qed simp

lemma argmax_from_Some: "r \<noteq> None \<Longrightarrow> argmax_from f b r es \<noteq> None"
  by (induction es arbitrary: b r) auto

lemma argmax_from_found:
  assumes "\<And>e. e \<in> set es \<Longrightarrow> b < f e" and "es \<noteq> []"
  shows "argmax_from f b r es \<noteq> None"
proof -
  obtain x xs where es: "es = x # xs" using assms(2) by (cases es) auto
  then have "argmax_from f b r es = argmax_from f (f x) (Some x) xs" using assms(1) by simp
  then show ?thesis using argmax_from_Some[of "Some x"] by simp
qed

text \<open>No candidate beats the chosen one.\<close>

lemma argmax_from_max:
  assumes "\<And>e. f e \<noteq> NaN" and "b \<noteq> NaN" and "argmax_from f b r es = Some e"
    and "\<And>e0. r = Some e0 \<Longrightarrow> b = f e0"
  shows "(\<forall>x \<in> set es. f x \<le> f e) \<and> b \<le> f e"
  using assms(2-4)
proof (induction es arbitrary: b r)
  case Nil
  then show ?case by (simp add: fl_le_refl)
next
  case (Cons x es)
  show ?case
  proof (cases "b < f x")
    case True
    have IH: "(\<forall>x' \<in> set es. f x' \<le> f e) \<and> f x \<le> f e"
    proof (rule Cons.IH)
      show "f x \<noteq> NaN" by (rule assms(1))
      show "argmax_from f (f x) (Some x) es = Some e" using Cons.prems(2) True by simp
      show "f x = f e0" if "Some x = Some e0" for e0 using that by simp
    qed
    with fl_le_trans[OF fl_less_imp_le[OF True]] show ?thesis by simp
  next
    case False
    then have le: "f x \<le> b" using Cons.prems(1) assms(1) by simp
    have "(\<forall>x' \<in> set es. f x' \<le> f e) \<and> b \<le> f e"
    proof (rule Cons.IH)
      show "argmax_from f b r es = Some e" using Cons.prems(2) False by simp
    qed (fact Cons.prems)+
    with fl_le_trans[OF le] show ?thesis by simp
  qed
qed

section \<open>LRU and LFU keep the laws\<close>

lemma sampled_victimD:
  assumes "sampled_victim ev p es now = (p', es', v)"
  shows "es' = es" and "smp_n p' = smp_n p" and "smp_score p' = smp_score p"
    and "v = (case sampled_choice ev p es now of None \<Rightarrow> Declined | Some e \<Rightarrow> Victim (e_key e))"
  using sampled_victim_choice[of ev p es now] assms by auto

lemma sampled_choice_in:
  assumes "sampled_choice ev p es now = Some e"
  shows "e \<in> set (candidates ev (smp_n p) es)"
  using argmax_from_in[of "\<lambda>e. smp_score p e now" NInf None] assms by (simp add: sampled_choice_def)

lemma sampled_choice_resident:
  assumes "wf_entries es" and "sampled_choice ev p es now = Some e"
  shows "map_of es (e_key e) = Some e"
proof -
  obtain k where k: "(k, e) \<in> set es"
    using candidates_subset[OF sampled_choice_in[OF assms(2)]] by blast
  with assms(1) have "e_key e = k" by (auto simp: wf_entries_def)
  with k wf_entriesD(4)[OF assms(1) k] show ?thesis by simp
qed

lemma clear_freq_update [simp]: "clear_freq (e\<lparr>e_freq := f\<rparr>) = clear_freq e"
  by (simp add: clear_freq_def)

lemma touch_freq_le: "wf_entry e \<Longrightarrow> e_freq (touch now e) \<le> 3"
  using wf_touch[of e now] by (simp add: wf_entry_def)

definition sampled_inv :: "int \<Rightarrow> (entry \<Rightarrow> int \<Rightarrow> fl) \<Rightarrow> sampled \<Rightarrow> entries \<Rightarrow> bool" where
  "sampled_inv n f p es \<longleftrightarrow> smp_n p = n \<and> smp_score p = f"

text \<open>Whatever the score and the sample size, a sampled policy keeps the laws of a policy.\<close>

interpretation smpl: policy_laws "sampled_ops name" "\<lambda>_. newSampled name n f" "sampled_inv n f" "\<lambda>_. True"
proof
  fix es p ev now p' es' k
  assume wf: "wf_entries es" and inv: "sampled_inv n f p es"
    and v: "pol_victim (sampled_ops name) ev p es now = (p', es', Victim k)"
  then have v': "sampled_victim ev p es now = (p', es', Victim k)" by simp
  note D = sampled_victimD[OF v']
  from D(4) obtain e where e: "sampled_choice ev p es now = Some e" "k = e_key e"
    by (auto split: option.splits)
  with sampled_choice_resident[OF wf e(1)] D inv
  show "\<exists>e. map_of es' k = Some e \<and> sampled_inv n f (pol_on_remove (sampled_ops name) p' e) (AList.delete k es')"
    by (simp add: sampled_inv_def)
next
  fix es p ev now
  show "snd (snd (pol_victim (sampled_ops name) ev p es now)) \<noteq> Aborted"
    using sampled_victim_choice[of ev p es now] by (auto split: option.splits)
qed (auto simp: sampled_inv_def newSampled_def wf_entry_def dest: sampled_victimD touch_freq_le wf_entriesD(3))

text \<open>With a positive sample size and finite scores, a victim is found in every nonempty shard.\<close>

lemma sampled_found:
  assumes "0 < smp_n p" and "es \<noteq> []" and "\<And>e. NInf < smp_score p e now"
  shows "\<exists>k. snd (snd (sampled_victim ev p es now)) = Victim k"
proof -
  have "sampled_choice ev p es now \<noteq> None"
    unfolding sampled_choice_def
    by (rule argmax_from_found[OF _ candidates_ne[OF assms(1,2)]]) (rule assms(3))
  then show ?thesis using sampled_victim_choice[of ev p es now] by auto
qed

lemma i64_f64: "in_i64 k \<Longrightarrow> \<exists>r. f_of_int F64 k = Fin r"
  using f_of_int_finite[of F64 k 63] std_fmts abs_le_iff[of k "2 ^ 63"] by (fastforce simp: fmt_fields)

lemma lru_score_finite: "\<exists>r. lru_score e now = Fin r"
  unfolding lru_score_def by (rule i64_f64) (rule wrap64_range)

lemma lfu_score_finite: "\<exists>r. lfu_score e now = Fin r"
proof -
  have "uint (e_accesses e) < 2 ^ 32" using uint_lt2p[of "e_accesses e"] by simp
  moreover have "- (2 ^ 63) \<le> uint (e_accesses e)" by (rule order_trans[of _ 0]) simp_all
  ultimately have "in_i64 (uint (e_accesses e))" by simp
  then obtain r where "f_of_int F64 (uint (e_accesses e)) = Fin r" using i64_f64 by blast
  then show ?thesis by (simp add: lfu_score_def)
qed

text \<open>LRU and LFU with a positive sample size always make room.\<close>

interpretation lru: evicting_policy "sampled_ops ''lru''" "\<lambda>_. NewLRU (int (Suc n))"
  "sampled_inv (int (Suc n)) lru_score" "\<lambda>_. True"
proof (intro evicting_policy.intro evicting_policy_axioms.intro)
  show "policy_laws (sampled_ops ''lru'') (\<lambda>_. NewLRU (int (Suc n))) (sampled_inv (int (Suc n)) lru_score) (\<lambda>_. True)"
    unfolding NewLRU_def by (rule smpl.policy_laws_axioms)
next
  fix es p ev now
  assume "sampled_inv (int (Suc n)) lru_score p es" and "es \<noteq> []"
  moreover have "NInf < lru_score e now" for e using lru_score_finite[of e now] by auto
  ultimately show "\<exists>k. snd (snd (pol_victim (sampled_ops ''lru'') ev p es now)) = Victim k"
    using sampled_found[of p es now ev] by (simp add: sampled_inv_def)
qed

interpretation lfu: evicting_policy "sampled_ops ''lfu''" "\<lambda>_. NewLFU (int (Suc n))"
  "sampled_inv (int (Suc n)) lfu_score" "\<lambda>_. True"
proof (intro evicting_policy.intro evicting_policy_axioms.intro)
  show "policy_laws (sampled_ops ''lfu'') (\<lambda>_. NewLFU (int (Suc n))) (sampled_inv (int (Suc n)) lfu_score) (\<lambda>_. True)"
    unfolding NewLFU_def by (rule smpl.policy_laws_axioms)
next
  fix es p ev now
  assume "sampled_inv (int (Suc n)) lfu_score p es" and "es \<noteq> []"
  moreover have "NInf < lfu_score e now" for e using lfu_score_finite[of e now] by auto
  ultimately show "\<exists>k. snd (snd (pol_victim (sampled_ops ''lfu'') ev p es now)) = Victim k"
    using sampled_found[of p es now ev] by (simp add: sampled_inv_def)
qed

end
