(* ===== verification/Lrb.thy ===== *)
theory Lrb
  imports Policy
begin

text \<open>
  \<^verbatim>\<open>internal/cache/lrb.go\<close>: the learned policy. The holder is an atomic pointer that other goroutines
  may replace at any time; it is a value of type \<open>loaded option\<close>, and what a victim choice loads from
  it is a field of its environment.
\<close>

section \<open>The model holder\<close>

type_synonym model_holder = "loaded option"

datatype store_error = FeatureCountMismatch int | NonPositiveBoundary int

definition NewModelHolder :: model_holder where
  "NewModelHolder = None"

definition Store :: "model \<Rightarrow> string \<Rightarrow> int \<Rightarrow> model_holder \<Rightarrow> (store_error + unit) \<times> model_holder" where
  "Store m version boundary h =
     (if NumFeatures m \<noteq> int Count then (Inl (FeatureCountMismatch (NumFeatures m)), h)
      else if boundary \<le> 0 then (Inl (NonPositiveBoundary boundary), h)
      else (Inr (), Some \<lparr>l_model = m, l_version = version, l_boundary = boundary\<rparr>))"

definition Version :: "model_holder \<Rightarrow> string" where
  "Version h = (case h of None \<Rightarrow> [] | Some l \<Rightarrow> l_version l)"

definition Boundary :: "model_holder \<Rightarrow> int" where
  "Boundary h = (case h of None \<Rightarrow> 0 | Some l \<Rightarrow> l_boundary l)"

text \<open>The holders in which every model can be walked without a bounds check.\<close>

definition wf_holder :: "model_holder \<Rightarrow> bool" where
  "wf_holder h \<longleftrightarrow> (\<forall>l. h = Some l \<longrightarrow> wf_model (l_model l) \<and> num_features (l_model l) = int Count \<and> 0 < l_boundary l)"

lemma wf_NewModelHolder: "wf_holder NewModelHolder"
  by (simp add: wf_holder_def NewModelHolder_def)

lemma wf_Store: "wf_holder h \<Longrightarrow> wf_model m \<Longrightarrow> wf_holder (snd (Store m v b h))"
  by (auto simp: wf_holder_def Store_def NumFeatures_def)

section \<open>The policy\<close>

record lrb =
  lrb_fallback :: sampled
  scratch :: "fl list"
  active :: "model option"
  lrb_now :: int
  worst :: u64
  lrb_n :: int
  lrb_best :: fl
  lrb_found :: bool

definition NewLRB :: "int \<Rightarrow> lrb" where
  "NewLRB sampleSize =
     (let sampleSize = (if sampleSize \<le> 0 then 8 else sampleSize)
      in \<lparr>lrb_fallback = NewLRU sampleSize, scratch = replicate Count (Fin 0), active = None, lrb_now = 0,
          worst = 0, lrb_n = sampleSize, lrb_best = Fin 0, lrb_found = False\<rparr>)"

definition entry_input :: "entry \<Rightarrow> int \<Rightarrow> input" where
  "entry_input e now =
     \<lparr>in_deltas = deltas e, in_now_us = now, in_last_access_us = last_access e, in_admitted_us = admitted e,
      in_size_bytes = e_size e, in_accesses = e_accesses e, in_frequency = e_freq e\<rparr>"

definition lrb_consider :: "entry \<Rightarrow> lrb \<Rightarrow> lrb \<times> flow" where
  "lrb_consider e p =
     (case Extract (scratch p) (entry_input e (lrb_now p)) of
        None \<Rightarrow> (p, Abort)
      | Some row \<Rightarrow>
          (let p = p\<lparr>scratch := row\<rparr> in
           case active p of
             None \<Rightarrow> (p, Abort)
           | Some m \<Rightarrow>
               (case Raw m row of
                  Some (Inr score) \<Rightarrow>
                    (if \<not> lrb_found p \<or> lrb_best p < score
                     then p\<lparr>worst := e_key e, lrb_best := score, lrb_found := True\<rparr> else p, Continue)
                | _ \<Rightarrow> (p, Abort))))"

definition lrb_victim :: "ev_env \<Rightarrow> lrb \<Rightarrow> entries \<Rightarrow> int \<Rightarrow> lrb \<times> entries \<times> vres" where
  "lrb_victim ev p es now =
     (case holder_now ev of
        None \<Rightarrow>
          (case sampled_victim ev (lrb_fallback p) es now of
             (f, es, v) \<Rightarrow> (p\<lparr>lrb_fallback := f\<rparr>, es, v))
      | Some l \<Rightarrow>
          (let p = p\<lparr>active := Some (l_model l), lrb_found := False, lrb_now := now\<rparr>;
               (p, returned) = Sample (range_seed ev) es (lrb_n p) lrb_consider p
           in (p, es, if \<not> returned then Aborted else if lrb_found p then Victim (worst p) else Declined)))"

definition lrb_ops :: "lrb policy_ops" where
  "lrb_ops = \<lparr>pol_name = ''lrb'', pol_victim = lrb_victim, pol_on_access = no_hook,
     pol_on_admit = no_hook, pol_on_remove = no_remove\<rparr>"

lemmas lrb_ops_simps [simp] = lrb_ops_def

section \<open>The choice of the learned policy\<close>

text \<open>The score the model gives an entry, on a fresh feature vector.\<close>

definition model_score :: "model \<Rightarrow> int \<Rightarrow> entry \<Rightarrow> fl" where
  "model_score m now e =
     (case Extract (replicate Count (Fin 0)) (entry_input e now) of
        Some row \<Rightarrow> (case Raw m row of Some (Inr x) \<Rightarrow> x | _ \<Rightarrow> NaN)
      | None \<Rightarrow> NaN)"

lemma Extract_scratch: "length dst = Count \<Longrightarrow> Extract dst inp = Extract (replicate Count (Fin 0)) inp"
  by (simp add: extract_columns)

lemma model_score_Raw:
  assumes "wf_model m" and "num_features m = int Count" and "length dst = Count"
  shows "\<exists>row. Extract dst (entry_input e now) = Some row \<and> length row = Count \<and>
           Raw m row = Some (Inr (model_score m now e))"
proof -
  obtain row where row: "Extract (replicate Count (Fin 0)) (entry_input e now) = Some row"
    using extract_columns[of "replicate Count (Fin 0)"] by simp
  then have len: "length row = Count" using length_extract by fastforce
  then obtain x where "Raw m row = Some (Inr x)" using Raw_ends[OF assms(1), of row] assms(2) by auto
  with row len Extract_scratch[OF assms(3)] show ?thesis by (simp add: model_score_def)
qed

lemma consider_frame:
  "lrb_n (fst (lrb_consider e p)) = lrb_n p" "lrb_fallback (fst (lrb_consider e p)) = lrb_fallback p"
  "length (scratch p) = Count \<Longrightarrow> length (scratch (fst (lrb_consider e p))) = Count"
  "lrb_found (fst (lrb_consider e p)) \<Longrightarrow> worst (fst (lrb_consider e p)) = e_key e \<or>
     lrb_found p \<and> worst (fst (lrb_consider e p)) = worst p"
  by (auto simp: lrb_consider_def Let_def dest: length_extract split: option.splits sum.splits)

definition runs_model :: "model \<Rightarrow> int \<Rightarrow> lrb \<Rightarrow> bool" where
  "runs_model m now p \<longleftrightarrow> active p = Some m \<and> lrb_now p = now \<and> length (scratch p) = Count"

text \<open>With a model whose trees are finite every visit continues and keeps the better of two scores.\<close>

lemma consider_continue:
  assumes m: "wf_model m" "num_features m = int Count" and p: "runs_model m now p"
  shows "snd (lrb_consider e p) = Continue \<and> runs_model m now (fst (lrb_consider e p))"
    and "(lrb_found p, lrb_best p, worst p) = (True, model_score m now w, e_key w) \<Longrightarrow>
      (let q = fst (lrb_consider e p);
           w' = (if model_score m now w < model_score m now e then e else w)
       in (lrb_found q, lrb_best q, worst q) = (True, model_score m now w', e_key w'))"
    and "\<not> lrb_found p \<Longrightarrow>
      (let q = fst (lrb_consider e p) in (lrb_found q, lrb_best q, worst q) = (True, model_score m now e, e_key e))"
  using model_score_Raw[OF m, of "scratch p" e now] p
  by (auto simp: lrb_consider_def runs_model_def Let_def)

text \<open>The first candidate of the greatest score, once a model is installed.\<close>

definition lrb_choice :: "ev_env \<Rightarrow> lrb \<Rightarrow> model \<Rightarrow> entries \<Rightarrow> int \<Rightarrow> entry option" where
  "lrb_choice ev p m es now =
     (case candidates ev (lrb_n p) es of
        [] \<Rightarrow> None
      | e # cs \<Rightarrow> argmax_from (model_score m now) (model_score m now e) (Some e) cs)"

definition lrb_run :: "entry list \<Rightarrow> lrb \<Rightarrow> lrb" where
  "lrb_run cs p = fold (\<lambda>e s. fst (lrb_consider e s)) cs p"

lemma lrb_run_best:
  assumes m: "wf_model m" "num_features m = int Count"
  shows "runs_model m now p \<Longrightarrow> (lrb_found p, lrb_best p, worst p) = (True, model_score m now w, e_key w) \<Longrightarrow>
    \<exists>e. argmax_from (model_score m now) (model_score m now w) (Some w) cs = Some e \<and>
        lrb_found (lrb_run cs p) \<and> worst (lrb_run cs p) = e_key e"
proof (induction cs arbitrary: p w)
  case Nil
  then show ?case by (simp add: lrb_run_def)
next
  case (Cons c cs)
  let ?q = "fst (lrb_consider c p)"
  let ?w = "if model_score m now w < model_score m now c then c else w"
  have q: "(lrb_found ?q, lrb_best ?q, worst ?q) = (True, model_score m now ?w, e_key ?w)"
    using consider_continue(2)[OF m Cons.prems] unfolding Let_def .
  have "runs_model m now ?q" using consider_continue(1)[OF m Cons.prems(1)] by blast
  from Cons.IH[OF this q] show ?case by (cases "model_score m now w < model_score m now c") (simp_all add: lrb_run_def)
qed

lemma lrb_victim_choice:
  assumes ev: "holder_now ev = Some l" and m: "wf_model (l_model l)" "num_features (l_model l) = int Count"
    and len: "length (scratch p) = Count"
  shows "\<exists>p'. lrb_victim ev p es now = (p', es,
     case lrb_choice ev p (l_model l) es now of None \<Rightarrow> Declined | Some e \<Rightarrow> Victim (e_key e))"
proof -
  let ?m = "l_model l"
  let ?p = "p\<lparr>active := Some ?m, lrb_found := False, lrb_now := now\<rparr>"
  let ?cs = "candidates ev (lrb_n p) es"
  have I: "runs_model ?m now ?p" using len by (simp add: runs_model_def)
  have "Sample (range_seed ev) es (lrb_n p) lrb_consider ?p = (lrb_run ?cs ?p, True)"
    using Sample_fold[of "runs_model ?m now" lrb_consider ?p ev es "lrb_n p"] consider_continue(1)[OF m] I
    by (simp add: lrb_run_def)
  then have v: "lrb_victim ev p es now =
      (lrb_run ?cs ?p, es, if lrb_found (lrb_run ?cs ?p) then Victim (worst (lrb_run ?cs ?p)) else Declined)"
    by (simp add: lrb_victim_def ev Let_def)
  show ?thesis
  proof (cases ?cs)
    case Nil
    then show ?thesis using v by (simp add: lrb_choice_def lrb_run_def)
  next
    case (Cons c cs)
    let ?q = "fst (lrb_consider c ?p)"
    have q: "(lrb_found ?q, lrb_best ?q, worst ?q) = (True, model_score ?m now c, e_key c)"
      using consider_continue(3)[OF m I, of c] by (simp add: Let_def)
    have "runs_model ?m now ?q" using consider_continue(1)[OF m I] by blast
    from lrb_run_best[OF m this q, of cs] obtain e where
      "argmax_from (model_score ?m now) (model_score ?m now c) (Some c) cs = Some e"
      "lrb_found (lrb_run cs ?q)" "worst (lrb_run cs ?q) = e_key e" by blast
    then show ?thesis using v by (simp add: lrb_choice_def lrb_run_def Cons)
  qed
qed

section \<open>The learned policy keeps the laws and always makes room\<close>

definition lrb_inv :: "lrb \<Rightarrow> entries \<Rightarrow> bool" where
  "lrb_inv p es \<longleftrightarrow> 0 < lrb_n p \<and> length (scratch p) = Count \<and> 0 < smp_n (lrb_fallback p) \<and>
     smp_score (lrb_fallback p) = lru_score"

definition lrb_env_ok :: "ev_env \<Rightarrow> bool" where
  "lrb_env_ok ev \<longleftrightarrow> wf_holder (holder_now ev)"

text \<open>Even a visit that panics leaves the policy well-formed and names only candidates.\<close>

lemma lrb_sample_ok:
  assumes "lrb_inv p es"
  shows "let q = fst (Sample sd es (lrb_n p) lrb_consider (p\<lparr>active := m, lrb_found := False, lrb_now := now\<rparr>))
    in lrb_inv q es \<and> (lrb_found q \<longrightarrow> (\<exists>k e. (k, e) \<in> set es \<and> worst q = e_key e))"
  unfolding Let_def
proof (rule Sample_inv)
  fix k e q
  assume "(k, e) \<in> set es" and "lrb_inv q es \<and> (lrb_found q \<longrightarrow> (\<exists>k e. (k, e) \<in> set es \<and> worst q = e_key e))"
  then show "lrb_inv (fst (lrb_consider e q)) es \<and>
      (lrb_found (fst (lrb_consider e q)) \<longrightarrow> (\<exists>k' e'. (k', e') \<in> set es \<and> worst (fst (lrb_consider e q)) = e_key e'))"
    using consider_frame[where e = e and p = q] unfolding lrb_inv_def by metis
qed (use assms in \<open>simp add: lrb_inv_def\<close>)

lemma lrb_victim_inv:
  assumes wf: "wf_entries es" and inv: "lrb_inv p es" and v: "lrb_victim ev p es now = (p', es', v)"
  shows "es' = es \<and> lrb_inv p' es \<and> (\<forall>k. v = Victim k \<longrightarrow> map_of es k \<noteq> None)"
proof (cases "holder_now ev")
  case None
  obtain f es1 v1 where f: "sampled_victim ev (lrb_fallback p) es now = (f, es1, v1)"
    by (cases "sampled_victim ev (lrb_fallback p) es now") auto
  then have p': "p' = p\<lparr>lrb_fallback := f\<rparr>" "es' = es1" "v = v1" using v None by (simp_all add: lrb_victim_def)
  have "map_of es k \<noteq> None" if "v = Victim k" for k
    using that sampled_victimD(4)[OF f] sampled_choice_resident[OF wf] p'(3) by (auto split: option.splits)
  with inv sampled_victimD(1-3)[OF f] p' show ?thesis by (simp add: lrb_inv_def)
next
  case (Some l)
  let ?r = "Sample (range_seed ev) es (lrb_n p) lrb_consider (p\<lparr>active := Some (l_model l), lrb_found := False, lrb_now := now\<rparr>)"
  have ok: "lrb_inv (fst ?r) es" "lrb_found (fst ?r) \<Longrightarrow> \<exists>k e. (k, e) \<in> set es \<and> worst (fst ?r) = e_key e"
    using lrb_sample_ok[OF inv, where sd = "range_seed ev" and m = "Some (l_model l)" and now = now] by (simp_all add: Let_def)
  have r: "p' = fst ?r" "es' = es"
    "v = (if \<not> snd ?r then Aborted else if lrb_found (fst ?r) then Victim (worst (fst ?r)) else Declined)"
    using v Some by (auto simp: lrb_victim_def split: prod.splits)
  have "map_of es k \<noteq> None" if "v = Victim k" for k
  proof -
    have "lrb_found (fst ?r)" "k = worst (fst ?r)" using r(3) that by (simp_all split: if_splits)
    with ok(2) obtain j e where "(j, e) \<in> set es" "k = e_key e" by metis
    with wf have "(k, e) \<in> set es" by (auto simp: wf_entries_def)
    then show ?thesis using wf_entriesD(4)[OF wf] by simp
  qed
  with ok(1) r show ?thesis by simp
qed

lemma lrb_choice_found: "0 < lrb_n p \<Longrightarrow> es \<noteq> [] \<Longrightarrow> lrb_choice ev p m es now \<noteq> None"
  using candidates_ne[of "lrb_n p" es ev] argmax_from_Some by (auto simp: lrb_choice_def split: list.splits)

lemma lrb_victim_found:
  assumes "lrb_inv p es" and "lrb_env_ok ev"
  shows "snd (snd (lrb_victim ev p es now)) \<noteq> Aborted"
    and "es \<noteq> [] \<Longrightarrow> \<exists>k. snd (snd (lrb_victim ev p es now)) = Victim k"
proof -
  have fb: "lrb_victim ev p es now = (case sampled_victim ev (lrb_fallback p) es now of
      (f, es, v) \<Rightarrow> (p\<lparr>lrb_fallback := f\<rparr>, es, v))" if "holder_now ev = None"
    using that by (simp add: lrb_victim_def)
  have m: "\<exists>p'. lrb_victim ev p es now = (p', es,
     case lrb_choice ev p (l_model l) es now of None \<Rightarrow> Declined | Some e \<Rightarrow> Victim (e_key e))"
    if "holder_now ev = Some l" for l
    using lrb_victim_choice[OF that] assms that by (auto simp: lrb_env_ok_def wf_holder_def lrb_inv_def)
  show "snd (snd (lrb_victim ev p es now)) \<noteq> Aborted"
  proof (cases "holder_now ev")
    case None
    with fb sampled_victim_choice[of ev "lrb_fallback p" es now] show ?thesis by (auto split: option.splits)
  next
    case (Some l)
    with m[OF Some] show ?thesis by (auto split: option.splits)
  qed
  assume ne: "es \<noteq> []"
  show "\<exists>k. snd (snd (lrb_victim ev p es now)) = Victim k"
  proof (cases "holder_now ev")
    case None
    have "NInf < lru_score e now" for e using lru_score_finite[of e now] by auto
    then have "\<exists>k. snd (snd (sampled_victim ev (lrb_fallback p) es now)) = Victim k"
      using sampled_found[of "lrb_fallback p" es now ev] ne assms(1) by (simp add: lrb_inv_def)
    with fb[OF None] show ?thesis by (auto split: prod.splits)
  next
    case (Some l)
    with m[OF Some] lrb_choice_found[of p es ev "l_model l" now] ne assms(1) show ?thesis
      by (auto simp: lrb_inv_def split: option.splits)
  qed
qed

interpretation learned: evicting_policy lrb_ops "\<lambda>_. NewLRB n" lrb_inv lrb_env_ok
proof
  fix es p ev now p' es' k
  assume "wf_entries es" "lrb_inv p es" "pol_victim lrb_ops ev p es now = (p', es', Victim k)"
  then show "\<exists>e. map_of es' k = Some e \<and> lrb_inv (pol_on_remove lrb_ops p' e) (AList.delete k es')"
    using lrb_victim_inv[of es p ev now p' es' "Victim k"] by (auto simp: no_remove_def lrb_inv_def)
next
  fix c show "lrb_inv (NewLRB n) []"
    by (simp add: lrb_inv_def NewLRB_def NewLRU_def newSampled_def Let_def)
next
  fix es p ev now assume "lrb_inv p es" "lrb_env_ok ev"
  then show "snd (snd (pol_victim lrb_ops ev p es now)) \<noteq> Aborted" using lrb_victim_found(1) by simp
next
  fix es p ev now assume "lrb_inv p es" "es \<noteq> []" "lrb_env_ok ev"
  then show "\<exists>k. snd (snd (pol_victim lrb_ops ev p es now)) = Victim k" using lrb_victim_found(2) by simp
next
  fix es p ev now p' es' v
  assume "wf_entries es" "lrb_inv p es" "pol_victim lrb_ops ev p es now = (p', es', v)"
  then show "same_entries es es' \<and> wf_entries es'" using lrb_victim_inv[of es p ev now p' es' v] by simp
next
  fix es p ev now p' es'
  assume "wf_entries es" "lrb_inv p es" "pol_victim lrb_ops ev p es now = (p', es', Declined)"
  then show "lrb_inv p' es'" using lrb_victim_inv[of es p ev now p' es' Declined] by simp
next
  fix es p k e now p' e'
  assume "wf_entries es" "lrb_inv p es" "map_of es k = Some e" "pol_on_access lrb_ops p (touch now e) = (p', e')"
  then show "clear_freq e' = clear_freq (touch now e) \<and> e_freq e' \<le> 3 \<and> lrb_inv p' (AList.update k e' es)"
    using touch_freq_le[OF wf_entriesD(3), of es k e now] by (simp add: no_hook_def lrb_inv_def)
next
  fix es p e p' e'
  assume "lrb_inv p es" "wf_entry e" "pol_on_admit lrb_ops p e = (p', e')"
  then show "clear_freq e' = clear_freq e \<and> e_freq e' \<le> 3 \<and> lrb_inv p' (AList.update (e_key e) e' es)"
    by (simp add: no_hook_def lrb_inv_def wf_entry_def)
qed (simp add: lrb_inv_def no_remove_def)

end
