(* ===== verification/Model_Parse.thy ===== *)
theory Model_Parse
  imports Model_Eval
begin

text \<open>
  \<^verbatim>\<open>internal/model/model.go\<close>, the loader: the line reader with its per-tree arrays, \<open>flush\<close>, which
  turns them into flat nodes, and the shape check the evaluator rests on. The input is the text of the
  file, in memory, as every caller of \<open>Load\<close> has it. Every \<open>return err\<close> is an \<open>Inl\<close>.
\<close>

section \<open>The parser's state\<close>

record parser =
  p_model :: model
  splitFeature :: "int list"
  p_threshold :: "fl list"
  decisionType :: "int list"
  leftChild :: "int list"
  rightChild :: "int list"
  leafValue :: "fl list"
  numLeaves :: int
  inTree :: bool
  p_line :: int

datatype load_error =
    BadNumber string
  | NotSingleOutput string
  | CategoricalSplit
  | LinearTrees
  | LeafCount int int
  | ArraysDisagree int
  | ChildRange int
  | RootIsChild
  | ParentCount nat byte
  | MissingHandling int
  | SplitFeature int int
  | AtLine int string load_error
  | LineTooLong
  | NoTrees
  | NoFeatureIdx

definition new_parser :: parser where
  "new_parser =
     \<lparr>p_model = \<lparr>objective = [], nodes = [], leaves = [], roots = [], sigmoid = Fin 1, num_features = 0\<rparr>,
      splitFeature = [], p_threshold = [], decisionType = [], leftChild = [], rightChild = [],
      leafValue = [], numLeaves = 0, inTree = False, p_line = 0\<rparr>"

definition reset :: "parser \<Rightarrow> parser" where
  "reset p = p\<lparr>splitFeature := [], p_threshold := [], decisionType := [],
     leftChild := [], rightChild := [], leafValue := [], numLeaves := 0\<rparr>"

section \<open>Lists of numbers\<close>

fun map_all :: "(string \<Rightarrow> 'a option) \<Rightarrow> string list \<Rightarrow> load_error + 'a list" where
  "map_all f [] = Inr []"
| "map_all f (w # ws) =
     (case f w of None \<Rightarrow> Inl (BadNumber w)
      | Some v \<Rightarrow> (case map_all f ws of Inl e \<Rightarrow> Inl e | Inr vs \<Rightarrow> Inr (v # vs)))"

definition ints32 :: "string \<Rightarrow> load_error + int list" where
  "ints32 s = map_all (ParseInt 32) (Fields s)"

definition ints64 :: "string \<Rightarrow> load_error + int list" where
  "ints64 s = map_all (ParseInt 64) (Fields s)"

definition floats32 :: "string \<Rightarrow> load_error + fl list" where
  "floats32 s = map_all (\<lambda>w. map_option to_f32 (ParseFloat w)) (Fields s)"

section \<open>The shape of one tree\<close>

text \<open>Nodes take the slots from 0, leaves the slots from \<open>internal\<close>.\<close>

definition child_slot :: "int \<Rightarrow> int \<Rightarrow> nat" where
  "child_slot internal v = nat (if v < 0 then internal + compl v else v)"

fun count_parents :: "int \<Rightarrow> int \<Rightarrow> byte list \<Rightarrow> int list \<Rightarrow> load_error + byte list" where
  "count_parents internal leafs parents [] = Inr parents"
| "count_parents internal leafs parents (v # vs) =
     (if (0 \<le> v \<and> internal \<le> v) \<or> (v < 0 \<and> leafs \<le> compl v) then Inl (ChildRange v)
      else if v = 0 then Inl RootIsChild
      else let slot = child_slot internal v
           in count_parents internal leafs (parents[slot := parents ! slot + 1]) vs)"

definition checkShape :: "parser \<Rightarrow> int \<Rightarrow> load_error option" where
  "checkShape p internal =
     (case count_parents internal (numLeaves p) (replicate (nat (internal + numLeaves p)) 0)
             (leftChild p @ rightChild p) of
        Inl e \<Rightarrow> Some e
      | Inr parents \<Rightarrow>
          map_option (\<lambda>i. ParentCount i (parents ! i)) (find (\<lambda>i. parents ! i \<noteq> 1) [1..<length parents]))"

definition child :: "int \<Rightarrow> int \<Rightarrow> int \<Rightarrow> int" where
  "child v nodeBase leafBase =
     (if 0 \<le> v then wrap32 (nodeBase + v) else compl (wrap32 (leafBase + compl v)))"

definition checkDecisionType :: "int \<Rightarrow> load_error option" where
  "checkDecisionType dt =
     (if dt AND 1 \<noteq> 0 then Some CategoricalSplit
      else let missing = drop_bit 2 dt AND 3 in if missing \<noteq> 0 then Some (MissingHandling missing) else None)"

section \<open>Flushing a tree\<close>

fun add_nodes :: "parser \<Rightarrow> int \<Rightarrow> int \<Rightarrow> int \<Rightarrow> node list \<Rightarrow> nat list \<Rightarrow> load_error + node list" where
  "add_nodes p nf base leafBase ns [] = Inr ns"
| "add_nodes p nf base leafBase ns (i # is) =
     (case checkDecisionType (decisionType p ! i) of Some e \<Rightarrow> Inl e
      | None \<Rightarrow>
          let f = splitFeature p ! i
          in if f < 0 \<or> nf \<le> f then Inl (SplitFeature f nf)
             else add_nodes p nf base leafBase
               (ns @ [\<lparr>threshold = p_threshold p ! i, feature = f,
                       left = child (leftChild p ! i) base leafBase,
                       right = child (rightChild p ! i) base leafBase\<rparr>]) is)"

definition flush :: "parser \<Rightarrow> load_error + parser" where
  "flush p =
     (if \<not> inTree p then Inr p
      else
        let m = p_model p;
            leafBase = wrap32 (int (length (leaves m)));
            m = m\<lparr>leaves := leaves m @ leafValue p\<rparr>;
            p = p\<lparr>inTree := False, p_model := m\<rparr>
        in if numLeaves p \<le> 1 then
             (if length (leafValue p) \<noteq> 1 then Inl (LeafCount (numLeaves p) (int (length (leafValue p))))
              else Inr (reset (p\<lparr>p_model := m\<lparr>roots := roots m @ [compl leafBase]\<rparr>\<rparr>)))
           else
             let internal = numLeaves p - 1
             in if int (length (splitFeature p)) \<noteq> internal \<or> int (length (p_threshold p)) \<noteq> internal \<or>
                   int (length (leftChild p)) \<noteq> internal \<or> int (length (rightChild p)) \<noteq> internal \<or>
                   int (length (decisionType p)) \<noteq> internal \<or> int (length (leafValue p)) \<noteq> numLeaves p
                then Inl (ArraysDisagree (numLeaves p))
                else case checkShape p internal of Some e \<Rightarrow> Inl e
                | None \<Rightarrow>
                    let base = wrap32 (int (length (nodes m)))
                    in case add_nodes p (num_features m) base leafBase (nodes m) [0..<nat internal] of Inl e \<Rightarrow> Inl e
                       | Inr ns \<Rightarrow> Inr (reset (p\<lparr>p_model := m\<lparr>nodes := ns, roots := roots m @ [base]\<rparr>\<rparr>)))"

section \<open>The lines\<close>

text \<open>The last positive \<^verbatim>\<open>sigmoid:\<close> of the objective wins.\<close>

definition sigmoid_part :: "fl \<Rightarrow> string \<Rightarrow> fl" where
  "sigmoid_part cur part =
     (case CutPrefix ''sigmoid:'' part of None \<Rightarrow> cur
      | Some v \<Rightarrow> (case ParseFloat v of None \<Rightarrow> cur | Some f \<Rightarrow> if Fin 0 < f then f else cur))"

definition parseSigmoid :: "string \<Rightarrow> parser \<Rightarrow> parser" where
  "parseSigmoid obj p =
     (case Fields obj of [] \<Rightarrow> p
      | w # parts \<Rightarrow> p\<lparr>p_model := (p_model p)\<lparr>sigmoid := fold (\<lambda>w s. sigmoid_part s w) parts (sigmoid (p_model p))\<rparr>\<rparr>)"

definition expectOne :: "string \<Rightarrow> string \<Rightarrow> load_error option" where
  "expectOne key val = (if val \<noteq> ''1'' then Some (NotSingleOutput key) else None)"

definition atoi_into :: "string \<Rightarrow> (int \<Rightarrow> parser) \<Rightarrow> load_error + parser" where
  "atoi_into val k = (case Atoi val of None \<Rightarrow> Inl (BadNumber val) | Some n \<Rightarrow> Inr (k n))"

definition set_key :: "string \<Rightarrow> string \<Rightarrow> parser \<Rightarrow> load_error + parser" where
  "set_key key val p =
     (if key = ''Tree'' then map_sum id (\<lambda>p. p\<lparr>inTree := True\<rparr>) (flush p)
      else if key = ''objective'' then Inr (parseSigmoid val (p\<lparr>p_model := (p_model p)\<lparr>objective := val\<rparr>\<rparr>))
      else if key = ''num_class'' \<or> key = ''num_tree_per_iteration'' then
        (case expectOne key val of Some e \<Rightarrow> Inl e | None \<Rightarrow> Inr p)
      else if key = ''max_feature_idx'' then
        atoi_into val (\<lambda>n. p\<lparr>p_model := (p_model p)\<lparr>num_features := wrap64 (n + 1)\<rparr>\<rparr>)
      else if key = ''num_leaves'' then atoi_into val (\<lambda>n. p\<lparr>numLeaves := n\<rparr>)
      else if key = ''num_cat'' then (if val \<noteq> ''0'' then Inl CategoricalSplit else Inr p)
      else if key = ''is_linear'' then (if val \<noteq> ''0'' then Inl LinearTrees else Inr p)
      else if key = ''split_feature'' then map_sum id (\<lambda>v. p\<lparr>splitFeature := v\<rparr>) (ints32 val)
      else if key = ''threshold'' then map_sum id (\<lambda>v. p\<lparr>p_threshold := v\<rparr>) (floats32 val)
      else if key = ''decision_type'' then map_sum id (\<lambda>v. p\<lparr>decisionType := v\<rparr>) (ints64 val)
      else if key = ''left_child'' then map_sum id (\<lambda>v. p\<lparr>leftChild := v\<rparr>) (ints32 val)
      else if key = ''right_child'' then map_sum id (\<lambda>v. p\<lparr>rightChild := v\<rparr>) (ints32 val)
      else if key = ''leaf_value'' then map_sum id (\<lambda>v. p\<lparr>leafValue := v\<rparr>) (floats32 val)
      else Inr p)"

fun run :: "bool \<Rightarrow> string list \<Rightarrow> parser \<Rightarrow> load_error + parser" where
  "run tooLong [] p = (if tooLong then Inl LineTooLong else flush p)"
| "run tooLong (l # ls) p =
     (let p = p\<lparr>p_line := p_line p + 1\<rparr>;
          line = TrimSpace l
      in if line = [] then run tooLong ls p
         else if line = ''end of trees'' then flush p
         else if line = ''tree'' then run tooLong ls p
         else case Cut (CHR ''='') line of None \<Rightarrow> run tooLong ls p
           | Some (key, val) \<Rightarrow>
               (case set_key key val p of
                  Inl e \<Rightarrow> Inl (AtLine (p_line p) key e)
                | Inr p \<Rightarrow> run tooLong ls p))"

definition Load :: "string \<Rightarrow> load_error + model" where
  "Load text =
     (case scan_lines (2 ^ 24) text of (ls, tooLong) \<Rightarrow>
        (case run tooLong ls new_parser of Inl e \<Rightarrow> Inl e
         | Inr p \<Rightarrow>
             let m = p_model p
             in if roots m = [] then Inl NoTrees
                else if num_features m = 0 then Inl NoFeatureIdx
                else Inr m))"

section \<open>What the shape check accepts\<close>

definition child_ok :: "int \<Rightarrow> int \<Rightarrow> int \<Rightarrow> bool" where
  "child_ok internal leafs v \<longleftrightarrow> v \<noteq> 0 \<and> v < internal \<and> - leafs \<le> v"

definition bump :: "nat \<Rightarrow> byte list \<Rightarrow> byte list" where
  "bump i ps = ps[i := ps ! i + 1]"

lemma length_bumps [simp]: "length (fold bump xs ps) = length ps"
  by (induction xs arbitrary: ps) (simp_all add: bump_def)

lemma bumps_nth:
  "list_all (\<lambda>x. x < length ps) xs \<Longrightarrow> i < length ps \<Longrightarrow>
   fold bump xs ps ! i = ps ! i + of_nat (count (mset xs) i)"
  by (induction xs arbitrary: ps) (auto simp: bump_def nth_list_update)

lemma count_parents_Inr:
  "0 \<le> internal \<Longrightarrow> list_all (child_ok internal leafs) vs \<Longrightarrow>
   count_parents internal leafs ps vs = Inr (fold bump (map (child_slot internal) vs) ps)"
  by (induction vs arbitrary: ps) (auto simp: child_ok_def bump_def Let_def compl_def)

lemma count_parents_Inl:
  "0 \<le> internal \<Longrightarrow> 0 \<le> leafs \<Longrightarrow> \<not> list_all (child_ok internal leafs) vs \<Longrightarrow> \<exists>e. count_parents internal leafs ps vs = Inl e"
  by (induction vs arbitrary: ps) (auto simp: child_ok_def Let_def compl_def)

lemma child_slot_range:
  "child_ok internal leafs v \<Longrightarrow> 0 < internal \<Longrightarrow> 0 < leafs \<Longrightarrow> child_slot internal v \<in> {1..<nat (internal + leafs)}"
  by (auto simp: child_ok_def child_slot_def compl_def)

lemma child_slot_inj: "0 < internal \<Longrightarrow> inj_on (child_slot internal) {v. child_ok internal leafs v}"
  by (auto simp: inj_on_def child_ok_def child_slot_def compl_def split: if_splits)

text \<open>
  The parent counters are bytes. They can wrap, but there are as many children as slots below the root:
  if every counter ends at one modulo 256 then no slot was missed, so none was hit twice.
\<close>

lemma counts_distinct:
  assumes "set xs \<subseteq> {1..<n}" and "length xs = n - 1"
    and "\<And>i. i \<in> {1..<n} \<Longrightarrow> of_nat (count (mset xs) i) = (1::byte)"
  shows "distinct xs"
proof (rule card_distinct)
  have "i \<in> set xs" if "i \<in> {1..<n}" for i
  proof (rule ccontr)
    assume "i \<notin> set xs"
    then have "count (mset xs) i = 0" by (simp add: not_in_iff[symmetric])
    with assms(3)[OF that] show False by simp
  qed
  with assms(1) have "set xs = {1..<n}" by blast
  then show "card (set xs) = length xs" using assms(2) by simp
qed

lemma checkShape_iff:
  assumes "0 < internal" and "numLeaves p = internal + 1"
    and "int (length (leftChild p)) = internal" and "int (length (rightChild p)) = internal"
  shows "checkShape p internal = None \<longleftrightarrow>
    list_all (child_ok internal (numLeaves p)) (leftChild p @ rightChild p) \<and> distinct (leftChild p @ rightChild p)"
proof -
  define vs where "vs = leftChild p @ rightChild p"
  define xs where "xs = map (child_slot internal) vs"
  define n where "n = nat (internal + numLeaves p)"
  let ?ok = "child_ok internal (numLeaves p)" and ?ps = "fold bump xs (replicate n 0)"
  have len: "length xs = n - 1" using assms by (simp add: xs_def vs_def n_def)
  have shape: "checkShape p internal =
    (case count_parents internal (numLeaves p) (replicate n 0) vs of Inl e \<Rightarrow> Some e
     | Inr parents \<Rightarrow> map_option (\<lambda>i. ParentCount i (parents ! i)) (find (\<lambda>i. parents ! i \<noteq> 1) [1..<length parents]))"
    by (simp add: checkShape_def vs_def n_def)
  show ?thesis
  proof (cases "list_all ?ok vs")
    case False
    then obtain e where "count_parents internal (numLeaves p) (replicate n 0) vs = Inl e"
      using count_parents_Inl[of internal "numLeaves p" vs "replicate n 0"] assms(1,2) by auto
    then have "checkShape p internal \<noteq> None" by (simp add: shape)
    then show ?thesis using False by (simp only: vs_def[symmetric] simp_thms)
  next
    case True
    have run: "count_parents internal (numLeaves p) (replicate n 0) vs = Inr ?ps"
      unfolding xs_def by (rule count_parents_Inr) (use assms(1) True in simp_all)
    have sub: "set xs \<subseteq> {1..<n}"
      using True child_slot_range[of internal "numLeaves p"] assms(1,2) by (auto simp: list_all_iff xs_def n_def)
    have "inj_on (child_slot internal) (set vs)"
      using child_slot_inj[OF assms(1), of "numLeaves p"] by (rule inj_on_subset) (use True in \<open>auto simp: list_all_iff\<close>)
    then have dist: "distinct xs = distinct vs" unfolding xs_def by (simp only: distinct_map simp_thms)
    have nth: "?ps ! i = of_nat (count (mset xs) i)" if "i \<in> {1..<n}" for i
    proof -
      have "list_all (\<lambda>x. x < length (replicate n (0::byte))) xs" using sub by (auto simp: list_all_iff)
      from bumps_nth[OF this, of i] that show ?thesis by simp
    qed
    have "checkShape p internal = None \<longleftrightarrow> (\<forall>i \<in> {1..<n}. ?ps ! i = 1)"
      unfolding shape run by (auto simp: find_None_iff)
    also have "\<dots> \<longleftrightarrow> (\<forall>i \<in> {1..<n}. of_nat (count (mset xs) i) = (1::byte))" using nth by simp
    also have "\<dots> \<longleftrightarrow> distinct xs"
    proof
      assume "\<forall>i \<in> {1..<n}. of_nat (count (mset xs) i) = (1::byte)"
      then show "distinct xs" by (intro counts_distinct[OF sub len]) blast
    next
      assume d: "distinct xs"
      then have "set xs = {1..<n}" by (intro card_subset_eq[OF _ sub]) (use len in \<open>simp_all add: distinct_card\<close>)
      then show "\<forall>i \<in> {1..<n}. of_nat (count (mset xs) i) = (1::byte)"
        using d by (auto simp: distinct_count_atmost_1)
    qed
    finally show ?thesis using True dist by (simp add: vs_def)
  qed
qed

section \<open>An accepted shape is a finite tree from its root\<close>

lemma same_parent:
  assumes "distinct (ls @ rs)" and "length ls = n" and "length rs = n" and "i < n" and "j < n"
    and "c = ls ! i \<or> c = rs ! i" and "c = ls ! j \<or> c = rs ! j"
  shows "i = j"
proof -
  obtain a where a: "(ls @ rs) ! a = c" "a < 2 * n" "a = i \<or> a = n + i"
    using assms(2-4,6) by (metis (no_types, lifting) add.commute add_less_cancel_right mult_2 nth_append nth_append_length_plus trans_less_add1)
  obtain b where b: "(ls @ rs) ! b = c" "b < 2 * n" "b = j \<or> b = n + j"
    using assms(2,3,5,7) by (metis (no_types, lifting) add.commute add_less_cancel_right mult_2 nth_append nth_append_length_plus trans_less_add1)
  have "a = b" using assms(1-3) a b nth_eq_iff_index_eq[of "ls @ rs" a b] by simp
  then show ?thesis using a(3) b(3) assms(4,5) by linarith
qed

lemma no_endless_descent:
  assumes dist: "distinct (ls @ rs)" and len: "length ls = n" "length rs = n" and n: "0 < n"
    and root: "0 \<notin> set (ls @ rs)"
    and step: "\<And>i. i < n \<Longrightarrow> bad i \<Longrightarrow> \<exists>c. c < n \<and> bad c \<and> (int c = ls ! i \<or> int c = rs ! i)"
  shows "\<not> bad 0"
proof
  assume "bad 0"
  have "\<forall>i. \<exists>c. i < n \<longrightarrow> bad i \<longrightarrow> c < n \<and> bad c \<and> (int c = ls ! i \<or> int c = rs ! i)"
    using step by blast
  from choice[OF this] obtain g where g: "\<And>i. i < n \<Longrightarrow> bad i \<Longrightarrow> g i < n \<and> bad (g i) \<and> (int (g i) = ls ! i \<or> int (g i) = rs ! i)"
    by blast
  define f where "f k = (g ^^ k) 0" for k
  have inv: "f k < n \<and> bad (f k)" for k by (induction k) (use n \<open>bad 0\<close> g in \<open>auto simp: f_def\<close>)
  have f: "f k < n" "f 0 = 0" "int (f (Suc k)) = ls ! f k \<or> int (f (Suc k)) = rs ! f k" for k
    subgoal using inv[of k] by blast
    subgoal by (simp add: f_def)
    subgoal using inv[of k] g[of "f k"] by (simp only: f_def funpow.simps o_apply simp_thms)
    done
  have pos: "f (Suc k) \<noteq> 0" for k
  proof -
    have "ls ! f k \<in> set (ls @ rs)" "rs ! f k \<in> set (ls @ rs)" using f(1)[of k] len by simp_all
    then have "ls ! f k \<noteq> 0" "rs ! f k \<noteq> 0" using root by metis+
    then show ?thesis using f(3)[of k] by linarith
  qed
  have "f a = f b \<Longrightarrow> a = b" for a b
  proof (induction a arbitrary: b)
    case 0
    then show ?case using pos f(2) by (cases b) auto
  next
    case (Suc a)
    then obtain b' where b: "b = Suc b'" using pos f(2) by (cases b) auto
    have "f a = f b'" by (rule same_parent[OF dist len f(1) f(1) f(3)]) (use f(3)[of b'] Suc.prems b in simp)
    then show ?case using Suc.IH b by simp
  qed
  then have "inj f" by (simp add: inj_def)
  moreover have "finite (range f)" by (rule finite_subset[of _ "{..<n}"]) (use f(1) in auto)
  ultimately show False using finite_imageD infinite_UNIV_nat by blast
qed

section \<open>Every tree a flush adds is finite, with its indices in range\<close>

definition flat_node :: "parser \<Rightarrow> int \<Rightarrow> int \<Rightarrow> nat \<Rightarrow> node" where
  "flat_node p base leafBase i =
     \<lparr>threshold = p_threshold p ! i, feature = splitFeature p ! i,
      left = child (leftChild p ! i) base leafBase, right = child (rightChild p ! i) base leafBase\<rparr>"

lemma add_nodes_ok:
  "add_nodes p nf base leafBase ns is = Inr ns' \<Longrightarrow>
   ns' = ns @ map (flat_node p base leafBase) is \<and> (\<forall>i \<in> set is. 0 \<le> splitFeature p ! i \<and> splitFeature p ! i < nf)"
proof (induction "is" arbitrary: ns)
  case (Cons i "is")
  then have "add_nodes p nf base leafBase (ns @ [flat_node p base leafBase i]) is = Inr ns'"
    and "0 \<le> splitFeature p ! i \<and> splitFeature p ! i < nf"
    by (auto simp: flat_node_def Let_def split: option.splits if_splits)
  then show ?case using Cons.IH by fastforce
qed simp

definition trees_ok :: "int \<Rightarrow> model \<Rightarrow> bool" where
  "trees_ok B m \<longleftrightarrow> list_all (tree_at (nodes m) (int (length (leaves m))) B) (roots m)"

definition small :: "model \<Rightarrow> bool" where
  "small m \<longleftrightarrow> length (nodes m) < 2 ^ 31 \<and> length (leaves m) < 2 ^ 31"

lemma tree_at_more_leaves:
  "list_all (tree_at ns nl nf) is \<Longrightarrow> nl \<le> nl' \<Longrightarrow> list_all (tree_at (ns @ ns') nl' nf) is"
  by (auto simp: list_all_iff intro: tree_at_mono)

lemma tree_at_features: "tree_at ns nl nf i \<Longrightarrow> nf \<le> nf' \<Longrightarrow> tree_at ns nl nf' i"
  by (induction rule: tree_at.induct) (auto intro: tree_at.intros)

text \<open>The accepted shape, moved to its place in the flat arrays, is a finite tree.\<close>

lemma flat_tree:
  assumes n: "0 < n" and len: "length (leftChild p) = n" "length (rightChild p) = n"
    and ok: "list_all (child_ok (int n) (int n + 1)) (leftChild p @ rightChild p)"
    and dist: "distinct (leftChild p @ rightChild p)"
    and feat: "\<And>i. i < n \<Longrightarrow> 0 \<le> splitFeature p ! i \<and> splitFeature p ! i < nf"
    and small: "b + n < 2 ^ 31" "lb + n + 1 < 2 ^ 31"
    and ns: "length ns = b + n" "\<And>i. i < n \<Longrightarrow> ns ! (b + i) = flat_node p (int b) (int lb) i"
  shows "tree_at ns (int (lb + n + 1)) nf (int b)"
proof -
  let ?T = "tree_at ns (int (lb + n + 1)) nf"
  have ok: "child_ok (int n) (int n + 1) v" if "v \<in> set (leftChild p) \<union> set (rightChild p)" for v
    using ok that by (auto simp: list_all_iff)
  have leaf: "?T (child v (int b) (int lb))" if "v < 0" "child_ok (int n) (int n + 1) v" for v
  proof (rule tree_at.leaf)
    have "wrap32 (int lb + compl v) = int lb + compl v"
      by (rule wrap32_id) (use that small in \<open>simp add: child_ok_def compl_def\<close>)
    then have "child v (int b) (int lb) = compl (int lb + compl v)" using that by (simp add: child_def)
    then show "child v (int b) (int lb) < 0" "compl (child v (int b) (int lb)) < int (lb + n + 1)"
      using that by (simp_all add: child_ok_def compl_def)
  qed
  have inner: "child (int c) (int b) (int lb) = int b + int c" if "c < n" for c
    unfolding child_def using wrap32_id[of "int b + int c"] that small by simp
  have "\<not> (\<lambda>i. \<not> ?T (int b + int i)) 0"
  proof (rule no_endless_descent[OF dist len n])
    show "0 \<notin> set (leftChild p @ rightChild p)" using ok by (auto simp: child_ok_def)
  next
    fix i assume i: "i < n" and bad: "\<not> ?T (int b + int i)"
    let ?l = "leftChild p ! i" and ?r = "rightChild p ! i"
    have mem: "?l \<in> set (leftChild p) \<union> set (rightChild p)" "?r \<in> set (leftChild p) \<union> set (rightChild p)"
      using i len by simp_all
    have nd: "ns ! nat (int b + int i) = flat_node p (int b) (int lb) i" using ns(2)[OF i] by (simp add: nat_add_distrib)
    have "\<not> (?T (child ?l (int b) (int lb)) \<and> ?T (child ?r (int b) (int lb)))"
    proof
      assume "?T (child ?l (int b) (int lb)) \<and> ?T (child ?r (int b) (int lb))"
      then have "?T (int b + int i)"
        by (intro tree_at.node[OF _ _ nd]) (use i ns(1) feat[OF i] in \<open>simp_all add: flat_node_def\<close>)
      with bad show False ..
    qed
    then obtain v where v: "v = ?l \<or> v = ?r" "\<not> ?T (child v (int b) (int lb))" by blast
    then have vok: "child_ok (int n) (int n + 1) v" using ok mem by blast
    then have "0 \<le> v" using leaf v(2) by force
    then obtain c where c: "v = int c" by (metis nonneg_int_cases)
    then have "c < n" using vok by (simp add: child_ok_def)
    then show "\<exists>c. c < n \<and> \<not> ?T (int b + int c) \<and> (int c = ?l \<or> int c = ?r)"
      using v inner[of c] c by auto
  qed
  then show ?thesis by simp
qed

lemma flush_ok:
  assumes "flush p = Inr p'" and "small (p_model p) \<longrightarrow> trees_ok B (p_model p)" and "num_features (p_model p) \<le> B"
    and "small (p_model p')"
  shows "trees_ok B (p_model p')" and "num_features (p_model p') = num_features (p_model p)"
    and "small (p_model p)"
proof -
  let ?m = "p_model p"
  have "trees_ok B (p_model p') \<and> num_features (p_model p') = num_features ?m \<and> small ?m"
  proof (cases "inTree p")
    case False
    then show ?thesis using assms by (auto simp: flush_def)
  next
    case inT: True
    show ?thesis
    proof (cases "numLeaves p \<le> 1")
      case True
      have m': "p_model p' = ?m\<lparr>leaves := leaves ?m @ leafValue p, roots := roots ?m @ [compl (wrap32 (int (length (leaves ?m))))]\<rparr>"
        and l: "length (leafValue p) = 1"
        using assms(1) inT True by (auto simp: flush_def reset_def Let_def split: if_splits)
      then have sm: "length (leaves ?m) + 1 < 2 ^ 31" "small ?m" using assms(4) by (simp_all add: small_def)
      then have w: "wrap32 (int (length (leaves ?m))) = int (length (leaves ?m))" by (intro wrap32_id) simp
      have "list_all (tree_at (nodes ?m @ []) (int (length (leaves ?m) + 1)) B) (roots ?m)"
        by (rule tree_at_more_leaves) (use assms(2) sm in \<open>auto simp: trees_ok_def\<close>)
      moreover have "tree_at (nodes ?m) (int (length (leaves ?m) + 1)) B (compl (int (length (leaves ?m))))"
        by (rule tree_at.leaf) (simp_all add: compl_def)
      ultimately show ?thesis using m' l w sm by (simp add: trees_ok_def)
    next
      case False
      define n where "n = nat (numLeaves p - 1)"
      have n: "numLeaves p - 1 = int n" "0 < n" "numLeaves p = int n + 1" using False by (simp_all add: n_def)
      let ?b = "wrap32 (int (length (nodes ?m)))" and ?lb = "wrap32 (int (length (leaves ?m)))"
      let ?p = "p\<lparr>inTree := False, p_model := ?m\<lparr>leaves := leaves ?m @ leafValue p\<rparr>\<rparr>"
      obtain ns where lens: "length (leftChild p) = n" "length (rightChild p) = n" "length (leafValue p) = n + 1"
        and shape: "checkShape ?p (int n) = None"
        and add: "add_nodes ?p (num_features ?m) ?b ?lb (nodes ?m) [0..<n] = Inr ns"
        and m': "p_model p' = ?m\<lparr>leaves := leaves ?m @ leafValue p, nodes := ns, roots := roots ?m @ [?b]\<rparr>"
        using assms(1) inT False n by (auto simp: flush_def reset_def Let_def split: if_splits option.splits sum.splits)
      note A = add_nodes_ok[OF add]
      have sm: "length (nodes ?m) + n < 2 ^ 31" "length (leaves ?m) + n + 1 < 2 ^ 31"
        using assms(4) m' A lens by (simp_all add: small_def)
      then have w: "?b = int (length (nodes ?m))" "?lb = int (length (leaves ?m))" by (simp_all add: wrap32_id)
      have sh: "list_all (child_ok (int n) (int n + 1)) (leftChild p @ rightChild p)" "distinct (leftChild p @ rightChild p)"
        using checkShape_iff[of "int n" ?p] shape n lens by simp_all
      have ns: "ns = nodes ?m @ map (flat_node p ?b ?lb) [0..<n]" using A by (simp add: flat_node_def)
      have "tree_at ns (int (length (leaves ?m) + n + 1)) (num_features ?m) (int (length (nodes ?m)))"
        by (rule flat_tree[OF n(2) lens(1,2) sh]) (use A sm ns w in \<open>auto simp: nth_append\<close>)
      then have new: "tree_at ns (int (length (leaves ?m) + n + 1)) B (int (length (nodes ?m)))"
        using tree_at_features assms(3) by blast
      have sm': "small ?m" using sm by (simp add: small_def)
      have "list_all (tree_at ns (int (length (leaves ?m) + n + 1)) B) (roots ?m)"
        unfolding ns by (rule tree_at_more_leaves) (use assms(2) sm' in \<open>auto simp: trees_ok_def\<close>)
      with new show ?thesis using m' lens w sm' by (simp add: trees_ok_def)
    qed
  qed
  then show "trees_ok B (p_model p')" and "num_features (p_model p') = num_features ?m" and "small ?m" by simp_all
qed

section \<open>What Load accepts\<close>

text \<open>The feature counts the lines declare, down to the end marker.\<close>

definition declared_count :: "string \<Rightarrow> int option" where
  "declared_count l =
     (case Cut (CHR ''='') (TrimSpace l) of
        Some (key, val) \<Rightarrow> (if key = ''max_feature_idx'' then map_option (\<lambda>n. wrap64 (n + 1)) (Atoi val) else None)
      | None \<Rightarrow> None)"

definition declared_counts :: "string list \<Rightarrow> int list" where
  "declared_counts ls = List.map_filter declared_count (takeWhile (\<lambda>l. TrimSpace l \<noteq> ''end of trees'') ls)"

definition text_lines :: "string \<Rightarrow> string list" where
  "text_lines s = fst (scan_lines (2 ^ 24) s)"

lemma declared_counts_Cons:
  "declared_counts (l # ls) = (if TrimSpace l = ''end of trees'' then []
     else (case declared_count l of None \<Rightarrow> declared_counts ls | Some c \<Rightarrow> c # declared_counts ls))"
  by (auto simp: declared_counts_def map_filter_simps split: option.split)

definition parse_inv :: "int \<Rightarrow> parser \<Rightarrow> bool" where
  "parse_inv B p \<longleftrightarrow> (small (p_model p) \<longrightarrow> trees_ok B (p_model p)) \<and> num_features (p_model p) \<le> B"

lemma flush_inv:
  assumes "flush p = Inr p'" and "parse_inv B p"
  shows "parse_inv B p'" and "small (p_model p') \<Longrightarrow> small (p_model p)"
proof -
  have nf: "num_features (p_model p') = num_features (p_model p)"
    using assms(1) by (auto simp: flush_def reset_def Let_def split: if_splits option.splits sum.splits)
  show "parse_inv B p'" using flush_ok(1)[OF assms(1)] assms(2) nf by (auto simp: parse_inv_def)
  show "small (p_model p') \<Longrightarrow> small (p_model p)" using flush_ok(3)[OF assms(1)] assms(2) by (auto simp: parse_inv_def)
qed

lemma set_key_keeps:
  assumes "set_key key val p = Inr p'" and "key \<noteq> ''Tree''"
  shows "nodes (p_model p') = nodes (p_model p)" and "leaves (p_model p') = leaves (p_model p)"
    and "roots (p_model p') = roots (p_model p)"
    and "num_features (p_model p') = (if key = ''max_feature_idx'' then wrap64 (the (Atoi val) + 1) else num_features (p_model p))"
    and "key = ''max_feature_idx'' \<Longrightarrow> Atoi val \<noteq> None"
  using assms
  by (auto simp: set_key_def parseSigmoid_def atoi_into_def map_sum_def split: if_splits option.splits list.splits sum.splits)

lemma set_key_inv:
  assumes "set_key key val p = Inr p'" and "parse_inv B p"
    and "\<And>n. key = ''max_feature_idx'' \<Longrightarrow> Atoi val = Some n \<Longrightarrow> wrap64 (n + 1) \<le> B"
  shows "parse_inv B p'" and "small (p_model p') \<Longrightarrow> small (p_model p)"
proof -
  have "parse_inv B p' \<and> (small (p_model p') \<longrightarrow> small (p_model p))"
  proof (cases "key = ''Tree''")
    case True
    then obtain q where q: "flush p = Inr q" "p' = q\<lparr>inTree := True\<rparr>"
      using assms(1) by (auto simp: set_key_def map_sum_def split: sum.splits)
    show ?thesis using flush_inv[OF q(1) assms(2)] q(2) by (auto simp: parse_inv_def)
  next
    case False
    note K = set_key_keeps[OF assms(1) False]
    have "num_features (p_model p') \<le> B" using K(4,5) assms(2,3) by (auto simp: parse_inv_def)
    then show ?thesis using assms(2) K(1-3) by (auto simp: parse_inv_def small_def trees_ok_def)
  qed
  then show "parse_inv B p'" and "small (p_model p') \<Longrightarrow> small (p_model p)" by simp_all
qed

lemma run_inv:
  "run tooLong ls p = Inr p' \<Longrightarrow> parse_inv B p \<Longrightarrow> (\<And>c. c \<in> set (declared_counts ls) \<Longrightarrow> c \<le> B) \<Longrightarrow> parse_inv B p'"
proof (induction ls arbitrary: p)
  case Nil
  then show ?case using flush_inv(1) by (auto split: if_splits)
next
  case (Cons l ls)
  let ?p = "p\<lparr>p_line := p_line p + 1\<rparr>"
  have inv: "parse_inv B ?p" using Cons.prems(2) by (simp add: parse_inv_def)
  show ?case
  proof (cases "TrimSpace l = ''end of trees''")
    case True
    then show ?thesis using Cons.prems(1) flush_inv(1)[OF _ inv] by (simp add: Let_def)
  next
    case False
    then have later: "c \<le> B" if "c \<in> set (declared_counts ls)" for c
      using Cons.prems(3)[of c] that by (simp add: declared_counts_Cons split: option.splits)
    show ?thesis
    proof (cases "TrimSpace l = [] \<or> TrimSpace l = ''tree'' \<or> Cut (CHR ''='') (TrimSpace l) = None")
      case True
      then have "run tooLong ls ?p = Inr p'" using Cons.prems(1) False by (auto simp: Let_def split: if_splits)
      then show ?thesis by (rule Cons.IH[OF _ inv later])
    next
      case kv: False
      then obtain key val where cut: "Cut (CHR ''='') (TrimSpace l) = Some (key, val)" by auto
      then obtain q where q: "set_key key val ?p = Inr q" "run tooLong ls q = Inr p'"
        using Cons.prems(1) False kv by (auto simp: Let_def split: sum.splits)
      have "wrap64 (n + 1) \<le> B" if "key = ''max_feature_idx''" "Atoi val = Some n" for n
        using Cons.prems(3)[of "wrap64 (n + 1)"] that False cut by (simp add: declared_counts_Cons declared_count_def)
      from set_key_inv(1)[OF q(1) inv this] have "parse_inv B q" .
      then show ?thesis by (rule Cons.IH[OF q(2) _ later])
    qed
  qed
qed

lemma Load_trees:
  assumes "Load text = Inr m" and "small m" and "\<And>c. c \<in> set (declared_counts (text_lines text)) \<Longrightarrow> c \<le> B" and "0 \<le> B"
  shows "trees_ok B m" and "num_features m \<le> B" and "roots m \<noteq> []"
proof -
  obtain p where p: "run (snd (scan_lines (2 ^ 24) text)) (text_lines text) new_parser = Inr p" "m = p_model p" "roots m \<noteq> []"
    using assms(1) by (auto simp: Load_def text_lines_def Let_def split: prod.splits sum.splits if_splits)
  have "parse_inv B new_parser" using assms(4) by (simp add: parse_inv_def new_parser_def trees_ok_def)
  from run_inv[OF p(1) this assms(3)] have "parse_inv B p" .
  then show "trees_ok B m" and "num_features m \<le> B" using assms(2) p(2) by (simp_all add: parse_inv_def)
  show "roots m \<noteq> []" by (rule p(3))
qed

lemma Load_wf:
  assumes "Load text = Inr m" and "small m" and "0 < num_features m"
    and "\<And>c. c \<in> set (declared_counts (text_lines text)) \<Longrightarrow> c \<le> num_features m"
  shows "wf_model m"
  using Load_trees[OF assms(1,2,4)] assms(3) by (simp add: wf_model_def trees_ok_def)

lemma Load_Raw:
  assumes "Load text = Inr m" and "small m" and "num_features m \<le> int (length fs)"
    and "\<And>c. c \<in> set (declared_counts (text_lines text)) \<Longrightarrow> c \<le> num_features m"
  shows "\<exists>x. Raw m fs = Some (Inr x)"
proof -
  let ?B = "max 0 (num_features m)"
  have "trees_ok ?B m" by (rule Load_trees(1)[OF assms(1,2)]) (use assms(4) in \<open>auto simp: le_max_iff_disj\<close>)
  then show ?thesis unfolding Raw_def by (intro sum_trees_ends[where nf = ?B]) (use assms(3) in \<open>auto simp: trees_ok_def\<close>)
qed

section \<open>A model is no larger than its text\<close>

lemma map_all_length: "map_all f ws = Inr vs \<Longrightarrow> length vs = length ws"
  by (induction ws arbitrary: vs) (auto split: option.splits sum.splits)

lemma list_lengths:
  "ints32 s = Inr vs \<Longrightarrow> length vs \<le> length s" "floats32 s = Inr xs \<Longrightarrow> length xs \<le> length s"
  using length_Fields[of s] by (auto simp: ints32_def floats32_def dest!: map_all_length)

definition weight_inv :: "nat \<Rightarrow> parser \<Rightarrow> bool" where
  "weight_inv n p \<longleftrightarrow> length (nodes (p_model p)) + length (splitFeature p) \<le> n \<and>
     length (leaves (p_model p)) + length (leafValue p) \<le> n"

lemma weight_inv_mono: "weight_inv n p \<Longrightarrow> n \<le> n' \<Longrightarrow> weight_inv n' p"
  by (auto simp: weight_inv_def)

lemma flush_weight:
  assumes "flush p = Inr p'" and "weight_inv n p"
  shows "weight_inv n p'"
proof (cases "inTree p \<and> 1 < numLeaves p")
  case False
  then show ?thesis using assms by (auto simp: flush_def reset_def Let_def weight_inv_def split: if_splits)
next
  case True
  then obtain ns p1 lb base where ns: "add_nodes p1 (num_features (p_model p)) base lb (nodes (p_model p)) [0..<nat (numLeaves p - 1)] = Inr ns"
    and p': "nodes (p_model p') = ns" "leaves (p_model p') = leaves (p_model p) @ leafValue p" "splitFeature p' = []" "leafValue p' = []"
    and l: "int (length (splitFeature p)) = numLeaves p - 1"
    using assms(1) by (auto simp: flush_def reset_def Let_def split: if_splits option.splits sum.splits)
  have "length ns = length (nodes (p_model p)) + length (splitFeature p)"
    using add_nodes_ok[OF ns] l by simp
  then show ?thesis using assms(2) p' by (simp add: weight_inv_def)
qed

lemma set_key_weight:
  assumes "set_key key val p = Inr p'" and "weight_inv n p"
  shows "weight_inv (n + length val) p'"
proof (cases "key = ''Tree''")
  case True
  then obtain q where "flush p = Inr q" "p' = q\<lparr>inTree := True\<rparr>"
    using assms(1) by (auto simp: set_key_def map_sum_def split: sum.splits)
  then show ?thesis using flush_weight[OF _ assms(2)] weight_inv_mono[of n q "n + length val"] by (simp add: weight_inv_def)
next
  case False
  note K = set_key_keeps[OF assms(1) False]
  have "length (splitFeature p') \<le> length (splitFeature p) \<or> length (splitFeature p') \<le> length val"
    "length (leafValue p') \<le> length (leafValue p) \<or> length (leafValue p') \<le> length val"
    using assms(1) False list_lengths
    by (auto simp: set_key_def parseSigmoid_def atoi_into_def map_sum_def split: if_splits option.splits list.splits sum.splits)
  then show ?thesis using assms(2) K(1,2) by (auto simp: weight_inv_def)
qed

lemma run_weight:
  "run tooLong ls p = Inr p' \<Longrightarrow> weight_inv n p \<Longrightarrow> weight_inv (n + sum_list (map length ls)) p'"
proof (induction ls arbitrary: p n)
  case Nil
  then show ?case using flush_weight by (auto split: if_splits)
next
  case (Cons l ls)
  let ?p = "p\<lparr>p_line := p_line p + 1\<rparr>"
  have inv: "weight_inv n ?p" using Cons.prems(2) by (simp add: weight_inv_def)
  show ?case
  proof (cases "TrimSpace l = ''end of trees''")
    case True
    then have "weight_inv n p'" using Cons.prems(1) flush_weight[OF _ inv] by (simp add: Let_def)
    then show ?thesis by (rule weight_inv_mono) simp
  next
    case False
    show ?thesis
    proof (cases "TrimSpace l = [] \<or> TrimSpace l = ''tree'' \<or> Cut (CHR ''='') (TrimSpace l) = None")
      case True
      then have "run tooLong ls ?p = Inr p'" using Cons.prems(1) False by (auto simp: Let_def split: if_splits)
      from Cons.IH[OF this inv] show ?thesis by (rule weight_inv_mono) simp
    next
      case kv: False
      then obtain key val where cut: "Cut (CHR ''='') (TrimSpace l) = Some (key, val)" by auto
      then obtain q where q: "set_key key val ?p = Inr q" "run tooLong ls q = Inr p'"
        using Cons.prems(1) False kv by (auto simp: Let_def split: sum.splits)
      have "length val \<le> length l" using length_Cut[OF cut] length_TrimSpace[of l] by simp
      then show ?thesis by (intro weight_inv_mono[OF Cons.IH[OF q(2) set_key_weight[OF q(1) inv]]]) simp
    qed
  qed
qed

lemma Load_size:
  assumes "Load text = Inr m"
  shows "length (nodes m) \<le> length text" and "length (leaves m) \<le> length text"
proof -
  obtain p where p: "run (snd (scan_lines (2 ^ 24) text)) (text_lines text) new_parser = Inr p" "m = p_model p"
    using assms by (auto simp: Load_def text_lines_def Let_def split: prod.splits sum.splits if_splits)
  have "weight_inv 0 new_parser" by (simp add: weight_inv_def new_parser_def)
  from run_weight[OF p(1) this] have "weight_inv (sum_list (map length (text_lines text))) p" by simp
  moreover have "sum_list (map length (text_lines text)) \<le> length text"
    unfolding text_lines_def by (rule length_scan_lines)
  ultimately show "length (nodes m) \<le> length text" and "length (leaves m) \<le> length text"
    using p(2) by (auto simp: weight_inv_def)
qed

corollary Load_small: "Load text = Inr m \<Longrightarrow> length text < 2 ^ 31 \<Longrightarrow> small m"
  using Load_size[of _ m] by (fastforce simp: small_def)

section \<open>Number lists survive printing\<close>

lemma ints32_show:
  assumes "list_all in_i32 vs"
  shows "ints32 (join_blank (map show_int vs)) = Inr vs"
proof -
  have "map_all (ParseInt 32) (map show_int vs) = Inr vs"
    using assms by (induction vs) (simp_all add: ParseInt_show)
  moreover have "Fields (join_blank (map show_int vs)) = map show_int vs"
    by (rule fields_join) (simp add: list_all_iff show_int_word)
  ultimately show ?thesis by (simp add: ints32_def)
qed

section \<open>A concrete file\<close>

text \<open>
  Two trees, the first split on feature 5. The line before the end marker is left open: the feature count
  it declares is checked against neither tree, the first being in the arrays already and the second a leaf.
\<close>

definition file_lines :: "string \<Rightarrow> string list" where
  "file_lines l =
     [''max_feature_idx=5'', ''Tree=0'', ''num_leaves=2'', ''split_feature=5'', ''threshold=1'', ''decision_type=2'',
      ''left_child=-1'', ''right_child=-2'', ''leaf_value=1 2'', ''Tree=1'', ''num_leaves=1'', ''leaf_value=2'',
      l, ''end of trees'']"

definition file_model :: "int \<Rightarrow> model" where
  "file_model nf =
     \<lparr>objective = [], nodes = [\<lparr>threshold = Fin 1, feature = 5, left = -1, right = -2\<rparr>],
      leaves = [Fin 1, Fin 2, Fin 2], roots = [0, -3], sigmoid = Fin 1, num_features = nf\<rparr>"

abbreviation kept_text :: string where "kept_text \<equiv> lf_lines (file_lines ''max_feature_idx=5'')"
abbreviation lowered_text :: string where "lowered_text \<equiv> lf_lines (file_lines ''max_feature_idx=0'')"

lemma file_text_lines:
  "text_lines kept_text = file_lines ''max_feature_idx=5''" "scan_lines (2 ^ 24) kept_text = (file_lines ''max_feature_idx=5'', False)"
  "text_lines lowered_text = file_lines ''max_feature_idx=0''" "scan_lines (2 ^ 24) lowered_text = (file_lines ''max_feature_idx=0'', False)"
proof -
  have short: "list_all (\<lambda>l. length l < 20) (raw_lines kept_text)" "list_all (\<lambda>l. length l < 20) (raw_lines lowered_text)"
    by code_simp+
  have "map drop_cr (raw_lines kept_text) = file_lines ''max_feature_idx=5''"
    "map drop_cr (raw_lines lowered_text) = file_lines ''max_feature_idx=0''" by code_simp+
  then have scan: "scan_lines (2 ^ 24) kept_text = (file_lines ''max_feature_idx=5'', False)"
    "scan_lines (2 ^ 24) lowered_text = (file_lines ''max_feature_idx=0'', False)"
    using scan_lines_short[OF short(1), of "2 ^ 24"] scan_lines_short[OF short(2), of "2 ^ 24"] by simp_all
  then show "text_lines kept_text = file_lines ''max_feature_idx=5''" "scan_lines (2 ^ 24) kept_text = (file_lines ''max_feature_idx=5'', False)"
    "text_lines lowered_text = file_lines ''max_feature_idx=0''" "scan_lines (2 ^ 24) lowered_text = (file_lines ''max_feature_idx=0'', False)"
    by (simp_all only: text_lines_def fst_conv)
qed

lemma file_trim:
  "TrimSpace ''max_feature_idx=5'' = ''max_feature_idx=5''" "TrimSpace ''Tree=0'' = ''Tree=0''"
  "TrimSpace ''num_leaves=2'' = ''num_leaves=2''" "TrimSpace ''split_feature=5'' = ''split_feature=5''"
  "TrimSpace ''threshold=1'' = ''threshold=1''" "TrimSpace ''decision_type=2'' = ''decision_type=2''"
  "TrimSpace ''left_child=-1'' = ''left_child=-1''" "TrimSpace ''right_child=-2'' = ''right_child=-2''"
  "TrimSpace ''leaf_value=1 2'' = ''leaf_value=1 2''" "TrimSpace ''max_feature_idx=0'' = ''max_feature_idx=0''"
  "TrimSpace ''Tree=1'' = ''Tree=1''" "TrimSpace ''num_leaves=1'' = ''num_leaves=1''"
  "TrimSpace ''leaf_value=2'' = ''leaf_value=2''" "TrimSpace ''end of trees'' = ''end of trees''"
  by code_simp+

lemma file_ints:
  "ints32 ''5'' = Inr [5]" "ints32 ''-1'' = Inr [-1]" "ints32 ''-2'' = Inr [-2]" "ints64 ''2'' = Inr [2]"
  "Atoi ''0'' = Some 0" "Atoi ''1'' = Some 1" "Atoi ''2'' = Some 2" "Atoi ''5'' = Some 5"
  by (simp_all add: ints32_def ints64_def read_simps)

lemma file_floats:
  "floats32 ''1'' = Inr [Fin 1]" "floats32 ''2'' = Inr [Fin 2]" "floats32 ''1 2'' = Inr [Fin 1, Fin 2]"
proof -
  have "fround F64 1 = Fin 1" "fround F64 2 = Fin 2" "fround F32 1 = Fin 1" "fround F32 2 = Fin 2"
    using fround_int[of F64 1] fround_int[of F64 2] fround_int[of F32 1] fround_int[of F32 2] std_fmts by simp_all
  moreover have "float_value ''1'' = Some 1" "float_value ''2'' = Some 2" by code_simp+
  ultimately show "floats32 ''1'' = Inr [Fin 1]" "floats32 ''2'' = Inr [Fin 2]" "floats32 ''1 2'' = Inr [Fin 1, Fin 2]"
    by (simp_all add: floats32_def ParseFloat_def read_simps lower_char_def to_f32_def)
qed

lemma file_wraps: "wrap64 6 = 6" "wrap64 1 = 1" "wrap32 0 = 0" "wrap32 1 = 1" "wrap32 2 = 2"
  by code_simp+

definition between_trees :: "int \<Rightarrow> model \<Rightarrow> parser" where
  "between_trees line m =
     \<lparr>p_model = m, splitFeature = [], p_threshold = [], decisionType = [], leftChild = [], rightChild = [],
      leafValue = [], numLeaves = 0, inTree = False, p_line = line\<rparr>"

lemma file_first_tree:
  "flush \<lparr>p_model = \<lparr>objective = [], nodes = [], leaves = [], roots = [], sigmoid = Fin 1, num_features = 6\<rparr>,
     splitFeature = [5], p_threshold = [Fin 1], decisionType = [2], leftChild = [-1], rightChild = [-2],
     leafValue = [Fin 1, Fin 2], numLeaves = 2, inTree = True, p_line = 10\<rparr> =
   Inr (between_trees 10 ((file_model 6)\<lparr>leaves := [Fin 1, Fin 2], roots := [0]\<rparr>))"
  by (simp add: flush_def Let_def checkShape_def child_slot_def compl_def checkDecisionType_def child_def file_wraps
      reset_def numeral_3_eq_3 upt_rec file_model_def between_trees_def)

lemma flush_idle: "\<not> inTree p \<Longrightarrow> flush p = Inr p"
  by (simp add: flush_def)

lemma file_run:
  "run False (file_lines ''max_feature_idx=5'') new_parser = Inr (between_trees 14 (file_model 6))"
  "run False (file_lines ''max_feature_idx=0'') new_parser = Inr (between_trees 14 (file_model 1))"
  unfolding file_lines_def
  by (simp_all add: file_trim file_ints file_floats file_wraps file_first_tree Cut_def set_key_def atoi_into_def
      new_parser_def flush_idle Let_def between_trees_def)
    (simp_all add: flush_def reset_def Let_def file_wraps file_model_def compl_def)

lemma file_load: "Load kept_text = Inr (file_model 6)" "Load lowered_text = Inr (file_model 1)"
  unfolding Load_def file_text_lines(2,4)
  by (simp_all add: file_run Let_def between_trees_def file_model_def)

lemma file_declared: "declared_counts (text_lines kept_text) = [6, 6]" "declared_counts (text_lines lowered_text) = [6, 1]"
  unfolding file_text_lines(1,3)
  by (simp_all add: file_lines_def declared_counts_Cons declared_count_def file_trim Cut_def file_ints file_wraps)

end
