(* ===== verification/Watcher.thy ===== *)
theory Watcher
  imports Registry_Watch Lrb Model_Parse
begin

text \<open>
  \<^verbatim>\<open>internal/registry/watcher.go\<close>: the cache node's side, which fetches an announced model, checks it and
  installs it in the policy's holder. The registry is seen through its streams: the response to a
  \<open>GetModel\<close> is the list of its messages, the watch stream a list of announced metadata that ends when
  the stream breaks.
\<close>

definition text_of :: "byte list \<Rightarrow> string" where
  "text_of body = map (\<lambda>b. char_of (unat b)) body"

section \<open>Installing one model\<close>

datatype incompatible = NoMetadata | WrongFormat string | WrongBoundary int

datatype install_error = Incompatible incompatible | FetchFailed stream_error | BadModel load_error | Refused store_error

definition compatible :: "int \<Rightarrow> meta option \<Rightarrow> incompatible option" where
  "compatible boundary m =
     (case m of None \<Rightarrow> Some NoMetadata
      | Some m \<Rightarrow>
          if m_format m \<noteq> modelFormat then Some (WrongFormat (m_format m))
          else let got = wrap64 (int (unat (m_boundary m)) * 1000000000)
            in if got \<noteq> boundary then Some (WrongBoundary got) else None)"

definition fetch :: "(byte list \<Rightarrow> string) \<Rightarrow> (string \<Rightarrow> item list) \<Rightarrow> string \<Rightarrow> stream_error + meta \<times> byte list" where
  "fetch sha get version = receive sha (get version)"

definition install :: "(byte list \<Rightarrow> string) \<Rightarrow> (string \<Rightarrow> item list) \<Rightarrow> int \<Rightarrow> meta option \<Rightarrow> model_holder \<Rightarrow>
    install_error option \<times> model_holder" where
  "install sha get boundary m h =
     (case compatible boundary m of Some e \<Rightarrow> (Some (Incompatible e), h)
      | None \<Rightarrow>
          (case fetch sha get (m_version (the m)) of
             Inl e \<Rightarrow> (Some (FetchFailed e), h)
           | Inr (served, body) \<Rightarrow>
               (case compatible boundary (Some served) of Some e \<Rightarrow> (Some (Incompatible e), h)
                | None \<Rightarrow>
                    (case Load (text_of body) of
                       Inl e \<Rightarrow> (Some (BadModel e), h)
                     | Inr model \<Rightarrow>
                         (case Store model (m_version served) boundary h of
                            (Inl e, h) \<Rightarrow> (Some (Refused e), h)
                          | (Inr _, h) \<Rightarrow> (None, h))))))"

section \<open>The loop\<close>

text \<open>One watch stream: each announced model is installed or refused; refusals are counted and go on.\<close>

fun watch_stream :: "(byte list \<Rightarrow> string) \<Rightarrow> (string \<Rightarrow> item list) \<Rightarrow> int \<Rightarrow> meta option list \<Rightarrow>
    model_holder \<times> nat \<times> nat \<Rightarrow> model_holder \<times> nat \<times> nat" where
  "watch_stream sha get boundary [] st = st"
| "watch_stream sha get boundary (m # ms) (h, loads, failures) =
     (case install sha get boundary m h of (e, h) \<Rightarrow>
        watch_stream sha get boundary ms
          (h, (if e = None then loads + 1 else loads), (if e = None then failures else failures + 1)))"

definition minBackoff :: int where "minBackoff = 1000000000"
definition maxBackoff :: int where "maxBackoff = 30 * 1000000000"

text \<open>
  \<open>Run\<close>: one connection after the other until the context is cancelled. A connection is what it
  announced and how long it lasted; the delays waited between connections are the result's last part.
\<close>

fun Run :: "(byte list \<Rightarrow> string) \<Rightarrow> (string \<Rightarrow> item list) \<Rightarrow> int \<Rightarrow> (meta option list \<times> int) list \<Rightarrow> int \<Rightarrow>
    model_holder \<times> nat \<times> nat \<Rightarrow> (model_holder \<times> nat \<times> nat) \<times> int list" where
  "Run sha get boundary [] backoff st = (st, [])"
| "Run sha get boundary ((ms, lasted) # cs) backoff st =
     (let st = watch_stream sha get boundary ms st;
          backoff = (if maxBackoff \<le> lasted then minBackoff else backoff)
      in case Run sha get boundary cs (min (wrap64 (backoff * 2)) maxBackoff) st of
           (st, delays) \<Rightarrow> (st, backoff # delays))"

section \<open>What is installed\<close>

text \<open>
  The files whose feature count is not lowered after a tree has been read: for those \<open>Load\<close> has checked
  all that the evaluator relies on.
\<close>

definition steady :: "byte list \<Rightarrow> bool" where
  "steady body \<longleftrightarrow> (case Load (text_of body) of Inl _ \<Rightarrow> True
     | Inr m \<Rightarrow> list_all (\<lambda>c. c \<le> num_features m) (declared_counts (text_lines (text_of body))))"

lemma install_failed: "install sha get b m h = (Some e, h') \<Longrightarrow> h' = h"
  by (auto simp: install_def Store_def split: option.splits sum.splits prod.splits if_splits)

lemma install_done:
  assumes "install sha get b m h = (None, h')"
  shows "\<exists>a served body model. m = Some a \<and> receive sha (get (m_version a)) = Inr (served, body) \<and> declared sha served body \<and>
    compatible b (Some served) = None \<and> Load (text_of body) = Inr model \<and> num_features model = int Count \<and> 0 < b \<and>
    h' = Some \<lparr>l_model = model, l_version = m_version served, l_boundary = b\<rparr>"
proof -
  obtain a where a: "m = Some a" using assms by (cases m) (auto simp: install_def compatible_def)
  obtain served body where f: "receive sha (get (m_version a)) = Inr (served, body)"
    using assms a by (auto simp: install_def fetch_def split: option.splits sum.splits)
  then have d: "declared sha served body" using receive_iff by blast
  show ?thesis using assms a f d
    by (auto simp: install_def fetch_def Store_def NumFeatures_def split: option.splits sum.splits if_splits)
qed

lemma install_wf:
  assumes "wf_holder h" and "\<And>v served body. receive sha (get v) = Inr (served, body) \<Longrightarrow> steady body"
  shows "wf_holder (snd (install sha get b m h))"
proof (cases "install sha get b m h")
  case (Pair e h')
  show ?thesis
  proof (cases e)
    case (Some err)
    then show ?thesis using install_failed Pair assms(1) by (metis snd_conv)
  next
    case None
    then have "install sha get b m h = (None, h')" using Pair by simp
    from install_done[OF this] obtain a :: meta and served body model where i: "receive sha (get (m_version a)) = Inr (served, body)"
      "Load (text_of body) = Inr model" "num_features model = int Count" "0 < b"
      "h' = Some \<lparr>l_model = model, l_version = m_version served, l_boundary = b\<rparr>"
      by blast
    have steady: "c \<le> num_features model" if "c \<in> set (declared_counts (text_lines (text_of body)))" for c
      using assms(2)[OF i(1)] i(2) that by (auto simp: steady_def list_all_iff)
    have "declared sha served body" using i(1) receive_iff by blast
    then have "length (text_of body) < 2 ^ 31" by (simp add: declared_def MaxModelBytes_def text_of_def)
    from Load_small[OF i(2) this] steady have "small model" "\<And>c. c \<in> set (declared_counts (text_lines (text_of body))) \<Longrightarrow> c \<le> num_features model"
      by blast+
    then have "wf_model model" using Load_wf[OF i(2)] i(3) by (simp add: Count_def HistoryLen_def)
    then show ?thesis using Pair i by (simp add: wf_holder_def)
  qed
qed

lemma watch_stream_wf:
  assumes "\<And>v served body. receive sha (get v) = Inr (served, body) \<Longrightarrow> steady body"
  shows "wf_holder (fst st) \<Longrightarrow> wf_holder (fst (watch_stream sha get b ms st))"
proof (induction ms arbitrary: st)
  case (Cons m ms)
  obtain h l f where st: "st = (h, l, f)" by (metis prod_cases3)
  obtain e h1 where i: "install sha get b m h = (e, h1)" by fastforce
  have "wf_holder h1" using install_wf[of h sha get b m] assms Cons.prems st i by auto
  then show ?case using Cons.IH st i by simp
qed simp

lemma Run_wf:
  assumes "\<And>v served body. receive sha (get v) = Inr (served, body) \<Longrightarrow> steady body"
  shows "wf_holder (fst st) \<Longrightarrow> wf_holder (fst (fst (Run sha get b cs bo st)))"
proof (induction cs arbitrary: bo st)
  case (Cons c cs)
  obtain ms d where c: "c = (ms, d)" by fastforce
  define bo1 where "bo1 = min (wrap64 ((if maxBackoff \<le> d then minBackoff else bo) * 2)) maxBackoff"
  obtain st2 ds where r: "Run sha get b cs bo1 (watch_stream sha get b ms st) = (st2, ds)" by fastforce
  have "wf_holder (fst (watch_stream sha get b ms st))" by (rule watch_stream_wf[OF assms Cons.prems])
  from Cons.IH[OF this, of bo1] have "wf_holder (fst st2)" by (simp add: r)
  then show ?case using r by (simp add: c Let_def bo1_def)
qed simp

text \<open>Every delay is between one and thirty seconds; each is the double of the one before, or less after a long connection.\<close>

lemma Run_delays:
  "minBackoff \<le> bo \<Longrightarrow> bo \<le> maxBackoff \<Longrightarrow> d \<in> set (snd (Run sha get b cs bo st)) \<Longrightarrow> minBackoff \<le> d \<and> d \<le> maxBackoff"
proof (induction cs arbitrary: bo st)
  case (Cons c cs)
  obtain ms l where c: "c = (ms, l)" by fastforce
  define bo1 where "bo1 = (if maxBackoff \<le> l then minBackoff else bo)"
  have r: "minBackoff \<le> bo1" "bo1 \<le> maxBackoff" using Cons.prems by (auto simp: bo1_def minBackoff_def maxBackoff_def)
  then have "wrap64 (bo1 * 2) = bo1 * 2" by (intro wrap64_id) (simp add: minBackoff_def maxBackoff_def)
  then have n: "minBackoff \<le> min (wrap64 (bo1 * 2)) maxBackoff" "min (wrap64 (bo1 * 2)) maxBackoff \<le> maxBackoff"
    using r by (auto simp: minBackoff_def maxBackoff_def)
  obtain st2 ds where run: "Run sha get b cs (min (wrap64 (bo1 * 2)) maxBackoff) (watch_stream sha get b ms st) = (st2, ds)"
    by fastforce
  then have "d = bo1 \<or> d \<in> set ds" using Cons.prems(3) by (simp add: c Let_def bo1_def)
  then show ?case using Cons.IH[OF n, of "watch_stream sha get b ms st"] r run by auto
qed simp

end
