(* ===== verification/Registry_Properties.thy ===== *)
theory Registry_Properties
  imports Watcher
begin

text \<open>
  The claims about the model registry and the node's watcher. The witnesses publish one model, whose body
  is the text of a small LightGBM file, under a digest and a message format chosen for it.
\<close>

section \<open>A concrete model\<close>

definition demo_body :: "byte list" where
  "demo_body = map (\<lambda>c. of_nat (of_char c)) kept_text"

definition demo_meta :: meta where
  "demo_meta = \<lparr>m_version = ''v1'', m_format = modelFormat, m_size = of_nat (length demo_body), m_sha256 = ''aa'',
     m_created = 5, m_features = 6, m_boundary = 600, m_metrics = []\<rparr>"

definition demo_sha :: "byte list \<Rightarrow> string" where "demo_sha body = ''aa''"

definition meta_mm :: "meta \<Rightarrow> byte list option" where
  "meta_mm m = (if m = demo_meta then Some [1] else None)"

definition meta_um :: "byte list \<Rightarrow> meta option" where
  "meta_um bs = (if bs = [1] then Some demo_meta else None)"

definition demo_stream :: "item list" where
  "demo_stream = [Item (Some demo_meta) [], Item None demo_body]"

definition empty_world :: world where
  "empty_world = \<lparr>files = [], faults = [], clock = int, readings = 0\<rparr>"

definition empty_store :: store where
  "empty_store = \<lparr>latest = None, changed = 0\<rparr>"

lemma demo_mcodec: "mcodec_ok meta_mm meta_um"
  by (simp add: mcodec_ok_def meta_mm_def meta_um_def)

lemma text_of_bytes: "text_of (map (\<lambda>c. of_nat (of_char c)) s) = s"
proof -
  have "unat (of_nat (of_char c) :: byte) = of_char c" for c by (rule unat_of_small) simp
  then show ?thesis by (simp add: text_of_def comp_def)
qed

lemma demo_text: "text_of demo_body = kept_text"
  by (simp add: demo_body_def text_of_bytes)

lemma demo_length: "length demo_body < 1000"
  by (simp add: demo_body_def lf_lines_def file_lines_def)

lemma demo_declared: "declared demo_sha demo_meta demo_body"
proof -
  have "unat (of_nat (length demo_body) :: u64) = length demo_body"
    by (rule unat_of_small) (use demo_length in simp)
  then show ?thesis using demo_length by (simp add: declared_def demo_meta_def demo_sha_def MaxModelBytes_def)
qed

lemma demo_receive: "receive demo_sha demo_stream = Inr (demo_meta, demo_body)"
  unfolding receive_iff demo_stream_def using demo_declared by (intro exI[of _ "[]"] exI[of _ "[demo_body]"]) simp

lemma demo_valid: "validate demo_meta demo_body = None"
  by (simp add: validate_def validVersion_def demo_meta_def demo_body_def lf_lines_def file_lines_def)

lemma empty_inv: "store_inv sha um empty_store empty_world"
  by (simp add: store_inv_def empty_store_def empty_world_def reg_inv_def published_def)

lemma demo_steady: "steady demo_body"
  using file_load(1) file_declared(1) by (simp add: steady_def demo_text file_model_def)


lemma demo_publish:
  "\<exists>s w. PublishModel demo_sha meta_mm demo_stream empty_store empty_world = (OK, Some demo_meta, s, w) \<and> faults w = []"
proof -
  have "stamp demo_meta w = (demo_meta, w)" for w by (simp add: stamp_def demo_meta_def)
  moreover have "meta_mm demo_meta = Some [1]" by (simp add: meta_mm_def)
  ultimately show ?thesis
    by (simp add: PublishModel_def demo_receive demo_valid publish_def paths_def writeAtomic_def os_stat_def os_write_file_def
        os_rename_def empty_world_def metaExt_def modelExt_def tmpExt_def)
qed

section \<open>The store\<close>

text \<open>
  C36. A stream of messages is accepted exactly if it is one message of metadata, then chunks whose
  concatenation has the declared length, within the limit, and the declared digest.
\<close>

theorem receive_accepts_exactly:
  "receive sha is = Inr (m, body) \<longleftrightarrow>
   (\<exists>c0 cs. is = Item (Some m) c0 # map (Item None) cs \<and> body = concat cs \<and> length body = unat (m_size m) \<and>
      unat (m_size m) \<le> MaxModelBytes \<and> sha body = m_sha256 m)"
  unfolding receive_iff declared_def by (rule refl)

text \<open>
  C9. An upload keeps the store's invariant whatever fails on disk: every version on disk has readable
  metadata and a body that matches them, and the latest version is the greatest. A success publishes a
  version that was not there before; a failure, whatever its status, publishes nothing and leaves the
  latest version; and no upload changes a version already published.
\<close>

theorem upload_keeps_store:
  assumes "store_inv sha um s w" and "mcodec_ok mm um" and "PublishModel sha mm is s w = (st, r, s', w')"
  shows "store_inv sha um s' w' \<and>
    (if st = OK then (\<exists>m body. r = Some m \<and> m_version m \<notin> published w \<and> entry_ok sha um w' (m_version m) m body)
     else published w' = published w \<and> s' = s) \<and>
    (\<forall>v \<in> published w. \<forall>m body. entry_ok sha um w' v m body = entry_ok sha um w v m body)"
  using PublishModel_store[OF assms] by simp

lemma upload_keeps_store_witness:
  "\<exists>s w. PublishModel demo_sha meta_mm demo_stream empty_store empty_world = (OK, Some demo_meta, s, w) \<and>
    store_inv demo_sha meta_um s w"
proof -
  obtain s w where p: "PublishModel demo_sha meta_mm demo_stream empty_store empty_world = (OK, Some demo_meta, s, w)"
    using demo_publish by blast
  from upload_keeps_store[OF empty_inv demo_mcodec p] p show ?thesis by blast
qed

lemma demo_published:
  "\<exists>s w. store_inv demo_sha meta_um s w \<and> faults w = [] \<and> ''v1'' \<in> published w"
proof -
  obtain s w where p: "PublishModel demo_sha meta_mm demo_stream empty_store empty_world = (OK, Some demo_meta, s, w)" "faults w = []"
    using demo_publish by blast
  note P = PublishModel_store(1,2)[OF empty_inv demo_mcodec p(1)]
  from P(2) have "''v1'' \<in> published w" by (auto simp: entry_ok_def published_def demo_meta_def)
  with P(1) p(2) show ?thesis by blast
qed

text \<open>
  C28. A registry restarted on its directory has the latest version it had before, and its invariant.
\<close>

theorem restart_recovers:
  assumes "store_inv sha um s w" and "faults w = []"
  shows "\<exists>s'. newStore um w = (Some s', w) \<and> latest s' = latest s \<and> store_inv sha um s' w"
  by (rule restart[OF assms])

lemma restart_recovers_witness:
  "\<exists>(s :: store) w s'. ''v1'' \<in> published w \<and> newStore meta_um w = (Some s', w) \<and> latest s' = latest s"
proof -
  obtain s w where d: "store_inv demo_sha meta_um s w" "faults w = []" "''v1'' \<in> published w" using demo_published by blast
  from restart_recovers[OF d(1,2)] d(3) show ?thesis by blast
qed

text \<open>
  C19. What a node downloads of a published version is what was published: the registry's answer, cut into
  chunks, is accepted by the receiver and carries the stored metadata and body.
\<close>

theorem download_roundtrip:
  assumes "reg_inv sha um w" and "v \<in> published w" and "faults w = []"
  shows "\<exists>is m body. GetModel um v s w = (is, OK, w) \<and> receive sha is = Inr (m, body) \<and> entry_ok sha um w v m body"
  by (rule fetch_published[OF assms])

lemma download_roundtrip_witness:
  "\<exists>s w is m body. GetModel meta_um ''v1'' s w = (is, OK, w) \<and> receive demo_sha is = Inr (m, body) \<and>
    entry_ok demo_sha meta_um w ''v1'' m body"
proof -
  obtain s w where d: "store_inv demo_sha meta_um s w" "faults w = []" "''v1'' \<in> published w" using demo_published by blast
  have "reg_inv demo_sha meta_um w" using d(1) by (simp add: store_inv_def)
  from download_roundtrip[OF this d(3,2)] show ?thesis by blast
qed

section \<open>The watch stream\<close>

text \<open>
  C35. However publications interleave with the handler, a watcher is told of strictly increasing versions,
  all newer than the one it said it had; and while it waits for a channel that is still open, it has been
  told of the newest.
\<close>

theorem watch_announces_in_order:
  assumes "watch_step\<^sup>*\<^sup>* (WatchModels s since) x"
  shows "sorted_wrt (<) (since # w_sent x) \<and>
    (\<forall>ch. w_phase x = Waiting ch \<and> \<not> closed x ch \<longrightarrow> \<not> behind x)"
  using watch_reachable[OF assms] by (auto simp: watch_inv_def closed_def not_less dest: le_antisym)

lemma watch_announces_in_order_witness:
  "sorted_wrt (<) ([] # w_sent (turn ((WatchModels empty_store [])\<lparr>w_store := advance demo_meta empty_store\<rparr>)))"
proof -
  let ?x = "WatchModels empty_store []"
  have "watch_step ?x (?x\<lparr>w_store := advance demo_meta empty_store\<rparr>)"
    using watch_step.published[of ?x demo_meta] by (simp add: WatchModels_def)
  moreover have "watch_step (?x\<lparr>w_store := advance demo_meta empty_store\<rparr>) (turn (?x\<lparr>w_store := advance demo_meta empty_store\<rparr>))"
    by (intro watch_step.own watcher_step.look) (simp add: WatchModels_def)
  ultimately have "watch_step\<^sup>*\<^sup>* ?x (turn (?x\<lparr>w_store := advance demo_meta empty_store\<rparr>))"
    by (meson converse_rtranclp_into_rtranclp rtranclp.rtrancl_refl)
  from watch_announces_in_order[OF this] show ?thesis by simp
qed

text \<open>
  C12. No wakeup is lost: in every reachable state in which a version newer than the last one sent is
  published and the client is still there, the handler can go on by its own steps, and sends it.
\<close>

theorem no_lost_wakeup:
  assumes "watch_step\<^sup>*\<^sup>* (WatchModels s since) x" and "w_phase x \<noteq> Cancelled" and "newest x = Some v" and "w_seen x < v"
  shows "\<exists>y. watcher_step\<^sup>*\<^sup>* x y \<and> w_store y = w_store x \<and> w_sent y = w_sent x @ [v] \<and> w_seen y = v"
  using watcher_catches_up[OF watch_reachable[OF assms(1)] assms(2,3)] assms(3,4) by (simp add: behind_def)

lemma no_lost_wakeup_witness:
  "\<exists>y. watcher_step\<^sup>*\<^sup>* ((WatchModels empty_store [])\<lparr>w_phase := Waiting 0, w_store := advance demo_meta empty_store\<rparr>) y \<and> w_sent y = [''v1'']"
proof -
  let ?x = "WatchModels empty_store []"
  let ?y = "?x\<lparr>w_phase := Waiting 0, w_store := advance demo_meta empty_store\<rparr>"
  have "turn ?x = ?x\<lparr>w_phase := Waiting 0\<rparr>" by (simp add: turn_def WatchModels_def snapshot_def empty_store_def)
  then have "watch_step ?x (?x\<lparr>w_phase := Waiting 0\<rparr>)"
    using watch_step.own[OF watcher_step.look[of ?x]] by (simp add: WatchModels_def)
  moreover have "watch_step (?x\<lparr>w_phase := Waiting 0\<rparr>) ?y"
    using watch_step.published[of "?x\<lparr>w_phase := Waiting 0\<rparr>" demo_meta] by (simp add: WatchModels_def)
  ultimately have r: "watch_step\<^sup>*\<^sup>* ?x ?y" by (meson converse_rtranclp_into_rtranclp rtranclp.rtrancl_refl)
  have "newest ?y = Some ''v1''" "w_seen ?y < ''v1''" "w_phase ?y \<noteq> Cancelled" "w_sent ?y = []"
    by (simp_all add: newest_def advance_def empty_store_def demo_meta_def WatchModels_def)
  with no_lost_wakeup[OF r] show ?thesis by fastforce
qed

section \<open>The node's watcher\<close>

text \<open>
  C21. A model that is refused, for whatever reason, leaves the one in use in place; a model that is
  installed came whole and with its digest, says it fits the node's boundary, parses, has exactly the
  evaluator's features, and becomes the model in use under the version it was served as.
\<close>

theorem install_all_or_nothing:
  assumes "install sha get b m h = (e, h')"
  shows "case e of
      Some _ \<Rightarrow> h' = h
    | None \<Rightarrow> \<exists>a served body model. m = Some a \<and> receive sha (get (m_version a)) = Inr (served, body) \<and>
        declared sha served body \<and> compatible b (Some served) = None \<and> Load (text_of body) = Inr model \<and>
        num_features model = int Count \<and> h' = Some \<lparr>l_model = model, l_version = m_version served, l_boundary = b\<rparr>"
proof (cases e)
  case None
  from install_done[OF assms[unfolded None]] None show ?thesis by auto
next
  case (Some x)
  from install_failed[OF assms[unfolded Some]] Some show ?thesis by simp
qed

lemma install_all_or_nothing_witness:
  "snd (install demo_sha (\<lambda>_. demo_stream) (600 * 10 ^ 9) (Some demo_meta) NewModelHolder) = NewModelHolder"
proof -
  let ?i = "install demo_sha (\<lambda>_. demo_stream) (600 * 10 ^ 9) (Some demo_meta) NewModelHolder"
  obtain e h' where i: "?i = (e, h')" by fastforce
  have "e \<noteq> None"
  proof
    assume "e = None"
    from install_all_or_nothing[OF i, unfolded this] obtain model served body where
      "receive demo_sha demo_stream = Inr (served, body)" "Load (text_of body) = Inr model" "num_features model = int Count" by auto
    then have "num_features (file_model 6) = int Count" using demo_receive file_load(1) by (simp add: demo_text)
    then show False by (simp add: file_model_def layout_defs)
  qed
  with install_all_or_nothing[OF i] i show ?thesis by auto
qed



end
