(* ===== verification/Config.thy ===== *)
theory Config
  imports Go_Text
begin

text \<open>
  \<^verbatim>\<open>internal/config/config.go\<close>: settings from the process environment, a map from names to values.
  Every reader takes the environment as an argument; \<open>MustDuration\<close>, which may exit the process,
  returns a sum. \<open>strconv.ParseBool\<close> and \<open>time.ParseDuration\<close> are written out as the library has them.
\<close>

type_synonym env = "string \<Rightarrow> string option"

section \<open>Library parsers\<close>

definition ParseBool :: "string \<Rightarrow> bool option" where
  "ParseBool s =
     (if s \<in> set [''1'', ''t'', ''T'', ''TRUE'', ''true'', ''True''] then Some True
      else if s \<in> set [''0'', ''f'', ''F'', ''FALSE'', ''false'', ''False''] then Some False
      else None)"

text \<open>Durations in nanoseconds.\<close>

definition duration_units :: "(string \<times> nat) list" where
  "duration_units =
     [(''ns'', 1), (''us'', 1000), ([CHR 0xC2, CHR 0xB5, CHR ''s''], 1000), ([CHR 0xCE, CHR 0xBC, CHR ''s''], 1000),
      (''ms'', 1000000), (''s'', 1000000000), (''m'', 60000000000), (''h'', 3600000000000)]"

fun leadingInt :: "nat \<Rightarrow> string \<Rightarrow> (nat \<times> string) option" where
  "leadingInt x [] = Some (x, [])"
| "leadingInt x (c # cs) =
     (case digit_val c of None \<Rightarrow> Some (x, c # cs)
      | Some d \<Rightarrow>
          (if 2 ^ 63 div 10 < x then None
           else let y = x * 10 + d in if 2 ^ 63 < y then None else leadingInt y cs))"

fun leadingFraction :: "nat \<Rightarrow> fl \<Rightarrow> bool \<Rightarrow> string \<Rightarrow> nat \<times> fl \<times> string" where
  "leadingFraction x scale ovf [] = (x, scale, [])"
| "leadingFraction x scale ovf (c # cs) =
     (case digit_val c of None \<Rightarrow> (x, scale, c # cs)
      | Some d \<Rightarrow>
          (if ovf \<or> (2 ^ 63 - 1) div 10 < x then leadingFraction x scale True cs
           else let y = x * 10 + d
             in if 2 ^ 63 < y then leadingFraction x scale True cs
                else leadingFraction y (fmul F64 scale (Fin 10)) False cs))"

definition trunc_nat :: "fl \<Rightarrow> nat" where
  "trunc_nat x = (case x of Fin q \<Rightarrow> nat \<lfloor>q\<rfloor> | _ \<Rightarrow> 0)"

text \<open>One number with its unit; the result is its value and what is left of the text.\<close>

definition duration_part :: "string \<Rightarrow> (nat \<times> string) option" where
  "duration_part s =
     (case leadingInt 0 s of None \<Rightarrow> None
      | Some (v, s1) \<Rightarrow>
          let pre = (length s1 \<noteq> length s);
              frac = (s1 \<noteq> [] \<and> hd s1 = CHR ''.'');
              (f, scale, s2) = (if frac then leadingFraction 0 (Fin 1) False (tl s1) else (0, Fin 1, s1));
              post = (frac \<and> length s2 \<noteq> length (tl s1));
              in_unit = (\<lambda>c. c \<noteq> CHR ''.'' \<and> digit_val c = None);
              u = takeWhile in_unit s2
          in if \<not> pre \<and> \<not> post then None
             else case map_of duration_units u of None \<Rightarrow> None
               | Some unit \<Rightarrow>
                   (if 2 ^ 63 div unit < v then None
                    else
                      let w = v * unit;
                          w' = (if 0 < f then w + trunc_nat (fmul F64 (f_of_int F64 (int f)) (fdiv F64 (f_of_int F64 (int unit)) scale)) else w)
                      in if 0 < f \<and> 2 ^ 63 < w' then None else Some (w', dropWhile in_unit s2)))"

text \<open>Each part consumes a byte, so the fuel, the length of the text, is enough.\<close>

fun duration_loop :: "nat \<Rightarrow> nat \<Rightarrow> string \<Rightarrow> nat option" where
  "duration_loop fuel d [] = Some d"
| "duration_loop 0 d (c # cs) = None"
| "duration_loop (Suc fuel) d (c # cs) =
     (case duration_part (c # cs) of None \<Rightarrow> None
      | Some (v, rest) \<Rightarrow>
          let d = (d + v) mod 2 ^ 64 in if 2 ^ 63 < d then None else duration_loop fuel d rest)"

definition ParseDuration :: "string \<Rightarrow> int option" where
  "ParseDuration s =
     (case split_sign s of (neg, u) \<Rightarrow>
        if u = ''0'' then Some 0
        else if u = [] then None
        else case duration_loop (length u) 0 u of None \<Rightarrow> None
          | Some d \<Rightarrow>
              (if neg then Some (- int d) else if 2 ^ 63 - 1 < d then None else Some (int d)))"

section \<open>Reading the environment\<close>

definition parse :: "env \<Rightarrow> string \<Rightarrow> 'a \<Rightarrow> (string \<Rightarrow> 'a option) \<Rightarrow> 'a" where
  "parse env key dflt fn =
     (case env key of None \<Rightarrow> dflt
      | Some raw \<Rightarrow> if raw = [] then dflt else (case fn raw of None \<Rightarrow> dflt | Some v \<Rightarrow> v))"

definition String :: "env \<Rightarrow> string \<Rightarrow> string \<Rightarrow> string" where
  "String env key dflt = (case env key of Some v \<Rightarrow> if v \<noteq> [] then v else dflt | None \<Rightarrow> dflt)"

definition Int' :: "env \<Rightarrow> string \<Rightarrow> int \<Rightarrow> int" where
  "Int' env key dflt = parse env key dflt Atoi"

definition Bool :: "env \<Rightarrow> string \<Rightarrow> bool \<Rightarrow> bool" where
  "Bool env key dflt = parse env key dflt ParseBool"

definition Duration :: "env \<Rightarrow> string \<Rightarrow> int \<Rightarrow> int" where
  "Duration env key dflt = parse env key dflt ParseDuration"

datatype exit = Exit int

definition MustDuration :: "env \<Rightarrow> string \<Rightarrow> int \<Rightarrow> exit + int" where
  "MustDuration env key dflt =
     (case env key of None \<Rightarrow> Inr dflt
      | Some raw \<Rightarrow> if raw = [] then Inr dflt else (case ParseDuration raw of None \<Rightarrow> Inl (Exit 2) | Some v \<Rightarrow> Inr v))"

definition Float :: "env \<Rightarrow> string \<Rightarrow> fl \<Rightarrow> fl" where
  "Float env key dflt = parse env key dflt ParseFloat"

definition Strings :: "env \<Rightarrow> string \<Rightarrow> string list \<Rightarrow> string list" where
  "Strings env key dflt =
     (case env key of None \<Rightarrow> dflt
      | Some raw \<Rightarrow>
          if TrimSpace raw = [] then dflt
          else let out = filter (\<lambda>p. p \<noteq> []) (map TrimSpace (split_on (CHR '','') raw))
               in if out = [] then dflt else out)"

section \<open>Sizes\<close>

definition byteUnits :: "(string \<times> int) list" where
  "byteUnits =
     [(''kib'', 2 ^ 10), (''mib'', 2 ^ 20), (''gib'', 2 ^ 30), (''tib'', 2 ^ 40),
      (''kb'', 2 ^ 10), (''mb'', 2 ^ 20), (''gb'', 2 ^ 30), (''tb'', 2 ^ 40),
      (''k'', 2 ^ 10), (''m'', 2 ^ 20), (''g'', 2 ^ 30), (''t'', 2 ^ 40),
      (''b'', 1)]"

datatype size_error = EmptySize | BadSize | OutOfRange | NegativeSize

definition scaled_size :: "string \<Rightarrow> int \<Rightarrow> size_error + int" where
  "scaled_size num scale =
     (case ParseFloat num of None \<Rightarrow> Inl BadSize
      | Some x \<Rightarrow>
          let bytes = fmul F64 x (f_of_int F64 scale)
          in if \<not> Fin 0 \<le> x \<or> Fin (2 ^ 63) \<le> bytes then Inl OutOfRange
             else Inr (int (trunc_nat bytes)))"

definition parseBytes :: "string \<Rightarrow> size_error + int" where
  "parseBytes s =
     (let norm = ToLower (TrimSpace s)
      in if norm = [] then Inl EmptySize
         else case find (\<lambda>(suffix, _). has_suffix suffix norm) byteUnits of
           Some (suffix, scale) \<Rightarrow> scaled_size (TrimSpace (take (length norm - length suffix) norm)) scale
         | None \<Rightarrow>
             (case ParseInt 64 norm of None \<Rightarrow> Inl BadSize
              | Some v \<Rightarrow> if v < 0 then Inl NegativeSize else Inr v))"

definition Bytes :: "env \<Rightarrow> string \<Rightarrow> int \<Rightarrow> int" where
  "Bytes env key dflt = parse env key dflt (\<lambda>s. case parseBytes s of Inl _ \<Rightarrow> None | Inr v \<Rightarrow> Some v)"

section \<open>Ranges and termination\<close>

lemma leadingInt_rest: "leadingInt x s = Some (v, r) \<Longrightarrow> length r \<le> length s"
  by (induction x s rule: leadingInt.induct) (fastforce simp: Let_def split: option.splits if_splits)+

lemma leadingFraction_rest: "leadingFraction x sc ov s = (v, sc', r) \<Longrightarrow> length r \<le> length s"
  by (induction x sc ov s rule: leadingFraction.induct) (fastforce simp: Let_def split: option.splits if_splits)+

lemma duration_units_ne: "map_of duration_units u = Some k \<Longrightarrow> u \<noteq> []"
  by (auto simp: duration_units_def split: if_splits)

text \<open>A part always consumes something: its unit at least.\<close>

lemma duration_part_less:
  assumes "duration_part s = Some (v, r)"
  shows "length r < length s"
proof -
  obtain w s1 where li: "leadingInt 0 s = Some (w, s1)" using assms by (auto simp: duration_part_def split: option.splits)
  obtain f sc s2 where fr: "(if s1 \<noteq> [] \<and> hd s1 = CHR ''.'' then leadingFraction 0 (Fin 1) False (tl s1) else (0, Fin 1, s1)) = (f, sc, s2)"
    by (metis prod_cases3)
  have "length s2 \<le> length s1"
  proof (cases "s1 \<noteq> [] \<and> hd s1 = CHR ''.''")
    case True
    then show ?thesis using fr leadingFraction_rest[of 0 "Fin 1" False "tl s1" f sc s2] by auto
  next
    case False
    then show ?thesis using fr by auto
  qed
  moreover have "length s1 \<le> length s" by (rule leadingInt_rest[OF li])
  moreover have "length r < length s2"
  proof -
    let ?u = "takeWhile (\<lambda>c. c \<noteq> CHR ''.'' \<and> digit_val c = None) s2"
    have "?u \<noteq> []" and r: "r = dropWhile (\<lambda>c. c \<noteq> CHR ''.'' \<and> digit_val c = None) s2"
      using assms li fr duration_units_ne by (auto simp: duration_part_def Let_def split: option.splits if_splits)
    moreover have "length s2 = length ?u + length r" unfolding r by (metis length_append takeWhile_dropWhile_id)
    ultimately show ?thesis by simp
  qed
  ultimately show ?thesis by linarith
qed

lemma duration_fuel: "length s \<le> fuel \<Longrightarrow> duration_loop fuel d s = duration_loop (length s) d s"
proof (induction "length s" arbitrary: s fuel d rule: less_induct)
  case less
  show ?case
  proof (cases s)
    case (Cons c cs)
    with less.prems obtain n where n: "fuel = Suc n" "length cs \<le> n" by (cases fuel) auto
    have "duration_loop n d' r = duration_loop (length cs) d' r" if "duration_part s = Some (v, r)" for v r d'
    proof -
      have l: "length r \<le> length cs" "length r < length s" using duration_part_less[OF that] Cons by simp_all
      have "duration_loop n d' r = duration_loop (length r) d' r" by (rule less.hyps) (use l n in simp_all)
      moreover have "duration_loop (length cs) d' r = duration_loop (length r) d' r" by (rule less.hyps) (use l in simp_all)
      ultimately show ?thesis by simp
    qed
    then show ?thesis using n Cons by (auto simp: Let_def split: option.splits prod.splits)
  qed simp
qed

lemma duration_loop_range: "duration_loop fuel d s = Some v \<Longrightarrow> d \<le> 2 ^ 63 \<Longrightarrow> v \<le> 2 ^ 63"
  by (induction fuel d s rule: duration_loop.induct)
    (auto simp: Let_def split: option.splits prod.splits if_splits)

lemma ParseDuration_range: "ParseDuration s = Some v \<Longrightarrow> in_i64 v"
proof -
  assume "ParseDuration s = Some v"
  moreover have "d \<le> 2 ^ 63" if "duration_loop n 0 u = Some d" for n u d using duration_loop_range[OF that] by simp
  ultimately show ?thesis
    by (fastforce simp: ParseDuration_def not_less split: prod.splits option.splits if_splits)
qed

lemma parseBytes_range: "parseBytes s = Inr v \<Longrightarrow> 0 \<le> v \<and> v < 2 ^ 63"
proof -
  assume *: "parseBytes s = Inr v"
  have "0 \<le> w \<and> w < 2 ^ 63" if sc: "scaled_size num scale = Inr w" for num scale w
  proof -
    obtain x where x: "w = int (trunc_nat (fmul F64 x (f_of_int F64 scale)))" "\<not> Fin (2 ^ 63) \<le> fmul F64 x (f_of_int F64 scale)"
      using sc by (auto simp: scaled_size_def Let_def split: option.splits if_splits)
    have "trunc_nat y < 2 ^ 63" if "\<not> Fin (2 ^ 63) \<le> y" for y
    proof (cases y)
      case (Fin q)
      then have "q < of_int (2 ^ 63)" using that by simp
      then have "\<lfloor>q\<rfloor> < 2 ^ 63" by (simp only: floor_less_iff)
      then have "nat \<lfloor>q\<rfloor> < nat (2 ^ 63)" by (rule nat_mono_iff[THEN iffD2, rotated]) simp
      then show ?thesis using Fin by (simp add: trunc_nat_def)
    qed (use that in \<open>simp_all add: trunc_nat_def\<close>)
    from this[OF x(2)] show ?thesis unfolding x(1) by (simp add: nat_less_iff)
  qed
  moreover have "0 \<le> w \<and> w < 2 ^ 63" if "ParseInt 64 t = Some w" "\<not> w < 0" for t w
    using ParseInt_range[OF that(1)] that(2) by simp
  ultimately show ?thesis using *
    by (auto simp: parseBytes_def Let_def split: option.splits if_splits)
qed

text \<open>A list setting has no empty and no untrimmed entries, unless the default has.\<close>

lemma Strings_entries:
  assumes "p \<in> set (Strings env key dflt)" and "p \<notin> set dflt"
  shows "p \<noteq> [] \<and> (\<exists>q. p = TrimSpace q)"
  using assms by (auto simp: Strings_def Let_def split: option.splits if_splits)

section \<open>Sizes with a unit\<close>

lemma unit_letters:
  "digit_val (CHR ''k'') = None" "digit_val (CHR ''m'') = None" "digit_val (CHR ''g'') = None" "digit_val (CHR ''t'') = None"
  "digit_val (CHR ''i'') = None" "digit_val (CHR ''b'') = None"
  by code_simp+

lemma find_unit:
  assumes "digits xs" and "(sfx, scale) \<in> set byteUnits"
  shows "find (\<lambda>(suffix, _). has_suffix suffix (xs @ sfx)) byteUnits = Some (sfx, scale)"
  using assms(2) unfolding byteUnits_def list.set insert_iff empty_iff prod.inject
  by (elim disjE conjE FalseE; hypsubst) (simp_all add: has_suffix_rev has_prefix_digits[OF assms(1)] unit_letters)

lemma unit_chars: "list_all (\<lambda>(sfx, scale). list_all (\<lambda>c. graph c \<and> lower_char c = c) sfx \<and> 0 < scale) byteUnits"
  by code_simp

lemma parseBytes_unit:
  assumes u: "(sfx, scale) \<in> set byteUnits" and n: "int n * scale < 2 ^ 53"
  shows "parseBytes (itoa n @ sfx) = Inr (int n * scale)"
proof -
  have sf: "list_all (\<lambda>c. graph c \<and> lower_char c = c) sfx" "0 < scale" using unit_chars u by (auto simp: list_all_iff)
  have ds: "list_all (\<lambda>c. graph c \<and> lower_char c = c) (itoa n)"
    using digits_itoa[of n] digit_facts by (auto simp: digits_def list_all_iff)
  have "list_all (\<lambda>c. graph c \<and> lower_char c = c) (itoa n @ sfx)" using ds sf by simp
  then have low: "ToLower (itoa n @ sfx) = itoa n @ sfx" "TrimSpace (itoa n @ sfx) = itoa n @ sfx"
    using ToLower_id TrimSpace_graph by (auto simp: list_all_iff)
  have tr: "TrimSpace (itoa n) = itoa n" using ds by (intro TrimSpace_graph) (auto simp: list_all_iff)
  have le: "int n \<le> int n * scale" using sf(2) by (simp add: mult_le_cancel_left1)
  have "int n < int (2 ^ 53)" using le n by simp
  then have n53: "n < 2 ^ 53" by (simp only: of_nat_less_iff)
  have sc: "f_of_int F64 scale = Fin (of_int scale)"
  proof (rule f_of_int_exact)
    show "\<bar>scale\<bar> < 2 ^ prec F64" using u unfolding byteUnits_def by auto
  qed simp
  define v where "v = int n * scale"
  have v: "0 \<le> v" "v < 2 ^ 53" using n sf(2) by (simp_all add: v_def)
  then have "fround F64 (of_int v) = Fin (of_int v)" by (intro fround_int) simp_all
  then have mul: "fmul F64 (Fin (of_nat n)) (f_of_int F64 scale) = Fin (of_int v)" by (simp add: sc v_def)
  have "\<not> Fin (2 ^ 63) \<le> Fin (of_int v)"
  proof -
    have "v < 2 ^ 63" using v(2) by simp
    then have "(of_int v :: rat) < of_int (2 ^ 63)" by (simp only: of_int_less_iff)
    then show ?thesis by simp
  qed
  then have "scaled_size (itoa n) scale = Inr v"
    using v(1) by (simp only: scaled_size_def ParseFloat_itoa[OF n53] option.case Let_def mul) (simp add: trunc_nat_def)
  then show ?thesis
    unfolding parseBytes_def Let_def low by (simp add: find_unit[OF digits_itoa u] tr v_def)
qed

end
