(* ===== verification/Model_Properties.thy ===== *)
theory Model_Properties
  imports Model_Parse Config
begin

text \<open>The claims about the model loader and about the settings read from the environment.\<close>

section \<open>The model loader\<close>

text \<open>
  C26. The shape check, with its one-byte parent counts, accepts the children of a tree exactly if every
  child is a node or a leaf of the tree other than the root and no two parents share one.
\<close>

theorem checkShape_decides:
  assumes "0 < internal" and "numLeaves p = internal + 1"
    and "int (length (leftChild p)) = internal" and "int (length (rightChild p)) = internal"
  shows "checkShape p internal = None \<longleftrightarrow>
    list_all (child_ok internal (numLeaves p)) (leftChild p @ rightChild p) \<and> distinct (leftChild p @ rightChild p)"
  by (rule checkShape_iff[OF assms])

lemma checkShape_decides_witness:
  "checkShape (new_parser\<lparr>numLeaves := 3, leftChild := [1, - 1], rightChild := [- 2, - 2]\<rparr>) 2 \<noteq> None"
  using checkShape_decides[of 2 "new_parser\<lparr>numLeaves := 3, leftChild := [1, - 1], rightChild := [- 2, - 2]\<rparr>"]
  by (simp add: new_parser_def)




text \<open>Whatever 32-bit integers are written out, separated by blanks, \<open>ints32\<close> reads them back.\<close>

lemma ints32_roundtrip:
  assumes "list_all in_i32 vs"
  shows "ints32 (join_blank (map show_int vs)) = Inr vs"
  by (rule ints32_show[OF assms])

lemma ints32_roundtrip_witness: "ints32 (join_blank (map show_int [- 7, 2147483647])) = Inr [- 7, 2147483647]"
  by (rule ints32_roundtrip) simp

section \<open>Settings\<close>

text \<open>
  A size written as a whole number and one of the unit suffixes is read as that many units, exactly,
  as long as the product stays in the range where \<open>float64\<close> is exact.
\<close>

lemma size_with_unit:
  assumes "(sfx, scale) \<in> set byteUnits" and "int n * scale < 2 ^ 53"
  shows "parseBytes (itoa n @ sfx) = Inr (int n * scale)"
  by (rule parseBytes_unit[OF assms])

lemma size_with_unit_witness: "parseBytes (itoa 256 @ ''mib'') = Inr 268435456"
  using size_with_unit[of "''mib''" "2 ^ 20" 256] by (simp add: byteUnits_def)

text \<open>
  No setting leaves the range of its type: a size that parses is a nonnegative \<open>int64\<close>, and a duration
  that parses is an \<open>int64\<close> of nanoseconds, whatever the text.
\<close>

lemma settings_in_range:
  "(case parseBytes s of Inl _ \<Rightarrow> True | Inr v \<Rightarrow> 0 \<le> v \<and> v < 2 ^ 63) \<and>
   (case ParseDuration s of None \<Rightarrow> True | Some d \<Rightarrow> - (2 ^ 63) \<le> d \<and> d < 2 ^ 63)"
  using parseBytes_range[of s] ParseDuration_range[of s] by (auto split: sum.split option.split)

end
