(* ===== verification/Shard.thy ===== *)
theory Shard
  imports Policy Trace_Ring
begin

text \<open>
  \<^verbatim>\<open>internal/cache/shard.go\<close>: one independently locked slice of the keyspace. A method runs under the
  shard's lock, so each is one function of the shard's state. The shard is parametric in its policy:
  the operations are the argument \<open>ops\<close>, the policy's state a field.

  Whatever the clock, the runtime and the model holder supply to the evictions of one call is the
  argument \<open>ev\<close>: the environment of the \<open>i\<close>-th eviction is \<open>ev i\<close>. A panic inside the policy is the
  result \<open>None\<close> of an operation; the eviction loop, which the code does not bound, is a
  \<open>partial_function\<close>.
\<close>

section \<open>State and operations\<close>

record 'p shard =
  sm :: entries
  policy :: 'p
  ring :: "tring option"
  used :: int
  capacity :: int
  hits :: u64
  misses :: u64
  hitBytes :: u64
  missBytes :: u64
  admissions :: u64
  rejects :: u64
  evictions :: u64
  expirations :: u64
  evictNS :: u64
  evictSample :: u64

definition newShard :: "int \<Rightarrow> 'p \<Rightarrow> tring option \<Rightarrow> 'p shard" where
  "newShard cap p r =
     \<lparr>sm = [], policy = p, ring = r, used = 0, capacity = cap, hits = 0, misses = 0, hitBytes = 0,
      missBytes = 0, admissions = 0, rejects = 0, evictions = 0, expirations = 0, evictNS = 0, evictSample = 0\<rparr>"

definition record_access :: "u64 \<Rightarrow> int \<Rightarrow> u32 \<Rightarrow> bool \<Rightarrow> 'p shard \<Rightarrow> 'p shard" where
  "record_access key now sz isHit s =
     (case ring s of None \<Rightarrow> s
      | Some r \<Rightarrow> s\<lparr>ring := Some (fst (ring_push r
          \<lparr>key_hash = key, timestamp_us = now, size_bytes = sz, hit = isHit\<rparr>))\<rparr>)"

definition drop_entry :: "'p policy_ops \<Rightarrow> u64 \<Rightarrow> entry \<Rightarrow> 'p shard \<Rightarrow> 'p shard" where
  "drop_entry ops key e s =
     (let s = s\<lparr>sm := AList.delete key (sm s)\<rparr>;
          s = s\<lparr>used := wrap64 (used s - e_size e)\<rparr>
      in s\<lparr>policy := pol_on_remove ops (policy s) e\<rparr>)"

definition get :: "'p policy_ops \<Rightarrow> u64 \<Rightarrow> int \<Rightarrow> 'p shard \<Rightarrow> byte list option \<times> 'p shard" where
  "get ops key now s =
     (case map_of (sm s) key of
        None \<Rightarrow> (None, s\<lparr>misses := misses s + 1\<rparr>)
      | Some e \<Rightarrow>
          if expired e now then
            let s = drop_entry ops key e s
            in (None, s\<lparr>expirations := expirations s + 1, misses := misses s + 1\<rparr>)
          else
            let (p, e) = pol_on_access ops (policy s) (touch now e);
                s = s\<lparr>policy := p, sm := AList.update key e (sm s)\<rparr>;
                s = s\<lparr>hits := hits s + 1, hitBytes := hitBytes s + word_of_int (e_size e)\<rparr>
            in (Some (e_value e), record_access key now (word_of_int (e_size e)) True s))"

definition evictOne :: "'p policy_ops \<Rightarrow> ev_env \<Rightarrow> int \<Rightarrow> 'p shard \<Rightarrow> bool option \<times> 'p shard" where
  "evictOne ops ev now s =
     (let (p, es, v) = pol_victim ops ev (policy s) (sm s) now;
          s = s\<lparr>policy := p, sm := es\<rparr>;
          s' = s\<lparr>evictNS := evictNS s + word_of_int (wrap64 (clock_end ev - clock_start ev)),
                 evictSample := evictSample s + 1\<rparr>
      in case v of
           Aborted \<Rightarrow> (None, s)
         | Declined \<Rightarrow> (Some False, s')
         | Victim k \<Rightarrow>
             (case map_of (sm s') k of
                None \<Rightarrow> (Some False, s')
              | Some e \<Rightarrow>
                  let s' = drop_entry ops k e s' in (Some True, s'\<lparr>evictions := evictions s' + 1\<rparr>)))"

partial_function (option) evict_loop ::
  "'p policy_ops \<Rightarrow> (nat \<Rightarrow> ev_env) \<Rightarrow> int \<Rightarrow> int \<Rightarrow> nat \<Rightarrow> 'p shard \<Rightarrow> (bool option \<times> 'p shard) option" where
  "evict_loop ops ev now sz i s =
     (if wrap64 (used s + sz) \<le> capacity s then Some (Some True, s)
      else case evictOne ops (ev i) now s of
        (None, s) \<Rightarrow> Some (None, s)
      | (Some ok, s) \<Rightarrow>
          if ok then evict_loop ops ev now sz (Suc i) s
          else Some (Some False, s\<lparr>rejects := rejects s + 1\<rparr>))"

definition insert_new :: "'p policy_ops \<Rightarrow> u64 \<Rightarrow> byte list \<Rightarrow> int \<Rightarrow> int \<Rightarrow> 'p shard \<Rightarrow> 'p shard" where
  "insert_new ops key v now dl s =
     (let sz = int (length v);
          e = new_entry key v now dl;
          s = s\<lparr>used := wrap64 (used s + sz)\<rparr>;
          (p, e) = pol_on_admit ops (policy s) e;
          s = s\<lparr>policy := p, sm := AList.update key e (sm s)\<rparr>;
          s = s\<lparr>admissions := admissions s + 1\<rparr>
      in record_access key now (word_of_int sz) False s)"

definition insert_entry :: "'p policy_ops \<Rightarrow> (nat \<Rightarrow> ev_env) \<Rightarrow> u64 \<Rightarrow> byte list \<Rightarrow> int \<Rightarrow> int \<Rightarrow> bool \<Rightarrow>
    'p shard \<Rightarrow> (bool option \<times> 'p shard) option" where
  "insert_entry ops ev key v now dl onMiss s =
     (let sz = int (length v);
          s = (if onMiss then s\<lparr>missBytes := missBytes s + word_of_int sz\<rparr> else s)
      in if capacity s < sz then Some (Some False, s\<lparr>rejects := rejects s + 1\<rparr>)
         else
           let s = (case map_of (sm s) key of None \<Rightarrow> s | Some old \<Rightarrow> drop_entry ops key old s)
           in case evict_loop ops ev now sz 0 s of
                Some (Some True, s) \<Rightarrow> Some (Some True, insert_new ops key v now dl s)
              | r \<Rightarrow> r)"

definition remove :: "'p policy_ops \<Rightarrow> u64 \<Rightarrow> 'p shard \<Rightarrow> bool \<times> 'p shard" where
  "remove ops key s =
     (case map_of (sm s) key of
        None \<Rightarrow> (False, s)
      | Some e \<Rightarrow> (True, drop_entry ops key e s))"

section \<open>Frames\<close>

lemma record_access_frame [simp, frame_simps]:
  "sm (record_access k now z h s) = sm s" "policy (record_access k now z h s) = policy s"
  "used (record_access k now z h s) = used s" "capacity (record_access k now z h s) = capacity s"
  "hits (record_access k now z h s) = hits s" "misses (record_access k now z h s) = misses s"
  "hitBytes (record_access k now z h s) = hitBytes s" "missBytes (record_access k now z h s) = missBytes s"
  "admissions (record_access k now z h s) = admissions s" "rejects (record_access k now z h s) = rejects s"
  "evictions (record_access k now z h s) = evictions s" "expirations (record_access k now z h s) = expirations s"
  by (simp_all add: record_access_def split: option.splits)

lemma drop_entry_fields [simp, frame_simps]:
  "sm (drop_entry ops k e s) = AList.delete k (sm s)" "used (drop_entry ops k e s) = wrap64 (used s - e_size e)"
  "policy (drop_entry ops k e s) = pol_on_remove ops (policy s) e"
  "capacity (drop_entry ops k e s) = capacity s" "ring (drop_entry ops k e s) = ring s"
  "hits (drop_entry ops k e s) = hits s" "misses (drop_entry ops k e s) = misses s"
  "hitBytes (drop_entry ops k e s) = hitBytes s" "missBytes (drop_entry ops k e s) = missBytes s"
  "admissions (drop_entry ops k e s) = admissions s" "rejects (drop_entry ops k e s) = rejects s"
  "evictions (drop_entry ops k e s) = evictions s" "expirations (drop_entry ops k e s) = expirations s"
  by (simp_all add: drop_entry_def Let_def)

lemma evictOne_frame:
  "capacity (snd (evictOne ops ev now s)) = capacity s" "ring (snd (evictOne ops ev now s)) = ring s"
  "hits (snd (evictOne ops ev now s)) = hits s" "misses (snd (evictOne ops ev now s)) = misses s"
  "hitBytes (snd (evictOne ops ev now s)) = hitBytes s" "missBytes (snd (evictOne ops ev now s)) = missBytes s"
  "admissions (snd (evictOne ops ev now s)) = admissions s" "rejects (snd (evictOne ops ev now s)) = rejects s"
  "expirations (snd (evictOne ops ev now s)) = expirations s"
  by (simp_all add: evictOne_def Let_def split: prod.splits vres.splits option.splits)

section \<open>The invariant of a shard\<close>

text \<open>
  The bytes in use are the bytes of the resident values and never exceed the capacity. The bound on
  the capacity keeps the sum \<open>used + size\<close> of the eviction loop's guard inside \<open>int64\<close>.
\<close>

definition shard_inv :: "('p \<Rightarrow> entries \<Rightarrow> bool) \<Rightarrow> 'p shard \<Rightarrow> bool" where
  "shard_inv pinv s \<longleftrightarrow> wf_entries (sm s) \<and> pinv (policy s) (sm s) \<and> used s = vsum e_size (sm s) \<and>
     used s \<le> capacity s \<and> capacity s < 2 ^ 62"

lemma shard_invD:
  assumes "shard_inv pinv s"
  shows "wf_entries (sm s)" "pinv (policy s) (sm s)" "used s = vsum e_size (sm s)"
    "0 \<le> used s" "used s \<le> capacity s" "capacity s < 2 ^ 62" "0 \<le> capacity s"
    "map_of (sm s) k = Some e \<Longrightarrow> 0 \<le> e_size e \<and> e_size e \<le> used s"
proof -
  from assms show wf: "wf_entries (sm s)" and u: "used s = vsum e_size (sm s)"
    and p: "pinv (policy s) (sm s)" "used s \<le> capacity s" "capacity s < 2 ^ 62"
    by (simp_all add: shard_inv_def)
  have nn: "0 \<le> e_size e" if "(j, e) \<in> set (sm s)" for j e
    using wf that by (auto simp: wf_entries_def wf_entry_def)
  then show "0 \<le> used s" using vsum_nonneg[of "sm s" e_size] u by simp
  with p show "0 \<le> capacity s" by simp
  assume "map_of (sm s) k = Some e"
  then have "(k, e) \<in> set (sm s)" by (rule map_of_SomeD)
  with nn vsum_ge[of "sm s" e_size k e] u show "0 \<le> e_size e \<and> e_size e \<le> used s" by auto
qed

lemma newShard_inv: "0 \<le> c \<Longrightarrow> c < 2 ^ 62 \<Longrightarrow> pinv p [] \<Longrightarrow> shard_inv pinv (newShard c p r)"
  by (simp add: shard_inv_def newShard_def)

text \<open>The resident entries lose a key and keep, but for their frequencies, the others.\<close>

definition shrinks :: "entries \<Rightarrow> entries \<Rightarrow> bool" where
  "shrinks es es' \<longleftrightarrow> (\<forall>k e'. map_of es' k = Some e' \<longrightarrow> (\<exists>e. map_of es k = Some e \<and> clear_freq e = clear_freq e'))"

lemma shrinks_refl [simp]: "shrinks es es"
  by (simp add: shrinks_def)

lemma shrinks_trans: "shrinks a b \<Longrightarrow> shrinks b c \<Longrightarrow> shrinks a c"
  unfolding shrinks_def by metis

lemma shrinks_delete: "shrinks es (AList.delete k es)"
  by (auto simp: shrinks_def)

lemma same_shrinks: "same_entries es es' \<Longrightarrow> shrinks es es'"
  unfolding shrinks_def using same_entries_Some[OF same_entries_sym] by metis

lemma shrinks_None: "shrinks es es' \<Longrightarrow> map_of es k = None \<Longrightarrow> map_of es' k = None"
  unfolding shrinks_def by (metis not_None_eq)

text \<open>What an insertion does to the resident entries.\<close>

definition inserted :: "u64 \<Rightarrow> byte list \<Rightarrow> int \<Rightarrow> int \<Rightarrow> entries \<Rightarrow> entries \<Rightarrow> bool" where
  "inserted k v now dl es es' \<longleftrightarrow>
     (\<exists>e. map_of es' k = Some e \<and> clear_freq e = clear_freq (new_entry k v now dl)) \<and>
     shrinks (AList.delete k es) (AList.delete k es')"

text \<open>Dropping a resident entry.\<close>

lemma drop_keeps:
  assumes "wf_entries (sm s)" and "used s = vsum e_size (sm s)" and "used s \<le> capacity s" and "capacity s < 2 ^ 62"
    and k: "map_of (sm s) k = Some e" and pol: "pinv (pol_on_remove ops (policy s) e) (AList.delete k (sm s))"
  shows "shard_inv pinv (drop_entry ops k e s)"
proof -
  have nn: "0 \<le> e_size e'" if "(j, e') \<in> set (sm s)" for j e'
    using assms(1) that by (auto simp: wf_entries_def wf_entry_def)
  have kin: "(k, e) \<in> set (sm s)" using k by (rule map_of_SomeD)
  have le: "0 \<le> e_size e" "e_size e \<le> vsum e_size (sm s)"
    using nn[OF kin] vsum_ge[OF nn kin] by auto
  then have "wrap64 (used s - e_size e) = used s - e_size e" using assms(2-4) by (intro wrap64_id) auto
  with assms le show ?thesis
    using vsum_delete[OF wf_entriesD(1)[OF assms(1)] k, of e_size] by (simp add: shard_inv_def wf_entries_delete)
qed

context policy_laws
begin

lemma drop_inv:
  assumes inv: "shard_inv pinv s" and k: "map_of (sm s) k = Some e"
  shows "shard_inv pinv (drop_entry ops k e s)"
  using drop_keeps[OF shard_invD(1,3,5,6)[OF inv] k] remove_inv[OF shard_invD(1,2)[OF inv] k] by blast

lemma get_hit:
  assumes inv: "shard_inv pinv s" and k: "map_of (sm s) k = Some e" and live: "\<not> expired e now"
    and g: "get ops k now s = (r, s')"
  shows "r = Some (e_value e)" and "shard_inv pinv s'"
    and "\<exists>e'. sm s' = AList.update k e' (sm s) \<and> clear_freq e' = clear_freq (touch now e)"
    and "hits s' = hits s + 1" and "misses s' = misses s" and "capacity s' = capacity s"
    and "hitBytes s' = hitBytes s + word_of_int (e_size e)"
proof -
  note wf = shard_invD(1)[OF inv]
  obtain p1 e1 where a: "pol_on_access ops (policy s) (touch now e) = (p1, e1)" by fastforce
  from access_inv[OF wf shard_invD(2)[OF inv] k a]
  have e1: "clear_freq e1 = clear_freq (touch now e)" "e_freq e1 \<le> 3" "pinv p1 (AList.update k e1 (sm s))" by simp_all
  note F = clear_freq_eqD[OF e1(1)]
  have v: "e_value e1 = e_value e" "e_size e1 = e_size e" "e_key e1 = e_key e" using F by simp_all
  have wf1: "wf_entry e1"
    using wf_touch[OF wf_entriesD(3)[OF wf k], of now] F e1(2) by (simp add: wf_entry_def)
  have s': "s' = record_access k now (word_of_int (e_size e)) True
      (s\<lparr>policy := p1, sm := AList.update k e1 (sm s), hits := hits s + 1, hitBytes := hitBytes s + word_of_int (e_size e)\<rparr>)"
    and r: "r = Some (e_value e1)"
    using g k live a v by (simp_all add: get_def)
  from r v show "r = Some (e_value e)" by simp
  have "wf_entries (AList.update k e1 (sm s))"
    by (rule wf_entries_update[OF wf wf1]) (simp add: v wf_entriesD(2)[OF wf k])
  moreover have "vsum e_size (AList.update k e1 (sm s)) = vsum e_size (sm s)"
    using vsum_update_old[OF wf_entriesD(1)[OF wf] k, of e_size e1] v by simp
  ultimately show "shard_inv pinv s'" using inv e1 by (simp add: shard_inv_def s')
  show "\<exists>e'. sm s' = AList.update k e' (sm s) \<and> clear_freq e' = clear_freq (touch now e)"
    using e1 by (auto simp: s')
  show "hits s' = hits s + 1" "misses s' = misses s" "capacity s' = capacity s"
    "hitBytes s' = hitBytes s + word_of_int (e_size e)"
    by (simp_all add: s')
qed

lemma get_expired:
  assumes inv: "shard_inv pinv s" and k: "map_of (sm s) k = Some e" and dead: "expired e now"
    and g: "get ops k now s = (r, s')"
  shows "r = None" and "shard_inv pinv s'" and "sm s' = AList.delete k (sm s)"
    and "hits s' = hits s" and "misses s' = misses s + 1" and "expirations s' = expirations s + 1"
  using drop_inv[OF inv k] g k dead by (auto simp: get_def Let_def shard_inv_def)

lemma get_inv:
  assumes inv: "shard_inv pinv s" and g: "get ops k now s = (r, s')"
  shows "shard_inv pinv s'"
proof (cases "map_of (sm s) k")
  case None
  with assms show ?thesis by (auto simp: get_def shard_inv_def)
next
  case (Some e)
  show ?thesis using get_hit(2)[OF inv Some _ g] get_expired(2)[OF inv Some _ g] by blast
qed

lemma remove_keeps: "shard_inv pinv s \<Longrightarrow> remove ops k s = (b, s') \<Longrightarrow> shard_inv pinv s'"
  using drop_inv[of s k] by (auto simp: remove_def split: option.splits)

text \<open>One eviction: it frees the bytes of one entry, and all it removes is that entry.\<close>

lemma evictOne_ok:
  assumes inv: "shard_inv pinv s" and env: "env_ok ev" and e: "evictOne ops ev now s = (r, s')"
  shows "\<exists>b. r = Some b \<and> shard_inv pinv s' \<and> shrinks (sm s) (sm s') \<and>
    length (sm s) = length (sm s') + (if b then 1 else 0) \<and>
    evictions s' = evictions s + (if b then 1 else 0)"
proof -
  note wf = shard_invD(1)[OF inv] and pi = shard_invD(2)[OF inv]
  obtain p es v where v: "pol_victim ops ev (policy s) (sm s) now = (p, es, v)"
    by (cases "pol_victim ops ev (policy s) (sm s) now") auto
  from victim_same[OF wf pi v] have same: "same_entries (sm s) es" and wf': "wf_entries es" by auto
  have sum: "vsum e_size es = vsum e_size (sm s)" using same_entries_vsum[OF same, of e_size] by simp
  note len = same_entries_length[OF same]
  let ?s = "s\<lparr>policy := p, sm := es, evictNS := evictNS s + word_of_int (wrap64 (clock_end ev - clock_start ev)),
      evictSample := evictSample s + 1\<rparr>"
  show ?thesis
  proof (cases v)
    case Aborted
    then show ?thesis using victim_returns[OF wf pi env, of now] v by simp
  next
    case Declined
    then have "r = Some False" "s' = ?s" using e v by (auto simp: evictOne_def Let_def)
    moreover have "shard_inv pinv ?s"
      using inv wf' sum victim_declined[OF wf pi v[unfolded Declined]] by (simp add: shard_inv_def)
    ultimately show ?thesis using same_shrinks[OF same] len by (intro exI[of _ False]) simp
  next
    case (Victim k)
    from victim_resident[OF wf pi v[unfolded Victim]] obtain x where
      x: "map_of es k = Some x" and pol: "pinv (pol_on_remove ops p x) (AList.delete k es)" by auto
    have "r = Some True" and s': "s' = drop_entry ops k x ?s\<lparr>evictions := evictions s + 1\<rparr>"
      using e v Victim x by (auto simp: evictOne_def Let_def)
    moreover have "shard_inv pinv (drop_entry ops k x ?s)"
      by (rule drop_keeps) (use wf' sum x pol shard_invD[OF inv] in auto)
    then have "shard_inv pinv s'" by (simp add: s' shard_inv_def)
    moreover have "shrinks (sm s) (AList.delete k es)"
      using shrinks_trans[OF same_shrinks[OF same] shrinks_delete] .
    ultimately show ?thesis using length_delete_Some[OF wf_entriesD(1)[OF wf'] x] len by (intro exI[of _ True]) (simp add: s')
  qed
qed

text \<open>The eviction loop ends: every turn but the last removes an entry.\<close>

lemma evict_loop_ok:
  assumes "shard_inv pinv s" and "\<And>i. env_ok (ev i)" and "0 \<le> sz" and "sz \<le> capacity s"
  shows "\<exists>b s'. evict_loop ops ev now sz i s = Some (Some b, s') \<and> shard_inv pinv s' \<and> shrinks (sm s) (sm s') \<and>
    capacity s' = capacity s \<and> (b \<longrightarrow> used s' + sz \<le> capacity s) \<and> (\<not> b \<longrightarrow> rejects s' = rejects s + 1) \<and>
    length (sm s') \<le> length (sm s) \<and> evictions s' = evictions s + of_nat (length (sm s) - length (sm s')) \<and>
    admissions s' = admissions s \<and> ring s' = ring s"
  using assms(1,4)
proof (induction "length (sm s)" arbitrary: s i rule: less_induct)
  case less
  note D = shard_invD[OF less.prems(1)]
  have w: "wrap64 (used s + sz) = used s + sz"
    using D(4-6) assms(3) less.prems(2) by (intro wrap64_id) auto
  show ?case
  proof (cases "used s + sz \<le> capacity s")
    case True
    then show ?thesis using less.prems w by (subst evict_loop.simps) auto
  next
    case False
    obtain r s1 where e: "evictOne ops (ev i) now s = (r, s1)" by fastforce
    obtain b where b: "r = Some b" "shard_inv pinv s1" "shrinks (sm s) (sm s1)"
      "length (sm s) = length (sm s1) + (if b then 1 else 0)" "evictions s1 = evictions s + (if b then 1 else 0)"
      using evictOne_ok[OF less.prems(1) assms(2) e] by blast
    have F: "capacity s1 = capacity s" "rejects s1 = rejects s" "admissions s1 = admissions s" "ring s1 = ring s"
      using evictOne_frame[of ops "ev i" now s] e by simp_all
    show ?thesis
    proof (cases b)
      case False
      then have "evict_loop ops ev now sz i s = Some (Some False, s1\<lparr>rejects := rejects s1 + 1\<rparr>)"
        using \<open>\<not> used s + sz \<le> capacity s\<close> w e b(1) by (subst evict_loop.simps) simp
      then show ?thesis using False b F by (intro exI[of _ False]) (simp add: shard_inv_def)
    next
      case True
      have step: "evict_loop ops ev now sz i s = evict_loop ops ev now sz (Suc i) s1"
        using \<open>\<not> used s + sz \<le> capacity s\<close> w e b(1) True by (subst evict_loop.simps) simp
      have "length (sm s1) < length (sm s)" using b(4) True by simp
      from less.hyps[OF this b(2), of "Suc i"] F less.prems(2) obtain b' s' where
        "evict_loop ops ev now sz (Suc i) s1 = Some (Some b', s') \<and> shard_inv pinv s' \<and> shrinks (sm s1) (sm s') \<and>
         capacity s' = capacity s1 \<and> (b' \<longrightarrow> used s' + sz \<le> capacity s1) \<and> (\<not> b' \<longrightarrow> rejects s' = rejects s1 + 1) \<and>
         length (sm s') \<le> length (sm s1) \<and> evictions s' = evictions s1 + of_nat (length (sm s1) - length (sm s')) \<and>
         admissions s' = admissions s1 \<and> ring s' = ring s1" by auto
      moreover from this have "length (sm s) - length (sm s') = Suc (length (sm s1) - length (sm s'))"
        using b(4) True by auto
      ultimately show ?thesis using step F b(3,5) True shrinks_trans[OF b(3)]
        by (intro exI[of _ b'] exI[of _ s']) (simp add: add.assoc)
    qed
  qed
qed

text \<open>The entry an insertion leaves: it fits, so the accounting is exact.\<close>

lemma insert_new_ok:
  assumes inv: "shard_inv pinv s" and k: "map_of (sm s) k = None" and len: "length v < 2 ^ 31"
    and fits: "used s + int (length v) \<le> capacity s"
  shows "shard_inv pinv (insert_new ops k v now dl s)"
    and "\<exists>e. sm (insert_new ops k v now dl s) = AList.update k e (sm s) \<and>
         clear_freq e = clear_freq (new_entry k v now dl)"
    and "admissions (insert_new ops k v now dl s) = admissions s + 1"
    and "capacity (insert_new ops k v now dl s) = capacity s"
    and "evictions (insert_new ops k v now dl s) = evictions s"
    and "rejects (insert_new ops k v now dl s) = rejects s"
proof -
  let ?e = "new_entry k v now dl"
  note D = shard_invD[OF inv]
  have key: "e_key ?e = k" and size: "e_size ?e = int (length v)"
    using len by (simp_all add: new_entry_def wrap_simps)
  obtain p1 e1 where a: "pol_on_admit ops (policy s) ?e = (p1, e1)" by fastforce
  have "map_of (sm s) (e_key ?e) = None" using k key by simp
  from admit_inv[OF D(1,2) this wf_new_entry[OF len] a]
  have e1: "clear_freq e1 = clear_freq ?e" "e_freq e1 \<le> 3" "pinv p1 (AList.update k e1 (sm s))" using key by simp_all
  note F = clear_freq_eqD[OF e1(1)]
  have wf1: "wf_entry e1" using wf_new_entry[OF len, of k now dl] F e1(2) by (simp add: wf_entry_def)
  have w: "wrap64 (used s + int (length v)) = used s + int (length v)"
    using D(4,6) fits by (intro wrap64_id) auto
  have s': "insert_new ops k v now dl s = record_access k now (word_of_int (int (length v))) False
      (s\<lparr>used := used s + int (length v), policy := p1, sm := AList.update k e1 (sm s), admissions := admissions s + 1\<rparr>)"
    by (simp add: insert_new_def Let_def a w)
  have "wf_entries (AList.update k e1 (sm s))" by (rule wf_entries_update[OF D(1) wf1]) (simp add: F key)
  moreover have "vsum e_size (AList.update k e1 (sm s)) = used s + int (length v)"
    using D(3) by (simp add: update_new[OF k] F size)
  ultimately show "shard_inv pinv (insert_new ops k v now dl s)"
    using e1 fits D(6) by (simp add: shard_inv_def s')
  show "\<exists>e. sm (insert_new ops k v now dl s) = AList.update k e (sm s) \<and> clear_freq e = clear_freq ?e"
    using e1 by (auto simp: s')
qed (simp_all add: insert_new_def Let_def split: prod.splits)

lemma insert_ok:
  assumes inv: "shard_inv pinv s" and env: "\<And>i. env_ok (ev i)" and len: "length v < 2 ^ 31"
  shows "\<exists>b s'. insert_entry ops ev k v now dl onMiss s = Some (Some b, s') \<and> shard_inv pinv s' \<and>
    capacity s' = capacity s \<and>
    (if b then inserted k v now dl (sm s) (sm s') \<and> admissions s' = admissions s + 1
     else rejects s' = rejects s + 1 \<and> admissions s' = admissions s \<and>
       (if capacity s < int (length v) then sm s' = sm s
        else map_of (sm s') k = None \<and> shrinks (sm s) (sm s')))"
proof -
  let ?s0 = "if onMiss then s\<lparr>missBytes := missBytes s + word_of_int (int (length v))\<rparr> else s"
  have inv0: "shard_inv pinv ?s0" and f0: "sm ?s0 = sm s" "capacity ?s0 = capacity s" "rejects ?s0 = rejects s"
    "admissions ?s0 = admissions s"
    using inv by (simp_all add: shard_inv_def)
  show ?thesis
  proof (cases "capacity s < int (length v)")
    case True
    then have "insert_entry ops ev k v now dl onMiss s = Some (Some False, ?s0\<lparr>rejects := rejects ?s0 + 1\<rparr>)"
      using f0 by (simp add: insert_entry_def Let_def)
    moreover have "shard_inv pinv (?s0\<lparr>rejects := rejects ?s0 + 1\<rparr>)" using inv0 by (simp add: shard_inv_def)
    ultimately show ?thesis using True f0 by (intro exI[of _ False]) simp
  next
    case False
    let ?s1 = "case map_of (sm ?s0) k of None \<Rightarrow> ?s0 | Some old \<Rightarrow> drop_entry ops k old ?s0"
    have inv1: "shard_inv pinv ?s1" using inv0 drop_inv[OF inv0] by (cases "map_of (sm ?s0) k") simp_all
    have f1: "sm ?s1 = AList.delete k (sm s)" "capacity ?s1 = capacity s" "rejects ?s1 = rejects s"
      "admissions ?s1 = admissions s"
      using f0 by (simp_all split: option.splits)
    have "int (length v) \<le> capacity ?s1" using False f1 by simp
    from evict_loop_ok[where ev = ev and now = now and i = 0, OF inv1 env _ this]
    obtain b s2 where loop: "evict_loop ops ev now (int (length v)) 0 ?s1 = Some (Some b, s2)"
      and inv2: "shard_inv pinv s2" and sh: "shrinks (sm ?s1) (sm s2)" and c2: "capacity s2 = capacity ?s1"
      and fit: "b \<longrightarrow> used s2 + int (length v) \<le> capacity ?s1" and rj: "\<not> b \<longrightarrow> rejects s2 = rejects ?s1 + 1"
      and ad: "admissions s2 = admissions ?s1" by auto
    have gone: "map_of (sm s2) k = None" using shrinks_None[OF sh, of k] f1 by simp
    have ins: "insert_entry ops ev k v now dl onMiss s =
        Some (Some b, if b then insert_new ops k v now dl s2 else s2)"
      using False f0(2) loop unfolding insert_entry_def Let_def by (cases b) simp_all
    show ?thesis
    proof (cases b)
      case True
      note I = insert_new_ok[OF inv2 gone len, of now dl]
      have fit': "used s2 + int (length v) \<le> capacity s2" using fit True c2 by simp
      from I(2)[OF fit'] obtain e where
        e: "sm (insert_new ops k v now dl s2) = AList.update k e (sm s2)" "clear_freq e = clear_freq (new_entry k v now dl)"
        by blast
      have "AList.delete k (AList.update k e (sm s2)) = sm s2"
        using gone by (simp add: delete_update_same)
      then have "inserted k v now dl (sm s) (sm (insert_new ops k v now dl s2))"
        using e sh f1 by (simp add: inserted_def)
      then show ?thesis using True ins I(1,3,4)[OF fit'] c2 f1 ad by (intro exI[of _ True]) simp
    next
      case no: False
      then show ?thesis using ins inv2 c2 f1 rj ad gone \<open>\<not> capacity s < int (length v)\<close>
          shrinks_trans[OF shrinks_delete sh[unfolded f1]]
        by (intro exI[of _ False]) simp
    qed
  qed
qed

end

section \<open>Room is always made\<close>

context evicting_policy
begin

lemma evict_loop_room:
  assumes "shard_inv pinv s" and "\<And>i. env_ok (ev i)" and "0 \<le> sz" and "sz \<le> capacity s"
    and "evict_loop ops ev now sz i s = Some (Some b, s')"
  shows b
  using assms(1,4,5)
proof (induction "length (sm s)" arbitrary: s i rule: less_induct)
  case less
  note D = shard_invD[OF less.prems(1)]
  have w: "wrap64 (used s + sz) = used s + sz"
    using D(4-6) assms(3) less.prems(2) by (intro wrap64_id) auto
  show ?case
  proof (cases "used s + sz \<le> capacity s")
    case True
    then show ?thesis using less.prems(3) w by (subst (asm) evict_loop.simps) simp
  next
    case False
    then have ne: "sm s \<noteq> []" using D(3) less.prems(2) by auto
    obtain r s1 where e: "evictOne ops (ev i) now s = (r, s1)" by fastforce
    obtain b' where b': "r = Some b'" "shard_inv pinv s1" "length (sm s) = length (sm s1) + (if b' then 1 else 0)"
      using evictOne_ok[OF less.prems(1) assms(2) e] by blast
    obtain p es k where v: "pol_victim ops (ev i) (policy s) (sm s) now = (p, es, Victim k)"
      using victim_found[OF D(1,2) ne assms(2), of i now] by (cases "pol_victim ops (ev i) (policy s) (sm s) now") auto
    obtain x where x: "map_of es k = Some x" using victim_resident[OF D(1,2) v] by blast
    have T: b' using e v b'(1) x by (auto simp: evictOne_def Let_def)
    have c: "capacity s1 = capacity s" using evictOne_frame(1)[of ops "ev i" now s] e by simp
    have "evict_loop ops ev now sz (Suc i) s1 = Some (Some b, s')"
      using less.prems(3) False w e b'(1) T by (subst (asm) evict_loop.simps) simp
    moreover have "length (sm s1) < length (sm s)" using b'(3) T by simp
    ultimately show ?thesis using less.hyps[OF _ b'(2)] less.prems(2) c by metis
  qed
qed

text \<open>With such a policy an object is admitted exactly if it is not larger than the shard.\<close>

lemma insert_admits:
  assumes inv: "shard_inv pinv s" and env: "\<And>i. env_ok (ev i)"
    and i: "insert_entry ops ev k v now dl onMiss s = Some (Some b, s')"
  shows "b \<longleftrightarrow> int (length v) \<le> capacity s"
proof -
  let ?s0 = "if onMiss then s\<lparr>missBytes := missBytes s + word_of_int (int (length v))\<rparr> else s"
  let ?s1 = "case map_of (sm ?s0) k of None \<Rightarrow> ?s0 | Some old \<Rightarrow> drop_entry ops k old ?s0"
  show ?thesis
  proof (cases "capacity s < int (length v)")
    case True
    then show ?thesis using i by (auto simp: insert_entry_def Let_def split: if_splits)
  next
    case False
    have inv0: "shard_inv pinv ?s0" using inv by (simp add: shard_inv_def)
    then have inv1: "shard_inv pinv ?s1" using drop_inv[OF inv0] by (cases "map_of (sm ?s0) k") simp_all
    have c: "capacity ?s1 = capacity s" by (simp split: option.splits)
    with False have fit: "int (length v) \<le> capacity ?s1" by simp
    from evict_loop_ok[where ev = ev and now = now and i = 0, OF inv1 env _ this]
    obtain b' s2 where loop: "evict_loop ops ev now (int (length v)) 0 ?s1 = Some (Some b', s2)" by auto
    from evict_loop_room[where ev = ev, OF inv1 env _ fit loop] have b' by simp
    then have "insert_entry ops ev k v now dl onMiss s = Some (Some True, insert_new ops k v now dl s2)"
      using False loop unfolding insert_entry_def Let_def by simp
    with i False show ?thesis by simp
  qed
qed

end

section \<open>A shard is a forgetful map\<close>

text \<open>
  The contract of a shard: a map from keys to the value and deadline last admitted, of which the shard
  may forget any part at any time. The outcome of an operation is \<open>None\<close> where the code panics or
  does not return.
\<close>

datatype shard_op =
    GetOp u64 int
  | InsertOp u64 "byte list" int int bool
  | RemoveOp u64

datatype outcome = Got "byte list option" | Stored bool | Removed bool

definition shard_step :: "'p policy_ops \<Rightarrow> (nat \<Rightarrow> ev_env) \<Rightarrow> shard_op \<Rightarrow> 'p shard \<Rightarrow> (outcome \<times> 'p shard) option" where
  "shard_step ops ev op s =
     (case op of
        GetOp k now \<Rightarrow> Some (case get ops k now s of (r, s) \<Rightarrow> (Got r, s))
      | InsertOp k v now dl onMiss \<Rightarrow>
          (case insert_entry ops ev k v now dl onMiss s of
             Some (Some b, s) \<Rightarrow> Some (Stored b, s)
           | _ \<Rightarrow> None)
      | RemoveOp k \<Rightarrow> Some (case remove ops k s of (b, s) \<Rightarrow> (Removed b, s)))"

fun shard_run :: "'p policy_ops \<Rightarrow> (nat \<Rightarrow> nat \<Rightarrow> ev_env) \<Rightarrow> nat \<Rightarrow> shard_op list \<Rightarrow> 'p shard \<Rightarrow>
    (outcome list \<times> 'p shard) option" where
  "shard_run ops evs n [] s = Some ([], s)"
| "shard_run ops evs n (op # opl) s =
     (case shard_step ops (evs n) op s of None \<Rightarrow> None
      | Some (out, s) \<Rightarrow> map_option (map_prod ((#) out) id) (shard_run ops evs (Suc n) opl s))"

definition op_key :: "shard_op \<Rightarrow> u64" where
  "op_key op = (case op of GetOp k now \<Rightarrow> k | InsertOp k v now dl onMiss \<Rightarrow> k | RemoveOp k \<Rightarrow> k)"

text \<open>A value of 2 GiB or more, whose size does not fit the entry's \<open>int32\<close>.\<close>

definition big_op :: "shard_op \<Rightarrow> bool" where
  "big_op op \<longleftrightarrow> (case op of InsertOp k v now dl onMiss \<Rightarrow> 2 ^ 31 \<le> length v | _ \<Rightarrow> False)"

type_synonym last_admitted = "u64 \<Rightarrow> (byte list \<times> int) option"

fun spec_step :: "shard_op \<Rightarrow> outcome \<Rightarrow> last_admitted \<Rightarrow> last_admitted" where
  "spec_step (InsertOp k v now dl onMiss) (Stored True) M = M(k \<mapsto> (v, dl))"
| "spec_step (RemoveOp k) _ M = M(k := None)"
| "spec_step _ _ M = M"

fun spec_allows :: "shard_op \<Rightarrow> outcome \<Rightarrow> last_admitted \<Rightarrow> bool" where
  "spec_allows (GetOp k now) (Got (Some v)) M = (\<exists>dl. M k = Some (v, dl) \<and> (dl = 0 \<or> now < dl))"
| "spec_allows (GetOp k now) (Got None) M = True"
| "spec_allows (InsertOp k v now dl onMiss) (Stored b) M = True"
| "spec_allows (RemoveOp k) (Removed b) M = (b \<longrightarrow> M k \<noteq> None)"
| "spec_allows _ _ M = False"

fun spec_run :: "shard_op list \<Rightarrow> outcome list \<Rightarrow> last_admitted \<Rightarrow> bool" where
  "spec_run [] [] M = True"
| "spec_run (op # opl) (out # outs) M = (spec_allows op out M \<and> spec_run opl outs (spec_step op out M))"
| "spec_run _ _ M = False"

definition agrees :: "entries \<Rightarrow> last_admitted \<Rightarrow> bool" where
  "agrees es M \<longleftrightarrow> (\<forall>k e. map_of es k = Some e \<longrightarrow> M k = Some (e_value e, expires e))"

lemma spec_step_frame: "j \<noteq> op_key op \<Longrightarrow> spec_step op out M j = M j"
  by (cases "(op, out, M)" rule: spec_step.cases) (auto simp: op_key_def)

text \<open>No operation makes a key resident but its own.\<close>

definition grows_at :: "u64 \<Rightarrow> entries \<Rightarrow> entries \<Rightarrow> bool" where
  "grows_at k es es' \<longleftrightarrow> (\<forall>j. map_of es' j \<noteq> None \<longrightarrow> j = k \<or> map_of es j \<noteq> None)"

lemma grows_at_simps [simp]: "grows_at k es es" "grows_at k es (AList.delete j es)" "grows_at k es (AList.update k e es)"
  by (auto simp: grows_at_def)

lemma shrinks_grows: "shrinks es es' \<Longrightarrow> grows_at k es es'"
  unfolding grows_at_def by (metis shrinks_None)

lemma inserted_grows:
  assumes "inserted k v now dl es es'"
  shows "grows_at k es es'"
  unfolding grows_at_def
proof (intro allI impI)
  fix j assume j: "map_of es' j \<noteq> None"
  have "shrinks (AList.delete k es) (AList.delete k es')" using assms by (simp add: inserted_def)
  then have "map_of (AList.delete k es) j = None \<Longrightarrow> map_of (AList.delete k es') j = None" by (rule shrinks_None)
  with j show "j = k \<or> map_of es j \<noteq> None" unfolding map_of_delete fun_upd_def by metis
qed

lemma agrees_shrinks: "agrees es M \<Longrightarrow> shrinks es es' \<Longrightarrow> agrees es' M"
  unfolding agrees_def
proof (intro allI impI)
  fix k e' assume ag: "\<forall>k e. map_of es k = Some e \<longrightarrow> M k = Some (e_value e, expires e)"
    and "shrinks es es'" "map_of es' k = Some e'"
  then obtain e where "map_of es k = Some e" "clear_freq e = clear_freq e'" unfolding shrinks_def by blast
  then show "M k = Some (e_value e', expires e')" using ag clear_freq_eqD(1,5)[of e e'] by simp
qed

lemma agrees_delete: "agrees es M \<Longrightarrow> agrees (AList.delete k es) (M(k := None))"
  by (auto simp: agrees_def)

lemma agrees_delete': "agrees es M \<Longrightarrow> agrees (AList.delete k es) M"
  by (auto simp: agrees_def)

lemma agrees_inserted:
  assumes "agrees es M" and "inserted k v now dl es es'"
  shows "agrees es' (M(k \<mapsto> (v, dl)))"
  unfolding agrees_def
proof (intro allI impI)
  fix j e assume j: "map_of es' j = Some e"
  from assms(2) obtain e0 where e0: "map_of es' k = Some e0" "clear_freq e0 = clear_freq (new_entry k v now dl)"
    and sh: "shrinks (AList.delete k es) (AList.delete k es')" by (auto simp: inserted_def)
  show "(M(k \<mapsto> (v, dl))) j = Some (e_value e, expires e)"
  proof (cases "j = k")
    case True
    with j e0 clear_freq_eqD(1,5)[OF e0(2)] show ?thesis by (simp add: new_entry_def)
  next
    case False
    have "agrees (AList.delete k es') M" by (rule agrees_shrinks[OF agrees_delete'[OF assms(1)] sh])
    with False j show ?thesis by (simp add: agrees_def)
  qed
qed

context policy_laws
begin

lemma shard_step_ok:
  assumes inv: "shard_inv pinv s" and ag: "agrees (sm s) M" and env: "\<And>i. env_ok (ev i)" and len: "\<not> big_op op"
  shows "\<exists>out s'. shard_step ops ev op s = Some (out, s') \<and> shard_inv pinv s' \<and> capacity s' = capacity s \<and>
    spec_allows op out M \<and> agrees (sm s') (spec_step op out M) \<and> grows_at (op_key op) (sm s) (sm s')"
proof (cases op)
  case (GetOp k now)
  obtain r s' where g: "get ops k now s = (r, s')" by fastforce
  have c: "capacity s' = capacity s" using g by (auto simp: get_def Let_def split: option.splits if_splits prod.splits)
  have "spec_allows op (Got r) M \<and> agrees (sm s') M \<and> grows_at k (sm s) (sm s')"
  proof (cases "map_of (sm s) k")
    case None
    with g ag show ?thesis by (auto simp: get_def GetOp)
  next
    case (Some e)
    show ?thesis
    proof (cases "expired e now")
      case True
      then show ?thesis using get_expired(1,3)[OF inv Some True g] agrees_delete'[OF ag] by (simp add: GetOp)
    next
      case False
      from get_hit(3)[OF inv Some False g] obtain e' where
        e': "sm s' = AList.update k e' (sm s)" "clear_freq e' = clear_freq (touch now e)" by blast
      have "agrees (sm s') M" using ag Some clear_freq_eqD(1,5)[OF e'(2)] by (auto simp: agrees_def e'(1))
      moreover have "M k = Some (e_value e, expires e)" using ag Some by (simp add: agrees_def)
      ultimately show ?thesis using get_hit(1)[OF inv Some False g] False e'(1) by (auto simp: GetOp expired_def)
    qed
  qed
  then show ?thesis using get_inv[OF inv g] g c by (simp add: shard_step_def GetOp op_key_def)
next
  case (InsertOp k v now dl onMiss)
  have "length v < 2 ^ 31" using len by (simp add: InsertOp big_op_def)
  from insert_ok[where ev = ev, OF inv env this] obtain b s' where
    i: "insert_entry ops ev k v now dl onMiss s = Some (Some b, s')" "shard_inv pinv s'" "capacity s' = capacity s"
      "if b then inserted k v now dl (sm s) (sm s') \<and> admissions s' = admissions s + 1
       else rejects s' = rejects s + 1 \<and> admissions s' = admissions s \<and>
         (if capacity s < int (length v) then sm s' = sm s
          else map_of (sm s') k = None \<and> shrinks (sm s) (sm s'))" by blast
  have "agrees (sm s') (spec_step op (Stored b) M)"
    using i(4) agrees_inserted[OF ag] agrees_shrinks[OF ag] ag by (cases b) (auto simp: InsertOp split: if_splits)
  moreover have "grows_at k (sm s) (sm s')"
    using i(4) inserted_grows[of k v now dl] shrinks_grows[of "sm s" "sm s'" k] by (cases b) (auto split: if_splits)
  ultimately show ?thesis using i(1-3) by (simp add: shard_step_def InsertOp op_key_def)
next
  case (RemoveOp k)
  obtain b s' where r: "remove ops k s = (b, s')" by fastforce
  have "sm s' = AList.delete k (sm s)" "capacity s' = capacity s" "b \<longrightarrow> M k \<noteq> None"
    using r ag by (auto simp: remove_def agrees_def split: option.splits)
  then show ?thesis using r remove_keeps[OF inv r] agrees_delete[OF ag]
    by (simp add: shard_step_def RemoveOp op_key_def)
qed

lemma shard_run_ok:
  assumes "shard_inv pinv s" and "agrees (sm s) M" and "\<And>i j. env_ok (evs i j)" and "\<forall>op \<in> set opl. \<not> big_op op"
  shows "\<exists>outs s'. shard_run ops evs n opl s = Some (outs, s') \<and> shard_inv pinv s' \<and> capacity s' = capacity s \<and>
    spec_run opl outs M"
  using assms(1,2,4)
proof (induction opl arbitrary: n s M)
  case (Cons op opl)
  have "\<not> big_op op" using Cons.prems(3) by simp
  from shard_step_ok[where ev = "evs n", OF Cons.prems(1,2) assms(3) this]
  obtain out s1 where s1: "shard_step ops (evs n) op s = Some (out, s1)" "shard_inv pinv s1" "capacity s1 = capacity s"
    "spec_allows op out M" "agrees (sm s1) (spec_step op out M)" by blast
  from Cons.IH[OF s1(2,5), of "Suc n"] Cons.prems(3) s1 show ?case by auto
qed simp

end

end
