(* ===== verification/Cache_Store.thy ===== *)
theory Cache_Store
  imports Shard
begin

text \<open>
  \<^verbatim>\<open>internal/cache/cache.go\<close>: the sharded store, its configuration, the key hash and the statistics.
  A key is the list of its bytes. The clock readings of a call are arguments; the trace recorder is
  the list of its rings, one per shard.
\<close>

section \<open>The key hash\<close>

definition fnv_step :: "u64 \<Rightarrow> byte \<Rightarrow> u64" where
  "fnv_step h b = (h XOR ucast b) * 1099511628211"

definition xorshift33 :: "u64 \<Rightarrow> u64" where
  "xorshift33 h = h XOR drop_bit 33 h"

definition finalize :: "u64 \<Rightarrow> u64" where
  "finalize h = xorshift33 (xorshift33 (xorshift33 h * 0xff51afd7ed558ccd) * 0xc4ceb9fe1a85ec53)"

definition Hash :: "byte list \<Rightarrow> u64" where
  "Hash key = finalize (foldl fnv_step 14695981039346656037 key)"

text \<open>Each stage of the finalizer can be undone, so it never merges two FNV values.\<close>

lemma xorshift33_involution: "xorshift33 (xorshift33 h) = h"
proof -
  have "drop_bit 33 (h XOR drop_bit 33 h) = drop_bit 33 h XOR drop_bit 66 h" by (simp add: drop_bit_xor)
  moreover have "unat h < 2 ^ 66" by (rule less_le_trans[OF unsigned_less]) simp
  then have "unat (drop_bit 66 h) = 0" unfolding unat_drop_bit_eq by (simp add: drop_bit_eq_div)
  then have "drop_bit 66 h = 0" by (simp only: unat_eq_0)
  ultimately show ?thesis by (simp add: xorshift33_def xor.assoc)
qed

lemma mult_inverse_inj: "(a::u64) * b = 1 \<Longrightarrow> inj (\<lambda>x. x * a)"
proof (rule injI)
  fix x y assume "a * b = 1" and "x * a = y * a"
  then have "x * a * b = y * a * b" by simp
  with \<open>a * b = 1\<close> show "x = y" by (simp add: mult.assoc)
qed

lemma finalize_inj: "finalize x = finalize y \<Longrightarrow> x = y"
proof -
  have i: "inj xorshift33" by (rule injI) (metis xorshift33_involution)
  have m1: "inj (\<lambda>x::u64. x * 0xff51afd7ed558ccd)" by (rule mult_inverse_inj[of _ 5725274745694666757]) simp
  have m2: "inj (\<lambda>x::u64. x * 0xc4ceb9fe1a85ec53)" by (rule mult_inverse_inj[of _ 11291846944257947611]) simp
  assume "finalize x = finalize y"
  then show "x = y" unfolding finalize_def using injD[OF i] injD[OF m1] injD[OF m2] by metis
qed

lemma xor_cancel: "(a::u64) XOR c = b XOR c \<Longrightarrow> a = b"
proof -
  assume "a XOR c = b XOR c"
  then have "(a XOR c) XOR c = (b XOR c) XOR c" by simp
  then show "a = b" by (simp add: xor.assoc)
qed

lemma fnv_step_inj: "fnv_step h b = fnv_step h' b' \<Longrightarrow> h XOR ucast b = h' XOR ucast b'"
proof -
  have "inj (\<lambda>x::u64. x * 1099511628211)" by (rule mult_inverse_inj[of _ 14886173955864302971]) simp
  then show "fnv_step h b = fnv_step h' b' \<Longrightarrow> h XOR ucast b = h' XOR ucast b'"
    unfolding fnv_step_def by (rule injD)
qed

lemma fnv_state_inj: "foldl fnv_step h s = foldl fnv_step h' s \<Longrightarrow> h = h'"
proof (induction s arbitrary: h h')
  case (Cons b s)
  then have "fnv_step h b = fnv_step h' b" by (simp only: foldl_Cons)
  then have "h XOR ucast b = h' XOR ucast b" by (rule fnv_step_inj)
  then show ?case by (rule xor_cancel)
qed simp

lemma fnv_byte_inj: "fnv_step h b = fnv_step h b' \<Longrightarrow> b = b'"
proof -
  assume "fnv_step h b = fnv_step h b'"
  then have "h XOR ucast b = h XOR ucast b'" by (rule fnv_step_inj)
  then have "(ucast b :: u64) = ucast b'" by (metis xor.commute xor_cancel)
  then have "unat (ucast b :: u64) = unat (ucast b' :: u64)" by simp
  moreover have "unat (ucast x :: u64) = unat x" for x :: byte
    by (simp add: unsigned_ucast_eq take_bit_nat_eq_self less_le_trans[OF unsigned_less])
  ultimately have "unat b = unat b'" by simp
  then show "b = b'" by (simp only: word_unat_eq_iff)
qed

section \<open>State and construction\<close>

record 'p config =
  NewPolicy :: "(int \<Rightarrow> 'p) option"
  Trace :: "tring list option"
  DefaultTTL :: int
  CapacityBytes :: int
  Shards :: int

record 'p cache =
  c_policy :: string
  shards :: "'p shard list"
  c_mask :: u64
  defaultTTL :: int

datatype cache_error = CapacityNotPositive | NewPolicyRequired | NothingPerShard int int | RingMismatch int int

definition RoundShards :: "int \<Rightarrow> int" where
  "RoundShards n = (if n \<le> 0 then 256 else shl_bits_len n)"

definition new_shards :: "(int \<Rightarrow> 'p) \<Rightarrow> tring list option \<Rightarrow> int \<Rightarrow> nat \<Rightarrow> 'p shard list" where
  "new_shards mk trace per n =
     map (\<lambda>i. newShard per (mk per) (case trace of None \<Rightarrow> None | Some rings \<Rightarrow> Some (rings ! i))) [0..<n]"

definition NewCache :: "'p policy_ops \<Rightarrow> 'p config \<Rightarrow> cache_error + 'p cache" where
  "NewCache ops cfg =
     (if CapacityBytes cfg \<le> 0 then Inl CapacityNotPositive
      else case NewPolicy cfg of
        None \<Rightarrow> Inl NewPolicyRequired
      | Some mk \<Rightarrow>
          (let want = (if Shards cfg \<le> 0 then 256 else Shards cfg);
               n = RoundShards want;
               per = go_div (CapacityBytes cfg) n
           in if per \<le> 0 then Inl (NothingPerShard (CapacityBytes cfg) n)
              else if (case Trace cfg of None \<Rightarrow> False | Some rings \<Rightarrow> int (length rings) \<noteq> n)
                then Inl (RingMismatch (int (length (the (Trace cfg)))) n)
              else Inr \<lparr>c_policy = pol_name ops, shards = new_shards mk (Trace cfg) per (nat n),
                        c_mask = word_of_int (n - 1), defaultTTL = DefaultTTL cfg\<rparr>))"

section \<open>Operations\<close>

definition shardFor :: "'p cache \<Rightarrow> u64 \<Rightarrow> nat" where
  "shardFor c h = unat (h AND c_mask c)"

text \<open>\<open>ttl.Microseconds()\<close> divides the nanoseconds of a duration.\<close>

definition deadline :: "'p cache \<Rightarrow> int \<Rightarrow> int \<Rightarrow> int" where
  "deadline c now ttl =
     (let ttl = (if ttl \<le> 0 then defaultTTL c else ttl)
      in if ttl \<le> 0 then 0 else wrap64 (now + go_div ttl 1000))"

text \<open>An index past the shards panics; \<open>None\<close> is a call that does not return.\<close>

definition on_shard :: "'p cache \<Rightarrow> u64 \<Rightarrow> ('p shard \<Rightarrow> ('r \<times> 'p shard) option) \<Rightarrow> ('r \<times> 'p cache) option" where
  "on_shard c h f =
     (if shardFor c h < length (shards c)
      then case f (shards c ! shardFor c h) of
             None \<Rightarrow> None
           | Some (r, s) \<Rightarrow> Some (r, c\<lparr>shards := (shards c)[shardFor c h := s]\<rparr>)
      else None)"

definition Get :: "'p policy_ops \<Rightarrow> byte list \<Rightarrow> int \<Rightarrow> 'p cache \<Rightarrow> (byte list option \<times> 'p cache) option" where
  "Get ops key now c = (let h = Hash key in on_shard c h (\<lambda>s. Some (get ops h now s)))"

definition insert_result :: "(bool option \<times> 'p shard) option \<Rightarrow> (bool \<times> 'p shard) option" where
  "insert_result r = (case r of Some (Some b, s) \<Rightarrow> Some (b, s) | _ \<Rightarrow> None)"

definition Admit :: "'p policy_ops \<Rightarrow> (nat \<Rightarrow> ev_env) \<Rightarrow> byte list \<Rightarrow> byte list \<Rightarrow> int \<Rightarrow> 'p cache \<Rightarrow>
    (bool \<times> 'p cache) option" where
  "Admit ops ev key v now c =
     (let h = Hash key in on_shard c h (\<lambda>s. insert_result (insert_entry ops ev h v now (deadline c now 0) True s)))"

definition Put :: "'p policy_ops \<Rightarrow> (nat \<Rightarrow> ev_env) \<Rightarrow> byte list \<Rightarrow> byte list \<Rightarrow> int \<Rightarrow> int \<Rightarrow> 'p cache \<Rightarrow>
    (bool \<times> 'p cache) option" where
  "Put ops ev key v ttl now c =
     (let h = Hash key in on_shard c h (\<lambda>s. insert_result (insert_entry ops ev h v now (deadline c now ttl) False s)))"

definition Delete :: "'p policy_ops \<Rightarrow> byte list \<Rightarrow> 'p cache \<Rightarrow> (bool \<times> 'p cache) option" where
  "Delete ops key c = (let h = Hash key in on_shard c h (\<lambda>s. Some (remove ops h s)))"

definition Shape :: "'p cache \<Rightarrow> int \<times> int" where
  "Shape c = (int (length (shards c)), capacity (hd (shards c)))"

section \<open>Statistics\<close>

record stats =
  st_policy :: string
  Hits :: u64
  Misses :: u64
  HitBytes :: u64
  MissBytes :: u64
  Admissions :: u64
  Rejections :: u64
  Evictions :: u64
  Expirations :: u64
  Objects :: u64
  BytesUsed :: u64
  BytesCapacity :: u64
  EvictNSMean :: u64
  EvictNS :: u64
  EvictSample :: u64

definition add_shard :: "'p shard \<Rightarrow> stats \<Rightarrow> stats" where
  "add_shard s st = st\<lparr>Hits := Hits st + hits s, Misses := Misses st + misses s,
     HitBytes := HitBytes st + hitBytes s, MissBytes := MissBytes st + missBytes s,
     Admissions := Admissions st + admissions s, Rejections := Rejections st + rejects s,
     Evictions := Evictions st + evictions s, Expirations := Expirations st + expirations s,
     Objects := Objects st + of_nat (length (sm s)), BytesUsed := BytesUsed st + word_of_int (used s),
     BytesCapacity := BytesCapacity st + word_of_int (capacity s),
     EvictNS := EvictNS st + evictNS s, EvictSample := EvictSample st + evictSample s\<rparr>"

definition zero_stats :: "string \<Rightarrow> stats" where
  "zero_stats name = \<lparr>st_policy = name, Hits = 0, Misses = 0, HitBytes = 0, MissBytes = 0, Admissions = 0,
     Rejections = 0, Evictions = 0, Expirations = 0, Objects = 0, BytesUsed = 0, BytesCapacity = 0,
     EvictNSMean = 0, EvictNS = 0, EvictSample = 0\<rparr>"

definition Snapshot :: "'p cache \<Rightarrow> stats" where
  "Snapshot c =
     (let st = fold add_shard (shards c) (zero_stats (c_policy c))
      in if 0 < EvictSample st then st\<lparr>EvictNSMean := EvictNS st div EvictSample st\<rparr> else st)"

definition ratio :: "u64 \<Rightarrow> u64 \<Rightarrow> fl" where
  "ratio num den = (if den = 0 then Fin 0 else fdiv F64 (f_of_int F64 (uint num)) (f_of_int F64 (uint den)))"

definition ObjectHitRatio :: "stats \<Rightarrow> fl" where
  "ObjectHitRatio s = ratio (Hits s) (Hits s + Misses s)"

definition ByteHitRatio :: "stats \<Rightarrow> fl" where
  "ByteHitRatio s = ratio (HitBytes s) (HitBytes s + MissBytes s)"

section \<open>Selection of a shard\<close>

definition masks :: "'p cache \<Rightarrow> bool" where
  "masks c \<longleftrightarrow> (\<exists>k \<le> 62. length (shards c) = 2 ^ k \<and> c_mask c = 2 ^ k - 1)"

lemma shardFor_mod: "masks c \<Longrightarrow> shardFor c h = unat h mod length (shards c)"
  by (auto simp: masks_def shardFor_def mask_index)

lemma masks_length: "masks c \<Longrightarrow> 0 < length (shards c)"
  by (auto simp: masks_def)

lemma shardFor_less: "masks c \<Longrightarrow> shardFor c h < length (shards c)"
  using masks_length[of c] by (simp add: shardFor_mod)

lemma masks_update [simp]: "masks (c\<lparr>shards := (shards c)[i := s]\<rparr>) = masks c"
  by (simp add: masks_def)

lemma shardFor_update [simp]: "shardFor (c\<lparr>shards := xs\<rparr>) = shardFor c"
  by (simp add: shardFor_def fun_eq_iff)

section \<open>The invariant of the store\<close>

text \<open>Every shard is well-formed and holds only the keys whose hash selects it.\<close>

definition at_home :: "'p cache \<Rightarrow> nat \<Rightarrow> 'p shard \<Rightarrow> bool" where
  "at_home c i s \<longleftrightarrow> (\<forall>h. map_of (sm s) h \<noteq> None \<longrightarrow> shardFor c h = i)"

definition wf_cache :: "('p \<Rightarrow> entries \<Rightarrow> bool) \<Rightarrow> 'p cache \<Rightarrow> bool" where
  "wf_cache pinv c \<longleftrightarrow> masks c \<and> (\<forall>i < length (shards c). shard_inv pinv (shards c ! i) \<and> at_home c i (shards c ! i))"

definition cache_agrees :: "'p cache \<Rightarrow> last_admitted \<Rightarrow> bool" where
  "cache_agrees c M \<longleftrightarrow> (\<forall>i < length (shards c). agrees (sm (shards c ! i)) M)"

lemma at_home_update [simp]: "at_home (c\<lparr>shards := xs\<rparr>) = at_home c"
  by (simp add: at_home_def fun_eq_iff)

section \<open>The store's operations as operations on hashes\<close>

datatype cache_op =
    CGet "byte list" int
  | CAdmit "byte list" "byte list" int
  | CPut "byte list" "byte list" int int
  | CDelete "byte list"

definition with_outcome :: "('r \<Rightarrow> outcome) \<Rightarrow> ('r \<times> 'c) option \<Rightarrow> (outcome \<times> 'c) option" where
  "with_outcome f r = map_option (map_prod f id) r"

definition cache_step :: "'p policy_ops \<Rightarrow> (nat \<Rightarrow> ev_env) \<Rightarrow> cache_op \<Rightarrow> 'p cache \<Rightarrow> (outcome \<times> 'p cache) option" where
  "cache_step ops ev op c =
     (case op of
        CGet key now \<Rightarrow> with_outcome Got (Get ops key now c)
      | CAdmit key v now \<Rightarrow> with_outcome Stored (Admit ops ev key v now c)
      | CPut key v ttl now \<Rightarrow> with_outcome Stored (Put ops ev key v ttl now c)
      | CDelete key \<Rightarrow> with_outcome Removed (Delete ops key c))"

fun cache_run :: "'p policy_ops \<Rightarrow> (nat \<Rightarrow> nat \<Rightarrow> ev_env) \<Rightarrow> nat \<Rightarrow> cache_op list \<Rightarrow> 'p cache \<Rightarrow>
    (outcome list \<times> 'p cache) option" where
  "cache_run ops evs n [] c = Some ([], c)"
| "cache_run ops evs n (op # opl) c =
     (case cache_step ops (evs n) op c of None \<Rightarrow> None
      | Some (out, c) \<Rightarrow> map_option (map_prod ((#) out) id) (cache_run ops evs (Suc n) opl c))"

definition hashed_op :: "'p cache \<Rightarrow> cache_op \<Rightarrow> shard_op" where
  "hashed_op c op =
     (case op of
        CGet key now \<Rightarrow> GetOp (Hash key) now
      | CAdmit key v now \<Rightarrow> InsertOp (Hash key) v now (deadline c now 0) True
      | CPut key v ttl now \<Rightarrow> InsertOp (Hash key) v now (deadline c now ttl) False
      | CDelete key \<Rightarrow> RemoveOp (Hash key))"

definition big_value :: "cache_op \<Rightarrow> bool" where
  "big_value op = (case op of CAdmit key v now \<Rightarrow> 2 ^ 31 \<le> length v | CPut key v ttl now \<Rightarrow> 2 ^ 31 \<le> length v | _ \<Rightarrow> False)"

lemma big_hashed [simp]: "big_op (hashed_op c op) = big_value op"
  by (simp add: big_op_def hashed_op_def big_value_def split: cache_op.split)

lemma hashed_cong: "defaultTTL c = defaultTTL c' \<Longrightarrow> hashed_op c = hashed_op c'"
  by (simp add: hashed_op_def deadline_def fun_eq_iff split: cache_op.split)

lemma on_shard_outcome: "with_outcome f (on_shard c h g) = on_shard c h (\<lambda>s. with_outcome f (g s))"
  by (simp add: on_shard_def with_outcome_def split: option.splits prod.splits)

lemma cache_step_shard:
  "cache_step ops ev op c = on_shard c (op_key (hashed_op c op)) (shard_step ops ev (hashed_op c op))"
proof -
  have I: "with_outcome Stored (insert_result r) =
      (case r of Some (Some b, s) \<Rightarrow> Some (Stored b, s) | _ \<Rightarrow> None)" for r
    by (simp add: with_outcome_def insert_result_def split: option.splits prod.splits)
  have P: "with_outcome f (Some r) = Some (case r of (x, s) \<Rightarrow> (f x, s))" for f r
    by (simp add: with_outcome_def split: prod.split)
  note defs = cache_step_def hashed_op_def op_key_def Let_def on_shard_outcome shard_step_def[abs_def]
  show ?thesis
  proof (cases op)
    case (CGet key now)
    then show ?thesis by (simp add: defs Get_def P)
  next
    case (CAdmit key v now)
    then show ?thesis by (simp add: defs Admit_def I)
  next
    case (CPut key v ttl now)
    then show ?thesis by (simp add: defs Put_def I)
  next
    case (CDelete key)
    then show ?thesis by (simp add: defs Delete_def P)
  qed
qed

context policy_laws begin

lemma cache_step_ok:
  assumes wf: "wf_cache pinv c" and ag: "cache_agrees c M" and env: "\<And>i. env_ok (ev i)" and len: "\<not> big_value op"
  shows "\<exists>out c'. cache_step ops ev op c = Some (out, c') \<and> wf_cache pinv c' \<and> defaultTTL c' = defaultTTL c \<and>
    map capacity (shards c') = map capacity (shards c) \<and>
    spec_allows (hashed_op c op) out M \<and> cache_agrees c' (spec_step (hashed_op c op) out M)"
proof -
  let ?op = "hashed_op c op" and ?i = "shardFor c (op_key (hashed_op c op))"
  have m: "masks c" using wf by (simp add: wf_cache_def)
  have i: "?i < length (shards c)" by (rule shardFor_less[OF m])
  have home: "at_home c j (shards c ! j)" "shard_inv pinv (shards c ! j)" "agrees (sm (shards c ! j)) M"
    if "j < length (shards c)" for j
    using wf ag that by (simp_all add: wf_cache_def cache_agrees_def)
  have "\<not> big_op ?op" using len by simp
  from shard_step_ok[where ev = ev, OF home(2,3)[OF i] env this] obtain out s' where
    st: "shard_step ops ev ?op (shards c ! ?i) = Some (out, s')" and
    s': "shard_inv pinv s'" "capacity s' = capacity (shards c ! ?i)" "spec_allows ?op out M"
      "agrees (sm s') (spec_step ?op out M)" "grows_at (op_key ?op) (sm (shards c ! ?i)) (sm s')" by blast
  let ?c = "c\<lparr>shards := (shards c)[?i := s']\<rparr>"
  have step: "cache_step ops ev op c = Some (out, ?c)"
    using i st by (simp add: cache_step_shard on_shard_def)
  have "at_home c ?i s'" using s'(5) home(1)[OF i] unfolding at_home_def grows_at_def by metis
  then have "wf_cache pinv ?c" using home s'(1) m i by (auto simp: wf_cache_def nth_list_update)
  moreover have "agrees (sm (shards ?c ! j)) (spec_step ?op out M)" if j: "j < length (shards c)" for j
  proof (cases "j = ?i")
    case True
    with s'(4) i show ?thesis by simp
  next
    case False
    have "h \<noteq> op_key ?op" if "map_of (sm (shards c ! j)) h = Some e" for h e
      using home(1)[OF j] that False by (auto simp: at_home_def)
    with home(3)[OF j] False show ?thesis by (auto simp: agrees_def spec_step_frame)
  qed
  moreover have "map capacity (shards ?c) = map capacity (shards c)"
    using s'(2) i by (simp add: map_update) (metis length_map list_update_id nth_map)
  ultimately show ?thesis using step s'(3) by (auto simp: cache_agrees_def)
qed

lemma cache_run_ok:
  assumes "wf_cache pinv c" and "cache_agrees c M" and "\<And>i j. env_ok (evs i j)" and "\<forall>op \<in> set opl. \<not> big_value op"
  shows "\<exists>outs c'. cache_run ops evs n opl c = Some (outs, c') \<and> wf_cache pinv c' \<and>
    map capacity (shards c') = map capacity (shards c) \<and> spec_run (map (hashed_op c) opl) outs M"
  using assms(1,2,4)
proof (induction opl arbitrary: n c M)
  case (Cons op opl)
  have "\<not> big_value op" using Cons.prems(3) by simp
  from cache_step_ok[where ev = "evs n", OF Cons.prems(1,2) assms(3) this] obtain out c1 where
    c1: "cache_step ops (evs n) op c = Some (out, c1)" "wf_cache pinv c1" "defaultTTL c1 = defaultTTL c"
      "map capacity (shards c1) = map capacity (shards c)" "spec_allows (hashed_op c op) out M"
      "cache_agrees c1 (spec_step (hashed_op c op) out M)" by blast
  from Cons.IH[OF c1(2,6), of "Suc n"] Cons.prems(3) c1 hashed_cong[OF c1(3)] show ?case by auto
qed simp

end

section \<open>Construction\<close>

lemma RoundShards_pow2:
  assumes "n \<le> 2 ^ 62"
  shows "\<exists>k \<le> 62. RoundShards n = 2 ^ k \<and> n \<le> 2 ^ k"
proof (cases "n \<le> 0")
  case True
  then have "RoundShards n = 2 ^ 8" by (simp add: RoundShards_def)
  moreover have "n \<le> 2 ^ 8" using True by simp
  ultimately show ?thesis by (intro exI[of _ 8]) simp
next
  case False
  then show ?thesis using shl_bits_len[of n] assms by (auto simp: RoundShards_def)
qed

lemma NewCache_cases:
  assumes "NewCache ops cfg = Inr c"
  shows "0 < CapacityBytes cfg" and "\<exists>mk. NewPolicy cfg = Some mk \<and>
    (let n = RoundShards (if Shards cfg \<le> 0 then 256 else Shards cfg);
         per = go_div (CapacityBytes cfg) n
     in 0 < per \<and> c = \<lparr>c_policy = pol_name ops, shards = new_shards mk (Trace cfg) per (nat n),
          c_mask = word_of_int (n - 1), defaultTTL = DefaultTTL cfg\<rparr>)"
  using assms by (auto simp: NewCache_def Let_def split: if_splits option.splits)

text \<open>A store that \<open>NewCache\<close> returns is empty and well-formed, and its shards fit in the capacity.\<close>

lemma NewCache_ok:
  assumes new: "NewCache ops cfg = Inr c" and cap: "CapacityBytes cfg < 2 ^ 62" and n: "Shards cfg \<le> 2 ^ 62"
    and mk: "\<And>mk per. NewPolicy cfg = Some mk \<Longrightarrow> pinv (mk per) []"
  shows "wf_cache pinv c" and "cache_agrees c Map.empty"
    and "sum_list (map capacity (shards c)) \<le> CapacityBytes cfg"
    and "\<forall>s \<in> set (shards c). capacity s = CapacityBytes cfg div int (length (shards c))"
    and "int (length (shards c)) = RoundShards (Shards cfg)"
proof -
  let ?n = "RoundShards (if Shards cfg \<le> 0 then 256 else Shards cfg)"
  let ?per = "go_div (CapacityBytes cfg) ?n"
  from NewCache_cases[OF new] obtain mk0 where pos: "0 < CapacityBytes cfg" and mk0: "NewPolicy cfg = Some mk0"
    and per: "0 < ?per" and c: "c = \<lparr>c_policy = pol_name ops, shards = new_shards mk0 (Trace cfg) ?per (nat ?n),
          c_mask = word_of_int (?n - 1), defaultTTL = DefaultTTL cfg\<rparr>"
    by (auto simp: Let_def)
  have "RoundShards 256 = 256" by (simp add: RoundShards_def shl_bits_len_def wrap_simps)
  then have eqn: "?n = RoundShards (Shards cfg)" by (auto simp: RoundShards_def)
  obtain k where k: "k \<le> 62" "?n = 2 ^ k" using RoundShards_pow2[OF n] eqn by auto
  have div: "?per = CapacityBytes cfg div 2 ^ k" using pos k by simp
  have len: "length (shards c) = 2 ^ k" by (simp add: c new_shards_def k nat_power_eq)
  then show len': "int (length (shards c)) = RoundShards (Shards cfg)" using k eqn by simp
  have small: "?per < 2 ^ 62" using cap pos k div by (smt (verit) div_by_1 int_one_le_iff_zero_less zdiv_mono2 zero_less_power)
  have nth: "\<exists>r. shards c ! i = newShard ?per (mk0 ?per) r" if "i < length (shards c)" for i
    using that len by (auto simp: c new_shards_def k nat_power_eq)
  have "masks c" using k len by (auto simp: masks_def c)
  moreover have "shard_inv pinv (shards c ! i) \<and> at_home c i (shards c ! i) \<and> agrees (sm (shards c ! i)) Map.empty \<and>
      capacity (shards c ! i) = ?per" if i: "i < length (shards c)" for i
  proof -
    obtain r where r: "shards c ! i = newShard ?per (mk0 ?per) r" using nth[OF i] by blast
    show ?thesis unfolding r using newShard_inv[of ?per pinv "mk0 ?per" r] mk[OF mk0] per small
      by (simp add: newShard_def at_home_def agrees_def)
  qed
  ultimately show "wf_cache pinv c" "cache_agrees c Map.empty"
    by (simp_all add: wf_cache_def cache_agrees_def)
  show all: "\<forall>s \<in> set (shards c). capacity s = CapacityBytes cfg div int (length (shards c))"
  proof
    fix s assume "s \<in> set (shards c)"
    then obtain i where i: "i < length (shards c)" "shards c ! i = s" by (auto simp: in_set_conv_nth)
    obtain r where "s = newShard ?per (mk0 ?per) r" using nth[OF i(1)] i(2) by auto
    then show "capacity s = CapacityBytes cfg div int (length (shards c))" using div len by (simp add: newShard_def)
  qed
  then have "map capacity (shards c) = replicate (2 ^ k) (CapacityBytes cfg div 2 ^ k)"
    using len by (intro replicate_eqI) auto
  then have "sum_list (map capacity (shards c)) = 2 ^ k * (CapacityBytes cfg div 2 ^ k)"
    by (simp add: sum_list_replicate)
  also have "\<dots> = CapacityBytes cfg - CapacityBytes cfg mod 2 ^ k" by (rule minus_mod_eq_mult_div[symmetric])
  also have "\<dots> \<le> CapacityBytes cfg" by simp
  finally show "sum_list (map capacity (shards c)) \<le> CapacityBytes cfg" .
qed

section \<open>Statistics\<close>

lemma fold_add_shard:
  "BytesUsed (fold add_shard ss st) = BytesUsed st + word_of_int (sum_list (map used ss))"
  "BytesCapacity (fold add_shard ss st) = BytesCapacity st + word_of_int (sum_list (map capacity ss))"
  "Objects (fold add_shard ss st) = Objects st + of_nat (sum_list (map (length \<circ> sm) ss))"
  "Hits (fold add_shard ss st) = Hits st + sum_list (map hits ss)"
  "Misses (fold add_shard ss st) = Misses st + sum_list (map misses ss)"
  by (induction ss arbitrary: st) (simp_all add: add_shard_def add.assoc)

lemma Snapshot_sums:
  "BytesUsed (Snapshot c) = word_of_int (sum_list (map used (shards c)))"
  "BytesCapacity (Snapshot c) = word_of_int (sum_list (map capacity (shards c)))"
  "Objects (Snapshot c) = of_nat (sum_list (map (length \<circ> sm) (shards c)))"
  "Hits (Snapshot c) = sum_list (map hits (shards c))"
  "Misses (Snapshot c) = sum_list (map misses (shards c))"
  by (simp_all add: Snapshot_def Let_def fold_add_shard zero_stats_def)

lemma sum_used_le:
  assumes "wf_cache pinv c"
  shows "0 \<le> sum_list (map used (shards c))" and "sum_list (map used (shards c)) \<le> sum_list (map capacity (shards c))"
proof -
  have s: "0 \<le> used s \<and> used s \<le> capacity s" if "s \<in> set (shards c)" for s
    using assms that shard_invD(4,5)[of pinv s] by (auto simp: wf_cache_def in_set_conv_nth)
  from s show "0 \<le> sum_list (map used (shards c))" by (intro sum_list_nonneg) auto
  from s show "sum_list (map used (shards c)) \<le> sum_list (map capacity (shards c))" by (intro sum_list_mono) auto
qed

lemma uint_word_of_int: "0 \<le> x \<Longrightarrow> x < 2 ^ 62 \<Longrightarrow> uint (word_of_int x :: u64) = x"
  by (simp add: uint_word_of_int_eq take_bit_int_eq_self)

text \<open>The reported ratio lies between 0 and 1 whatever the rounding.\<close>

lemma ratio_bounds:
  assumes "num \<le> den"
  shows "\<exists>r. ratio num den = Fin r \<and> 0 \<le> r \<and> r \<le> 1"
proof (cases "den = 0")
  case False
  let ?n = "f_of_int F64 (uint num)" and ?d = "f_of_int F64 (uint den)"
  have le: "uint num \<le> uint den" using assms by (simp only: word_le_def)
  have up: "uint x \<le> 2 ^ 64" "0 \<le> uint x" for x :: u64 using uint_lt2p[of x] by (simp_all add: less_imp_le)
  have "uint den \<noteq> 0" using False by (simp only: uint_0_iff) simp
  with up(2)[of den] have pos: "1 \<le> uint den" by linarith
  obtain n where n: "?n = Fin n" "0 \<le> n"
    using f_of_int_bounded[of F64 "uint num" 64] up std_fmts by (auto simp: fmt_fields)
  obtain d where d: "?d = Fin d"
    using f_of_int_bounded[of F64 "uint den" 64] up std_fmts by (auto simp: fmt_fields)
  have "?n \<le> ?d" using f_of_int_mono[OF _ le, of F64] std_fmts by simp
  then have nd: "n \<le> d" using n d by simp
  have "Fin 1 \<le> ?d" using f_of_int_mono[OF _ pos, of F64] f_of_int_exact[of F64 1] std_fmts by (simp add: fmt_fields)
  then have d1: "1 \<le> d" using d by simp
  have "0 \<le> n / d" "n / d \<le> 2 powi 0" using n nd d1 by (simp_all add: divide_le_eq)
  then obtain r where "fround F64 (n / d) = Fin r" "0 \<le> r" "r \<le> 1"
    using fround_bounded[of F64 "n / d" 0] std_fmts by (auto simp: fmt_fields)
  then show ?thesis using False n d d1 by (simp add: ratio_def)
qed (simp add: ratio_def)

end
