(* ===== verification/Hashring.thy ===== *)
theory Hashring
  imports Cache_Store
begin

text \<open>
  \<^verbatim>\<open>internal/hashring/hashring.go\<close>: consistent hashing with bounded loads. A node is reached through a
  pointer from the slice and from the map by name; nodes are never removed, so the pointer is the
  node's index in the slice. Every method is one step: the topology lock serialises \<open>Add\<close> against the
  rest, and the load counters are read and written by one request at a time.

  \<open>sort.Slice\<close> is not stable, so the order of virtual nodes with equal hashes is the library's choice:
  sorting is the argument \<open>srt\<close>, of which the proofs use only that it sorts and permutes. A float too
  large for \<open>int64\<close> converts to a value the implementation chooses, the argument \<open>impl\<close>.
\<close>

section \<open>State\<close>

record hnode =
  hn_name :: "byte list"
  hn_load :: int

record vnode =
  vn_hash :: u64
  vn_idx :: int

record hring =
  byName :: "(byte list \<times> nat) list"
  hnodes :: "hnode list"
  vnodes :: "vnode list"
  total :: int
  factor :: fl
  replicas :: int

datatype ring_error = ErrEmpty

definition NewHashring :: "int \<Rightarrow> fl \<Rightarrow> hring" where
  "NewHashring reps fct =
     (let reps = (if reps \<le> 0 then 128 else reps);
          fct = (if fct \<le> Fin 1 then Fin (5 / 4) else fct)
      in \<lparr>byName = [], hnodes = [], vnodes = [], total = 0, factor = fct, replicas = reps\<rparr>)"

section \<open>Membership\<close>

definition bytes_of :: "string \<Rightarrow> byte list" where
  "bytes_of s = map (\<lambda>c. of_nat (of_char c)) s"

definition replica_key :: "byte list \<Rightarrow> nat \<Rightarrow> byte list" where
  "replica_key name i = name @ bytes_of ''#'' @ bytes_of (itoa i)"

definition new_vnodes :: "hring \<Rightarrow> byte list \<Rightarrow> int \<Rightarrow> vnode list" where
  "new_vnodes r name idx = map (\<lambda>i. \<lparr>vn_hash = Hash (replica_key name i), vn_idx = idx\<rparr>) [0..<nat (replicas r)]"

definition Add :: "(vnode list \<Rightarrow> vnode list) \<Rightarrow> byte list \<Rightarrow> hring \<Rightarrow> hring" where
  "Add srt name r =
     (if map_of (byName r) name \<noteq> None then r
      else
        let r = r\<lparr>hnodes := hnodes r @ [\<lparr>hn_name = name, hn_load = 0\<rparr>]\<rparr>;
            r = r\<lparr>byName := AList.update name (length (hnodes r) - 1) (byName r)\<rparr>;
            idx = wrap32 (int (length (hnodes r)) - 1);
            r = r\<lparr>vnodes := vnodes r @ new_vnodes r name idx\<rparr>
        in r\<lparr>vnodes := srt (vnodes r)\<rparr>)"

definition Members :: "hring \<Rightarrow> byte list list" where
  "Members r = map hn_name (hnodes r)"

section \<open>Placement\<close>

text \<open>The binary search of \<open>sort.Search\<close>: the smallest index in \<open>[i, j)\<close> that satisfies a monotone test.\<close>

function search_loop :: "(nat \<Rightarrow> bool) \<Rightarrow> nat \<Rightarrow> nat \<Rightarrow> nat" where
  "search_loop f i j =
     (if i < j then
        (let h = (i + j) div 2 in if \<not> f h then search_loop f (h + 1) j else search_loop f i h)
      else i)"
  by auto
termination by (relation "measure (\<lambda>(f, i, j). j - i)") auto

declare search_loop.simps [simp del]

definition go_search :: "nat \<Rightarrow> (nat \<Rightarrow> bool) \<Rightarrow> nat" where
  "go_search n f = search_loop f 0 n"

definition capacityLocked :: "(fl \<Rightarrow> int) \<Rightarrow> hring \<Rightarrow> int" where
  "capacityLocked impl r =
     (let avg = fdiv F64 (f_of_int F64 (wrap64 (total r + 1))) (f_of_int F64 (int (length (hnodes r))));
          c = wrap64 (f_to_i64 impl (fmul F64 avg (factor r)) + 1)
      in if c < 1 then 1 else c)"

definition charge :: "nat \<Rightarrow> hring \<Rightarrow> hring" where
  "charge i r =
     (let n = hnodes r ! i
      in r\<lparr>hnodes := (hnodes r)[i := n\<lparr>hn_load := wrap64 (hn_load n + 1)\<rparr>], total := wrap64 (total r + 1)\<rparr>)"

definition discharge :: "nat \<Rightarrow> hring \<Rightarrow> hring" where
  "discharge i r =
     (let n = hnodes r ! i
      in r\<lparr>hnodes := (hnodes r)[i := n\<lparr>hn_load := wrap64 (hn_load n - 1)\<rparr>], total := wrap64 (total r - 1)\<rparr>)"

definition vnode_at :: "hring \<Rightarrow> nat \<Rightarrow> nat" where
  "vnode_at r i = nat (vn_idx (vnodes r ! (i mod length (vnodes r))))"

definition start_index :: "hring \<Rightarrow> u64 \<Rightarrow> nat" where
  "start_index r h = go_search (length (vnodes r)) (\<lambda>i. h \<le> vn_hash (vnodes r ! i))"

fun pick_walk :: "hring \<Rightarrow> int \<Rightarrow> nat \<Rightarrow> nat list \<Rightarrow> nat option" where
  "pick_walk r cap start [] = None"
| "pick_walk r cap start (i # is) =
     (let n = vnode_at r (start + i)
      in if hn_load (hnodes r ! n) < cap then Some n else pick_walk r cap start is)"

definition Pick :: "(fl \<Rightarrow> int) \<Rightarrow> byte list \<Rightarrow> hring \<Rightarrow> (ring_error + byte list) \<times> hring" where
  "Pick impl key r =
     (if length (hnodes r) = 0 then (Inl ErrEmpty, r)
      else if length (hnodes r) = 1 then (Inr (hn_name (hnodes r ! 0)), charge 0 r)
      else
        let cap = capacityLocked impl r;
            start = start_index r (Hash key)
        in case pick_walk r cap start [0..<length (vnodes r)] of
             Some n \<Rightarrow> (Inr (hn_name (hnodes r ! n)), charge n r)
           | None \<Rightarrow> let n = vnode_at r start in (Inr (hn_name (hnodes r ! n)), charge n r))"

definition Done :: "byte list \<Rightarrow> hring \<Rightarrow> hring" where
  "Done name r = (case map_of (byName r) name of None \<Rightarrow> r | Some i \<Rightarrow> discharge i r)"

definition Loads :: "hring \<Rightarrow> (byte list \<times> int) list" where
  "Loads r = fold (\<lambda>n out. AList.update (hn_name n) (hn_load n) out) (hnodes r) []"

section \<open>The search\<close>

lemma search_loop_spec:
  assumes "i \<le> j" and "\<And>a b. a \<le> b \<Longrightarrow> f a \<Longrightarrow> f b"
    and "\<And>a. a < i \<Longrightarrow> \<not> f a" and "j < n \<Longrightarrow> f j"
  shows "search_loop f i j \<le> j \<and> (\<forall>a < search_loop f i j. \<not> f a) \<and> (search_loop f i j < n \<longrightarrow> f (search_loop f i j))"
  using assms
proof (induction f i j rule: search_loop.induct)
  case (1 f i j)
  let ?h = "(i + j) div 2"
  show ?case
  proof (cases "i < j")
    case False
    then have "search_loop f i j = i" by (subst search_loop.simps) simp
    moreover have "i = j" using False 1(3) by simp
    ultimately show ?thesis using 1(5,6) by simp
  next
    case lt: True
    show ?thesis
    proof (cases "f ?h")
      case True
      then have "search_loop f i j = search_loop f i ?h" using lt by (subst search_loop.simps) simp
      moreover have "search_loop f i ?h \<le> ?h \<and> (\<forall>a < search_loop f i ?h. \<not> f a) \<and>
          (search_loop f i ?h < n \<longrightarrow> f (search_loop f i ?h))"
        by (rule 1(2)[OF lt refl]) (use True lt 1(4,5) in auto)
      ultimately show ?thesis using lt by auto
    next
      case False
      then have eq: "search_loop f i j = search_loop f (?h + 1) j" using lt by (subst search_loop.simps) simp
      have "\<not> f a" if "a < ?h + 1" for a using that False 1(4)[of a ?h] by (auto simp: less_Suc_eq_le)
      then have "search_loop f (?h + 1) j \<le> j \<and> (\<forall>a < search_loop f (?h + 1) j. \<not> f a) \<and>
          (search_loop f (?h + 1) j < n \<longrightarrow> f (search_loop f (?h + 1) j))"
        by (intro 1(1)[OF lt refl]) (use False lt 1(4,6) in auto)
      then show ?thesis using eq by simp
    qed
  qed
qed

lemma go_search_spec:
  assumes "\<And>a b. a \<le> b \<Longrightarrow> f a \<Longrightarrow> f b"
  shows "go_search n f \<le> n" and "\<And>a. a < go_search n f \<Longrightarrow> \<not> f a"
    and "go_search n f < n \<Longrightarrow> f (go_search n f)"
  using search_loop_spec[of 0 n f n] assms by (auto simp: go_search_def)

section \<open>The invariant\<close>

definition is_sort :: "(vnode list \<Rightarrow> vnode list) \<Rightarrow> bool" where
  "is_sort srt \<longleftrightarrow> (\<forall>xs. mset (srt xs) = mset xs \<and> sorted (map vn_hash (srt xs)))"

definition names_ok :: "hring \<Rightarrow> bool" where
  "names_ok r \<longleftrightarrow> distinct (map hn_name (hnodes r)) \<and>
     (\<forall>name i. map_of (byName r) name = Some i \<longleftrightarrow> i < length (hnodes r) \<and> hn_name (hnodes r ! i) = name)"

definition vnodes_ok :: "hring \<Rightarrow> bool" where
  "vnodes_ok r \<longleftrightarrow> sorted (map vn_hash (vnodes r)) \<and>
     (\<forall>v \<in> set (vnodes r). 0 \<le> vn_idx v \<and> vn_idx v < int (length (hnodes r))) \<and>
     (\<forall>i < length (hnodes r). \<exists>v \<in> set (vnodes r). vn_idx v = int i) \<and>
     0 < replicas r \<and> length (hnodes r) < 2 ^ 31"

definition loads_ok :: "hring \<Rightarrow> bool" where
  "loads_ok r \<longleftrightarrow> total r = sum_list (map hn_load (hnodes r)) \<and> (\<forall>n \<in> set (hnodes r). 0 \<le> hn_load n)"

definition hring_inv :: "hring \<Rightarrow> bool" where
  "hring_inv r \<longleftrightarrow> names_ok r \<and> vnodes_ok r \<and> loads_ok r"

lemma NewHashring_inv: "hring_inv (NewHashring reps fct)"
  by (simp add: hring_inv_def names_ok_def vnodes_ok_def loads_ok_def NewHashring_def Let_def)

lemma Add_new:
  assumes "map_of (byName r) name = None"
  shows "Add srt name r = r\<lparr>hnodes := hnodes r @ [\<lparr>hn_name = name, hn_load = 0\<rparr>],
    byName := AList.update name (length (hnodes r)) (byName r),
    vnodes := srt (vnodes r @ new_vnodes r name (wrap32 (int (length (hnodes r)))))\<rparr>"
  using assms by (simp add: Add_def Let_def new_vnodes_def)

lemma Add_inv:
  assumes inv: "hring_inv r" and srt: "is_sort srt" and len: "length (hnodes r) < 2 ^ 31 - 1"
  shows "hring_inv (Add srt name r)"
proof (cases "map_of (byName r) name")
  case (Some i)
  with inv show ?thesis by (simp add: Add_def)
next
  case None
  let ?n = "length (hnodes r)" and ?new = "new_vnodes r name (int (length (hnodes r)))"
  have idx: "wrap32 (int ?n) = int ?n" using len by (intro wrap32_id) auto
  have names: "names_ok r" and v: "vnodes_ok r" and l: "loads_ok r" using inv by (simp_all add: hring_inv_def)
  have fresh: "name \<notin> hn_name ` set (hnodes r)"
  proof
    assume "name \<in> hn_name ` set (hnodes r)"
    then obtain i where "i < ?n" "hn_name (hnodes r ! i) = name" by (auto simp: in_set_conv_nth)
    then have "map_of (byName r) name = Some i" using names unfolding names_ok_def by blast
    with None show False by simp
  qed
  have "names_ok (Add srt name r)"
    unfolding names_ok_def
  proof (intro conjI allI)
    show "distinct (map hn_name (hnodes (Add srt name r)))"
      using names fresh by (auto simp: names_ok_def Add_new[OF None])
    fix name' i
    have old: "map_of (byName r) name' = Some i \<longleftrightarrow> i < ?n \<and> hn_name (hnodes r ! i) = name'"
      using names by (simp add: names_ok_def)
    have "hn_name (hnodes r ! i) \<noteq> name" if "i < ?n" using fresh that by (metis image_eqI nth_mem)
    with old show "map_of (byName (Add srt name r)) name' = Some i \<longleftrightarrow>
        i < length (hnodes (Add srt name r)) \<and> hn_name (hnodes (Add srt name r) ! i) = name'"
      by (auto simp: Add_new[OF None] nth_append less_Suc_eq)
  qed
  moreover have perm: "set (srt (vnodes r @ ?new)) = set (vnodes r) \<union> set ?new"
    and sorted: "sorted (map vn_hash (srt (vnodes r @ ?new)))"
    using srt unfolding is_sort_def by (metis mset_eq_setD set_append) (use srt in \<open>simp add: is_sort_def\<close>)
  have new: "vn_idx v = int ?n" if "v \<in> set ?new" for v using that by (auto simp: new_vnodes_def)
  have "?new \<noteq> []" using v by (simp add: new_vnodes_def vnodes_ok_def)
  then obtain w where w: "w \<in> set ?new" by (cases ?new) auto
  have "\<exists>v \<in> set (vnodes r) \<union> set ?new. vn_idx v = int i" if "i < Suc ?n" for i
  proof (cases "i = ?n")
    case True
    with w new[OF w] show ?thesis by blast
  next
    case False
    then show ?thesis using v that by (auto simp: vnodes_ok_def less_Suc_eq)
  qed
  then have "vnodes_ok (Add srt name r)"
    using v sorted perm new len by (fastforce simp: vnodes_ok_def Add_new[OF None] idx)
  moreover have "loads_ok (Add srt name r)" using l by (auto simp: loads_ok_def Add_new[OF None])
  ultimately show ?thesis by (simp add: hring_inv_def)
qed

lemma sum_list_update_nth:
  "i < length xs \<Longrightarrow> sum_list (map f (xs[i := x])) = sum_list (map f xs) - f (xs ! i) + (f x :: int)"
  by (induction xs arbitrary: i) (auto split: nat.splits)

lemma load_le_total:
  assumes "loads_ok r" and "i < length (hnodes r)"
  shows "0 \<le> hn_load (hnodes r ! i)" and "hn_load (hnodes r ! i) \<le> total r"
proof -
  show nn: "0 \<le> hn_load (hnodes r ! i)" using assms by (simp add: loads_ok_def)
  have "hn_load (hnodes r ! i) \<in> set (map hn_load (hnodes r))" using assms(2) by simp
  moreover have "\<forall>x \<in> set (map hn_load (hnodes r)). 0 \<le> x" using assms(1) by (auto simp: loads_ok_def)
  ultimately have "hn_load (hnodes r ! i) \<le> sum_list (map hn_load (hnodes r))"
    by (intro member_le_sum_list) auto
  then show "hn_load (hnodes r ! i) \<le> total r" using assms(1) by (simp add: loads_ok_def)
qed

text \<open>A charge and a discharge of node \<open>i\<close>, \<open>d\<close> being \<open>1\<close> or \<open>- 1\<close>.\<close>

definition add_load :: "int \<Rightarrow> nat \<Rightarrow> hring \<Rightarrow> hring" where
  "add_load d i r = r\<lparr>hnodes := (hnodes r)[i := (hnodes r ! i)\<lparr>hn_load := hn_load (hnodes r ! i) + d\<rparr>], total := total r + d\<rparr>"

lemma charge_add:
  assumes "loads_ok r" and "i < length (hnodes r)" and "total r < 2 ^ 62"
  shows "charge i r = add_load 1 i r"
proof -
  have "wrap64 (hn_load (hnodes r ! i) + 1) = hn_load (hnodes r ! i) + 1" "wrap64 (total r + 1) = total r + 1"
    using load_le_total[OF assms(1,2)] assms(3) by (auto intro!: wrap64_id)
  then show ?thesis by (simp add: charge_def add_load_def Let_def)
qed

lemma discharge_add:
  assumes "loads_ok r" and "i < length (hnodes r)" and "total r < 2 ^ 62"
  shows "discharge i r = add_load (- 1) i r"
proof -
  have "wrap64 (hn_load (hnodes r ! i) - 1) = hn_load (hnodes r ! i) - 1" "wrap64 (total r - 1) = total r - 1"
    using load_le_total[OF assms(1,2)] assms(3) by (auto intro!: wrap64_id)
  then show ?thesis by (simp add: discharge_def add_load_def Let_def)
qed

lemma add_load_inv:
  assumes inv: "hring_inv r" and i: "i < length (hnodes r)" and nn: "0 \<le> hn_load (hnodes r ! i) + d"
  shows "hring_inv (add_load d i r)"
proof -
  have names: "map hn_name ((hnodes r)[i := (hnodes r ! i)\<lparr>hn_load := l\<rparr>]) = map hn_name (hnodes r)" for l
    using i by (simp add: map_update) (metis length_map list_update_id nth_map)
  have nth: "hn_name ((hnodes r)[i := (hnodes r ! i)\<lparr>hn_load := l\<rparr>] ! j) = hn_name (hnodes r ! j)" if "j < length (hnodes r)" for l j
    using i that by (simp add: nth_list_update)
  have "names_ok (add_load d i r)"
    using inv names nth unfolding hring_inv_def names_ok_def add_load_def by auto
  moreover have "vnodes_ok (add_load d i r)"
    using inv by (simp add: hring_inv_def vnodes_ok_def add_load_def)
  moreover have "loads_ok (add_load d i r)"
    using inv i nn by (auto simp: hring_inv_def loads_ok_def add_load_def sum_list_update_nth dest!: set_update_subset_insert[THEN subsetD])
  ultimately show ?thesis by (simp add: hring_inv_def)
qed

section \<open>The capacity of a node\<close>

text \<open>The settings under which the float arithmetic stays in range.\<close>

definition sane :: "hring \<Rightarrow> bool" where
  "sane r \<longleftrightarrow> (\<exists>q. factor r = Fin q \<and> 1 \<le> q \<and> q \<le> 2 ^ 9) \<and> total r < 2 ^ 52"

lemma finite_le: "x \<noteq> NaN \<Longrightarrow> Fin a \<le> x \<Longrightarrow> x \<le> Fin b \<Longrightarrow> \<exists>r. x = Fin r \<and> a \<le> r \<and> r \<le> b"
  by (cases x) auto

lemma fround_le_int: "std_fmt f \<Longrightarrow> \<bar>k\<bar> < 2 ^ prec f \<Longrightarrow> q \<le> of_int k \<Longrightarrow> fround f q \<le> Fin (of_int k)"
  using fround_mono[of q "of_int k" f] fround_int[of f k] by simp

text \<open>
  The float result lies between the average load rounded down and the product of the factor and the
  average rounded up.
\<close>

lemma capacity_range:
  assumes sane: "sane r" and T: "0 \<le> total r" and n: "hnodes r \<noteq> []" and len: "length (hnodes r) < 2 ^ 31"
    and q: "factor r = Fin q" and A: "total r + 1 \<le> A * int (length (hnodes r))" "A \<le> 2 ^ 52"
    and M: "q * of_int A \<le> of_int M" "M < 2 ^ 62"
  shows "total r div int (length (hnodes r)) < capacityLocked impl r"
    and "M < 2 ^ 53 \<Longrightarrow> capacityLocked impl r \<le> M + 1"
proof -
  let ?n = "int (length (hnodes r))" and ?T = "total r + 1"
  let ?k = "total r div int (length (hnodes r))"
  have n1: "1 \<le> ?n" using n by (cases "hnodes r") auto
  have T1: "?T \<le> 2 ^ 52" and q1: "1 \<le> q" "q \<le> 2 ^ 9" using sane q by (auto simp: sane_def)
  have fT: "f_of_int F64 (wrap64 ?T) = Fin (of_int ?T)"
    using T T1 f_of_int_exact[of F64 ?T] wrap64_id[of ?T] by (simp add: fmt_fields del: of_int_add)
  have fn: "f_of_int F64 ?n = Fin (of_int ?n)" using len n1 n by (intro f_of_int_exact) (auto simp: fmt_fields)
  let ?avg = "(of_int ?T :: rat) / of_int ?n"
  have npos: "(0::rat) < of_int ?n" using n by simp
  have "0 \<le> ?k" by (rule div_int_pos_iff[THEN iffD2]) (use T in simp)
  have "?k * ?n = total r - total r mod ?n" by (rule minus_mod_eq_div_mult[symmetric])
  also have "\<dots> \<le> total r" using n1 pos_mod_sign[of ?n "total r"] by linarith
  finally have kn: "?k * ?n \<le> total r" .
  have "?k * 1 \<le> ?k * ?n" using \<open>0 \<le> ?k\<close> n1 by (rule mult_left_mono[rotated])
  with kn \<open>0 \<le> ?k\<close> have k0: "0 \<le> ?k" "?k \<le> total r" by simp_all
  from kn have "?k * ?n \<le> ?T" by simp
  then have "(of_int (?k * ?n) :: rat) \<le> of_int ?T" by (simp only: of_int_le_iff)
  then have lo: "of_int ?k \<le> ?avg" using npos by (simp add: pos_le_divide_eq)
  have "(of_int ?T :: rat) \<le> of_int (A * ?n)" using A(1) by (simp only: of_int_le_iff)
  then have hi: "?avg \<le> of_int A" using npos by (simp add: pos_divide_le_eq)
  have A0: "0 \<le> A"
  proof (rule ccontr)
    assume "\<not> 0 \<le> A"
    then have "A * ?n \<le> 0" using n1 by (simp add: mult_le_0_iff)
    with A(1) T show False by simp
  qed
  have "Fin (of_int ?k) \<le> fround F64 ?avg" by (rule fround_ge_int) (use k0 T1 lo in \<open>auto simp: fmt_fields\<close>)
  moreover have "fround F64 ?avg \<le> Fin (of_int A)" by (rule fround_le_int) (use A A0 hi in \<open>auto simp: fmt_fields\<close>)
  ultimately obtain a where a: "fround F64 ?avg = Fin a" "of_int ?k \<le> a" "a \<le> of_int A"
    using finite_le[of "fround F64 ?avg"] by auto
  have a0: "0 \<le> a" using a(2) k0 by (metis of_int_0_le_iff order_trans)
  have "a * 1 \<le> a * q" using a0 q1 by (intro mult_left_mono) auto
  then have lo2: "of_int ?k \<le> a * q" using a(2) by simp
  have "q * a \<le> q * of_int A" using a(3) q1 by (intro mult_left_mono) auto
  then have hi2: "a * q \<le> of_int M" using M(1) by (simp add: mult.commute)
  have M0: "0 \<le> M" using lo2 hi2 k0 by (metis of_int_0_le_iff of_int_le_iff order_trans)
  have "Fin (of_int ?k) \<le> fround F64 (a * q)" by (rule fround_ge_int) (use k0 T1 lo2 in \<open>auto simp: fmt_fields\<close>)
  moreover have "fround F64 (a * q) \<le> f_of_int F64 M"
    unfolding f_of_int_def by (rule fround_mono[OF hi2]) simp
  moreover obtain m where m: "f_of_int F64 M = Fin m" "m \<le> 2 ^ 62"
    using f_of_int_bounded[of F64 M 62] M(2) M0 by (auto simp: fmt_fields)
  ultimately obtain p where p: "fround F64 (a * q) = Fin p" "of_int ?k \<le> p" "p \<le> m"
    using finite_le[of "fround F64 (a * q)" "of_int ?k" m] by auto
  have fl: "?k \<le> \<lfloor>p\<rfloor>" using p(2) by (simp add: le_floor_iff)
  have "\<lfloor>p\<rfloor> \<le> 2 ^ 62" using p(3) m(2) floor_mono[of p "2 ^ 62"] by simp
  moreover have "0 \<le> \<lfloor>p\<rfloor>" using fl k0(1) by (rule order_trans[rotated])
  ultimately have small: "in_i64 \<lfloor>p\<rfloor>" "in_i64 (\<lfloor>p\<rfloor> + 1)"
    using in_i64_small[of "\<lfloor>p\<rfloor>"] by blast+
  have p0: "0 \<le> p" using p(2) k0 by (metis of_int_0_le_iff order_trans)
  have "fdiv F64 (f_of_int F64 (wrap64 ?T)) (f_of_int F64 ?n) = Fin a"
    unfolding fT fn using npos a(1) by simp
  then have cap: "capacityLocked impl r = \<lfloor>p\<rfloor> + 1"
    using p(1) p0 small wrap64_id[OF small(2)] fl k0 by (simp add: capacityLocked_def q f_to_i64_def Let_def)
  with fl show "?k < capacityLocked impl r" by simp
  show "capacityLocked impl r \<le> M + 1" if "M < 2 ^ 53"
  proof -
    have "m = of_int M" using m(1) M0 that f_of_int_exact[of F64 M] by (simp add: fmt_fields)
    then have "\<lfloor>p\<rfloor> \<le> M" using p(3) by (simp add: floor_le_iff le_less_trans)
    with cap show ?thesis by simp
  qed
qed

text \<open>The capacities always exceed the load, so some node has room: the comment above the walk is right.\<close>

lemma capacity_gt_average:
  assumes sane: "sane r" and T: "0 \<le> total r" and n: "hnodes r \<noteq> []" and len: "length (hnodes r) < 2 ^ 31"
  shows "total r div int (length (hnodes r)) < capacityLocked impl r"
proof -
  from sane obtain q where q: "factor r = Fin q" "1 \<le> q" "q \<le> 2 ^ 9" and T': "total r + 1 \<le> 2 ^ 52"
    by (auto simp: sane_def)
  let ?A = "total r + 1"
  have "?A * 1 \<le> ?A * int (length (hnodes r))" using T n by (intro mult_left_mono) (auto simp: Suc_leI)
  then have A: "?A \<le> ?A * int (length (hnodes r))" by simp
  have "q * of_int ?A \<le> 2 ^ 9 * of_int ?A" using q(3) T by (intro mult_right_mono) auto
  then have "q * of_int ?A \<le> of_int (2 ^ 9 * ?A)" by simp
  moreover have "2 ^ 9 * ?A < 2 ^ 62" using T' by simp
  ultimately show ?thesis using capacity_range(1)[OF sane T n len q(1) A T'] by blast
qed

lemma sum_ge_const: "(\<And>x. x \<in> set xs \<Longrightarrow> (c::int) \<le> f x) \<Longrightarrow> int (length xs) * c \<le> sum_list (map f xs)"
  by (induction xs) (auto simp: algebra_simps add_mono)

lemma room_somewhere:
  assumes inv: "hring_inv r" and sane: "sane r" and n: "hnodes r \<noteq> []"
  shows "\<exists>i < length (hnodes r). hn_load (hnodes r ! i) < capacityLocked impl r"
proof (rule ccontr)
  assume full: "\<not> ?thesis"
  let ?n = "int (length (hnodes r))" and ?c = "capacityLocked impl r"
  have T: "0 \<le> total r" using inv by (auto simp: hring_inv_def loads_ok_def intro!: sum_list_nonneg)
  have "?c \<le> hn_load x" if "x \<in> set (hnodes r)" for x using full that by (metis in_set_conv_nth not_less)
  then have "?n * ?c \<le> total r" using sum_ge_const[of "hnodes r" ?c hn_load] inv by (simp add: hring_inv_def loads_ok_def)
  moreover have "total r div ?n + 1 \<le> ?c"
    using capacity_gt_average[OF sane T n, of impl] inv by (simp add: hring_inv_def vnodes_ok_def)
  then have "?n * (total r div ?n + 1) \<le> ?n * ?c" by (intro mult_left_mono) auto
  moreover have "total r < ?n * (total r div ?n + 1)"
  proof -
    have "total r mod ?n < ?n" by (rule pos_mod_bound) (use n in simp)
    moreover have "?n * (total r div ?n) + total r mod ?n = total r" by (rule mult_div_mod_eq)
    moreover have "?n * (total r div ?n + 1) = ?n * (total r div ?n) + ?n" by (simp add: algebra_simps)
    ultimately show ?thesis by linarith
  qed
  ultimately show False by linarith
qed

section \<open>The walk\<close>

lemma pick_walk_Some:
  assumes "pick_walk r cap start is = Some n"
  shows "\<exists>pre i post. is = pre @ i # post \<and> n = vnode_at r (start + i) \<and> hn_load (hnodes r ! n) < cap \<and>
    (\<forall>j \<in> set pre. cap \<le> hn_load (hnodes r ! vnode_at r (start + j)))"
  using assms
proof (induction "is")
  case (Cons i "is")
  show ?case
  proof (cases "hn_load (hnodes r ! vnode_at r (start + i)) < cap")
    case True
    with Cons.prems show ?thesis by (intro exI[of _ "[]"] exI[of _ i] exI[of _ "is"]) simp
  next
    case False
    with Cons obtain pre j post where "is = pre @ j # post" "n = vnode_at r (start + j)" "hn_load (hnodes r ! n) < cap"
      "\<forall>j \<in> set pre. cap \<le> hn_load (hnodes r ! vnode_at r (start + j))" by auto
    with False show ?thesis by (intro exI[of _ "i # pre"] exI[of _ j] exI[of _ post]) auto
  qed
qed simp

lemma pick_walk_None: "pick_walk r cap start is = None \<longleftrightarrow>
    (\<forall>i \<in> set is. cap \<le> hn_load (hnodes r ! vnode_at r (start + i)))"
  by (induction "is") (auto simp: not_less Let_def split: if_splits)

lemma vnode_at_less:
  assumes "hring_inv r" and "hnodes r \<noteq> []"
  shows "vnodes r \<noteq> []" and "vnode_at r i < length (hnodes r)"
proof -
  show ne: "vnodes r \<noteq> []" using assms by (auto simp: hring_inv_def vnodes_ok_def)
  then have "vnodes r ! (i mod length (vnodes r)) \<in> set (vnodes r)" by simp
  then show "vnode_at r i < length (hnodes r)"
    using assms(1) by (auto simp: hring_inv_def vnodes_ok_def vnode_at_def nat_less_iff)
qed

lemma turn_index:
  assumes "a < (n::nat)"
  shows "(s + (a + n - s mod n) mod n) mod n = a"
proof -
  have le: "s mod n \<le> n" using assms by (intro less_imp_le mod_less_divisor) auto
  have "(s + (a + n - s mod n) mod n) mod n = (s mod n + (a + n - s mod n)) mod n"
    by (metis mod_add_left_eq mod_add_right_eq)
  also have "s mod n + (a + n - s mod n) = a + n" using le by linarith
  finally show ?thesis using assms by simp
qed

text \<open>A full turn from any start passes every node.\<close>

lemma full_turn:
  assumes inv: "hring_inv r" and i: "i < length (hnodes r)"
  shows "\<exists>j < length (vnodes r). vnode_at r (start + j) = i"
proof -
  obtain v where "v \<in> set (vnodes r)" "vn_idx v = int i" using inv i by (auto simp: hring_inv_def vnodes_ok_def)
  then obtain a where a: "a < length (vnodes r)" "vn_idx (vnodes r ! a) = int i" by (auto simp: in_set_conv_nth)
  let ?n = "length (vnodes r)"
  let ?j = "(a + ?n - start mod ?n) mod ?n"
  have "(start + ?j) mod ?n = a" by (rule turn_index[OF a(1)])
  then have "vnode_at r (start + ?j) = i" using a(2) by (simp add: vnode_at_def)
  moreover have "?j < ?n" using a(1) by (intro mod_less_divisor) auto
  ultimately show ?thesis by blast
qed

section \<open>Picking a node\<close>

text \<open>The node \<open>Pick\<close> charges, and the clockwise walk that finds it.\<close>

definition clockwise :: "hring \<Rightarrow> u64 \<Rightarrow> nat \<Rightarrow> nat" where
  "clockwise r h i = vnode_at r (start_index r h + i)"

lemma Pick_walks:
  assumes inv: "hring_inv r" and sane: "sane r" and n: "hnodes r \<noteq> []"
  shows "\<exists>i \<le> length (vnodes r). \<exists>m < length (hnodes r).
    Pick impl key r = (Inr (hn_name (hnodes r ! m)), charge m r) \<and> m = clockwise r (Hash key) i \<and>
    hn_load (hnodes r ! m) < capacityLocked impl r \<and>
    (\<forall>j < i. capacityLocked impl r \<le> hn_load (hnodes r ! clockwise r (Hash key) j))"
proof (cases "length (hnodes r) = 1")
  case True
  obtain m where m: "m < length (hnodes r)" "hn_load (hnodes r ! m) < capacityLocked impl r"
    using room_somewhere[OF inv sane n] by blast
  then have "m = 0" using True by simp
  moreover have "clockwise r (Hash key) 0 = 0" using vnode_at_less(2)[OF inv n, of "start_index r (Hash key)"] True
    by (simp add: clockwise_def)
  ultimately show ?thesis using m True by (intro exI[of _ 0]) (simp add: Pick_def)
next
  case False
  let ?c = "capacityLocked impl r" and ?s = "start_index r (Hash key)"
  have multi: "length (hnodes r) \<noteq> 0" "length (hnodes r) \<noteq> Suc 0" using False n by simp_all
  obtain m where m: "m < length (hnodes r)" "hn_load (hnodes r ! m) < ?c" using room_somewhere[OF inv sane n] by blast
  obtain j where "j < length (vnodes r)" "vnode_at r (?s + j) = m" using full_turn[OF inv m(1)] by blast
  with m(2) have "pick_walk r ?c ?s [0..<length (vnodes r)] \<noteq> None" unfolding pick_walk_None by force
  then obtain p where p: "pick_walk r ?c ?s [0..<length (vnodes r)] = Some p" by blast
  from pick_walk_Some[OF p] obtain pre i post where
    split: "[0..<length (vnodes r)] = pre @ i # post" and i: "p = vnode_at r (?s + i)" "hn_load (hnodes r ! p) < ?c"
    and before: "\<forall>j \<in> set pre. ?c \<le> hn_load (hnodes r ! vnode_at r (?s + j))" by blast
  have len: "length pre < length (vnodes r)" using arg_cong[OF split, of length] by simp
  have "i = length pre" using arg_cong[OF split, of "\<lambda>xs. xs ! length pre"] len by simp
  moreover have "set pre = {0..<i}"
    using arg_cong[OF split, of "take (length pre)"] len \<open>i = length pre\<close> by (metis append_eq_conv_conj atLeastLessThan_upt length_append length_upt minus_nat.diff_0 take_upt add_0 less_imp_le)
  ultimately show ?thesis
    using p i before len multi vnode_at_less(2)[OF inv n]
    by (intro exI[of _ i]) (auto simp: Pick_def Let_def clockwise_def)
qed

lemma Pick_inv:
  assumes inv: "hring_inv r" and sane: "sane r"
  shows "hring_inv (snd (Pick impl key r))"
proof (cases "hnodes r = []")
  case True
  with inv show ?thesis by (simp add: Pick_def)
next
  case False
  from Pick_walks[OF inv sane False, of impl key] obtain m where
    m: "m < length (hnodes r)" "snd (Pick impl key r) = charge m r" by auto
  have l: "loads_ok r" using inv by (simp add: hring_inv_def)
  have T: "total r < 2 ^ 62" using sane by (simp add: sane_def)
  show ?thesis using add_load_inv[OF inv m(1), of 1] load_le_total(1)[OF l m(1)]
    by (simp add: m(2) charge_add[OF l m(1) T])
qed

text \<open>Finishing the request undoes the charge.\<close>

lemma Done_Pick:
  assumes inv: "hring_inv r" and sane: "sane r" and n: "hnodes r \<noteq> []"
    and p: "Pick impl key r = (Inr name, r')"
  shows "Done name r' = r"
proof -
  from Pick_walks[OF inv sane n, of impl key] p obtain m where
    m: "m < length (hnodes r)" "name = hn_name (hnodes r ! m)" "r' = charge m r" by auto
  have l: "loads_ok r" using inv by (simp add: hring_inv_def)
  have T: "total r < 2 ^ 62" "total r + 1 < 2 ^ 62" using sane by (simp_all add: sane_def)
  have r': "r' = add_load 1 m r" using charge_add[OF l m(1) T(1)] m(3) by simp
  have l': "loads_ok r'"
    using add_load_inv[OF inv m(1), of 1] load_le_total(1)[OF l m(1)] r' by (simp add: hring_inv_def)
  have "map_of (byName r) name = Some m" using inv m(1,2) by (simp add: hring_inv_def names_ok_def)
  then have "map_of (byName r') name = Some m" by (simp add: r' add_load_def)
  moreover have "discharge m r' = add_load (- 1) m r'"
    by (rule discharge_add[OF l']) (use m(1) T(2) in \<open>simp_all add: r' add_load_def\<close>)
  moreover have "add_load (- 1) m r' = r" using m(1) by (simp add: r' add_load_def)
  ultimately show ?thesis by (simp add: Done_def)
qed

section \<open>Homes, and how few of them a new node moves\<close>

definition home_vnode :: "hring \<Rightarrow> u64 \<Rightarrow> vnode" where
  "home_vnode r h = vnodes r ! (start_index r h mod length (vnodes r))"

definition home :: "hring \<Rightarrow> u64 \<Rightarrow> byte list" where
  "home r h = hn_name (hnodes r ! clockwise r h 0)"

lemma unat_minus: "unat ((x::u64) - h) = (if h \<le> x then unat x - unat h else unat x + 2 ^ 64 - unat h)"
  using unat_sub_if_size[of x h] by (simp add: word_le_nat_alt word_size)

lemma start_index_spec:
  assumes "sorted (map vn_hash (vnodes r))"
  shows "start_index r h \<le> length (vnodes r)"
    and "a < start_index r h \<Longrightarrow> vn_hash (vnodes r ! a) < h"
    and "start_index r h \<le> a \<Longrightarrow> a < length (vnodes r) \<Longrightarrow> h \<le> vn_hash (vnodes r ! a)"
proof -
  let ?n = "length (vnodes r)"
  let ?f = "\<lambda>i. ?n \<le> i \<or> h \<le> vn_hash (vnodes r ! i)"
  have mono: "?f b" if "a \<le> b" "?f a" for a b
    using that sorted_nth_mono[OF assms, of a b] by (cases "b < ?n") auto
  have same: "search_loop f i j = search_loop g i j" if "\<And>a. a < j \<Longrightarrow> f a = g a" for f g i j
    using that
  proof (induction f i j rule: search_loop.induct)
    case (1 f i j)
    show ?case
    proof (cases "i < j")
      case True
      have "f ((i + j) div 2) = g ((i + j) div 2)" using True 1(3) by auto
      moreover have "search_loop f ((i + j) div 2 + 1) j = search_loop g ((i + j) div 2 + 1) j" if "\<not> f ((i + j) div 2)"
        by (rule 1(1)[OF True refl]) (use that 1(3) in auto)
      moreover have "search_loop f i ((i + j) div 2) = search_loop g i ((i + j) div 2)" if "f ((i + j) div 2)"
        by (rule 1(2)[OF True refl]) (use that True 1(3) in auto)
      ultimately show ?thesis by (subst (1 2) search_loop.simps) (simp add: Let_def)
    next
      case False
      then show ?thesis by (subst (1 2) search_loop.simps) simp
    qed
  qed
  have eq: "start_index r h = go_search ?n ?f"
    unfolding start_index_def go_search_def by (rule same) auto
  show le: "start_index r h \<le> ?n" unfolding eq by (rule go_search_spec(1)[where f = ?f and n = ?n, OF mono])
  show "vn_hash (vnodes r ! a) < h" if "a < start_index r h"
  proof -
    have "a < go_search ?n ?f" using that eq by simp
    from go_search_spec(2)[where f = ?f and n = ?n, OF mono this]
    show ?thesis by (simp add: not_le)
  qed
  show "h \<le> vn_hash (vnodes r ! a)" if "start_index r h \<le> a" "a < ?n"
  proof -
    have "go_search ?n ?f < ?n" using that eq by simp
    from go_search_spec(3)[where f = ?f and n = ?n, OF mono this] have "?f (start_index r h)" using eq by simp
    then have "?f a" using mono that(1) by blast
    with that(2) show ?thesis by simp
  qed
qed

text \<open>The home of a hash is the virtual node at the least clockwise distance from it.\<close>

lemma home_nearest:
  assumes sorted: "sorted (map vn_hash (vnodes r))" and ne: "vnodes r \<noteq> []"
  shows "home_vnode r h \<in> set (vnodes r)" and "v \<in> set (vnodes r) \<Longrightarrow> vn_hash (home_vnode r h) - h \<le> vn_hash v - h"
proof -
  let ?s = "start_index r h" and ?n = "length (vnodes r)"
  note S = start_index_spec[OF sorted, where h = h]
  show "home_vnode r h \<in> set (vnodes r)" using ne by (simp add: home_vnode_def)
  assume "v \<in> set (vnodes r)"
  then obtain a where a: "a < ?n" "v = vnodes r ! a" by (auto simp: in_set_conv_nth)
  have mono: "vn_hash (vnodes r ! i) \<le> vn_hash (vnodes r ! a)" if "i \<le> a" for i
    using sorted_nth_mono[OF sorted that] a(1) that by simp
  have lt: "unat x < 2 ^ 64" for x :: u64 using unsigned_less[where ?'a = nat, of x] by simp
  show "vn_hash (home_vnode r h) - h \<le> vn_hash v - h"
  proof (cases "?s < ?n")
    case True
    then have hv: "home_vnode r h = vnodes r ! ?s" by (simp add: home_vnode_def)
    have up: "h \<le> vn_hash (vnodes r ! ?s)" using S(3)[of ?s] True by simp
    show ?thesis
    proof (cases "?s \<le> a")
      case True
      then have "h \<le> vn_hash v" using S(3) a by simp
      with up mono[OF True] show ?thesis unfolding hv a(2) by (simp add: word_le_nat_alt unat_minus)
    next
      case False
      then have "vn_hash v < h" using S(2)[of a] a by simp
      then have "\<not> h \<le> vn_hash v" by simp
      with up lt[of "vn_hash (vnodes r ! ?s)"] lt[of h] show ?thesis unfolding hv
        by (simp add: word_le_nat_alt unat_minus)
    qed
  next
    case False
    then have s: "?s = ?n" using S(1) by simp
    then have hv: "home_vnode r h = vnodes r ! 0" by (simp add: home_vnode_def)
    have "vn_hash v < h" "vn_hash (vnodes r ! 0) < h" using S(2)[of a] S(2)[of 0] a s ne by auto
    then have "\<not> h \<le> vn_hash v" "\<not> h \<le> vn_hash (vnodes r ! 0)" by simp_all
    with mono[of 0] lt[of h] show ?thesis unfolding hv a(2) by (simp add: word_le_nat_alt unat_minus)
  qed
qed

lemma home_idx: "home r h = hn_name (hnodes r ! nat (vn_idx (home_vnode r h)))"
  by (simp add: home_def clockwise_def vnode_at_def home_vnode_def)

text \<open>Adding a node moves a key only onto the new node.\<close>

lemma Add_moves_to_new:
  assumes inv: "hring_inv r" and srt: "is_sort srt" and ne: "hnodes r \<noteq> []" and len: "length (hnodes r) < 2 ^ 31 - 1"
    and dist: "distinct (map vn_hash (vnodes (Add srt name r)))"
  shows "home (Add srt name r) h = home r h \<or> home (Add srt name r) h = name"
proof (cases "map_of (byName r) name")
  case (Some i)
  then show ?thesis by (simp add: Add_def)
next
  case None
  let ?r = "Add srt name r" and ?n = "length (hnodes r)"
  have idx: "wrap32 (int ?n) = int ?n" using len by (intro wrap32_id) auto
  have inv': "hring_inv ?r" by (rule Add_inv[OF inv srt len])
  note V = vnode_at_less(1)[OF inv ne]
  have V': "vnodes ?r \<noteq> []" using vnode_at_less(1)[OF inv'] by (simp add: Add_new[OF None])
  have sets: "set (vnodes ?r) = set (vnodes r) \<union> set (new_vnodes r name (int ?n))"
  proof -
    have "vnodes ?r = srt (vnodes r @ new_vnodes r name (int ?n))" by (simp add: Add_new[OF None] idx)
    moreover have "mset (srt xs) = mset xs" for xs using srt by (simp add: is_sort_def)
    ultimately show ?thesis by (metis mset_eq_setD set_append)
  qed
  have sorted: "sorted (map vn_hash (vnodes r))" "sorted (map vn_hash (vnodes ?r))"
    using inv inv' by (simp_all add: hring_inv_def vnodes_ok_def)
  note old = home_nearest[OF sorted(1) V, where h = h] and new = home_nearest[OF sorted(2) V', where h = h]
  have idx_old: "0 \<le> vn_idx v \<and> vn_idx v < int ?n" if "v \<in> set (vnodes r)" for v
    using inv that by (simp add: hring_inv_def vnodes_ok_def)
  show ?thesis
  proof (cases "home_vnode ?r h \<in> set (vnodes r)")
    case True
    have "vn_hash (home_vnode r h) - h \<le> vn_hash (home_vnode ?r h) - h" by (rule old(2)[OF True])
    moreover have "vn_hash (home_vnode ?r h) - h \<le> vn_hash (home_vnode r h) - h" by (rule new(2)) (use old(1) sets in simp)
    ultimately have "vn_hash (home_vnode r h) - h = vn_hash (home_vnode ?r h) - h" by (rule antisym)
    then have "vn_hash (home_vnode r h) = vn_hash (home_vnode ?r h)" by (metis diff_add_cancel)
    moreover have "home_vnode r h \<in> set (vnodes ?r)" "home_vnode ?r h \<in> set (vnodes ?r)" using old(1) new(1) sets by auto
    ultimately have "home_vnode r h = home_vnode ?r h" using dist by (metis distinct_map inj_onD)
    then show ?thesis using idx_old[OF old(1)] by (simp add: home_idx Add_new[OF None] nth_append nat_less_iff)
  next
    case False
    then have "home_vnode ?r h \<in> set (new_vnodes r name (int ?n))" using new(1) sets by auto
    then have "vn_idx (home_vnode ?r h) = int ?n" by (auto simp: new_vnodes_def)
    then show ?thesis by (simp add: home_idx Add_new[OF None])
  qed
qed

end
