(* ===== verification/Belady_MIN.thy ===== *)
theory Belady_MIN
  imports Floats
begin

text \<open>
  \<^verbatim>\<open>internal/belady/min.go\<close>: the offline optimum. The standard library's \<open>container/heap\<close> is modelled as
  its source has it, as sift-up and sift-down on a list; the trace is a list of key hashes, an index is
  a natural number.
\<close>

section \<open>container/heap on furthestFirst\<close>

record hentry =
  he_key :: u64
  he_next :: nat

definition Less :: "hentry list \<Rightarrow> nat \<Rightarrow> nat \<Rightarrow> bool" where
  "Less h i j \<longleftrightarrow> he_next (h ! j) < he_next (h ! i)"

definition Swap :: "nat \<Rightarrow> nat \<Rightarrow> hentry list \<Rightarrow> hentry list" where
  "Swap i j h = h[i := h ! j, j := h ! i]"

function heap_up :: "hentry list \<Rightarrow> nat \<Rightarrow> hentry list" where
  "heap_up h j = (let i = (j - 1) div 2 in if i = j \<or> \<not> Less h j i then h else heap_up (Swap i j h) i)"
  by auto
termination by (relation "measure snd") auto

function heap_down :: "hentry list \<Rightarrow> nat \<Rightarrow> nat \<Rightarrow> hentry list" where
  "heap_down h i n =
     (let j1 = 2 * i + 1 in
      if n \<le> j1 then h
      else
        let j = (if j1 + 1 < n \<and> Less h (j1 + 1) j1 then j1 + 1 else j1)
        in if \<not> Less h j i then h else heap_down (Swap i j h) j n)"
  by auto
termination by (relation "measure (\<lambda>(h, i, n). n - i)") auto

declare heap_up.simps [simp del] heap_down.simps [simp del]

definition heap_push :: "hentry \<Rightarrow> hentry list \<Rightarrow> hentry list" where
  "heap_push e h = heap_up (h @ [e]) (length h)"

definition heap_pop :: "hentry list \<Rightarrow> hentry \<times> hentry list" where
  "heap_pop h =
     (let n = length h - 1;
          h = heap_down (Swap 0 n h) 0 n
      in (h ! n, take n h))"

lemma length_Swap [simp]: "length (Swap i j h) = length h"
  by (simp add: Swap_def)

lemma nth_Swap: "i < length h \<Longrightarrow> j < length h \<Longrightarrow> a < length h \<Longrightarrow>
    Swap i j h ! a = (if a = j then h ! i else if a = i then h ! j else h ! a)"
  by (auto simp: Swap_def nth_list_update)

lemma mset_Swap [simp]: "i < length h \<Longrightarrow> j < length h \<Longrightarrow> mset (Swap i j h) = mset h"
  unfolding Swap_def by (rule mset_swap)

section \<open>The simulation\<close>

text \<open>\<open>next[i]\<close> is the index of the next request for the same object, or the length of the trace.\<close>

definition next_step :: "u64 list \<Rightarrow> nat \<Rightarrow> nat list \<times> (u64 \<times> nat) list \<Rightarrow> nat list \<times> (u64 \<times> nat) list" where
  "next_step trace i st =
     (case st of (nxt, seen) \<Rightarrow>
        (case map_of seen (trace ! i) of
           Some j \<Rightarrow> nxt[i := j]
         | None \<Rightarrow> nxt[i := length trace],
         AList.update (trace ! i) i seen))"

definition next_uses :: "u64 list \<Rightarrow> nat list" where
  "next_uses trace = fst (fold (next_step trace) (rev [0..<length trace]) (replicate (length trace) 0, []))"

record min_state =
  resident :: "(u64 \<times> nat) list"
  furthest :: "hentry list"
  min_hits :: int

function evictFurthest :: "hentry list \<Rightarrow> (u64 \<times> nat) list \<Rightarrow> hentry list \<times> (u64 \<times> nat) list" where
  "evictFurthest h res =
     (if h = [] then (h, res)
      else case heap_pop h of (e, h') \<Rightarrow>
        if map_of res (he_key e) = Some (he_next e) then (h', AList.delete (he_key e) res)
        else evictFurthest h' res)"
  by auto
termination
  by (relation "measure (\<lambda>(h, res). length h)") (auto simp: heap_pop_def Let_def min_less_iff_disj)

declare evictFurthest.simps [simp del]

definition min_step :: "u64 list \<Rightarrow> nat list \<Rightarrow> int \<Rightarrow> int \<Rightarrow> nat \<Rightarrow> min_state \<Rightarrow> min_state" where
  "min_step trace nxt cap from i st =
     (let key = trace ! i;
          cached = (map_of (resident st) key \<noteq> None);
          st = (if cached then (if from \<le> int i then st\<lparr>min_hits := min_hits st + 1\<rparr> else st)
                else if cap \<le> int (length (resident st)) then
                  (case evictFurthest (furthest st) (resident st) of (h, res) \<Rightarrow> st\<lparr>furthest := h, resident := res\<rparr>)
                else st)
      in st\<lparr>resident := AList.update key (nxt ! i) (resident st),
            furthest := heap_push \<lparr>he_key = key, he_next = nxt ! i\<rparr> (furthest st)\<rparr>)"

definition min_run :: "u64 list \<Rightarrow> int \<Rightarrow> int \<Rightarrow> nat \<Rightarrow> min_state" where
  "min_run trace cap from n =
     fold (min_step trace (next_uses trace) cap from) [0..<n] \<lparr>resident = [], furthest = [], min_hits = 0\<rparr>"

definition MINHitRatioFrom :: "u64 list \<Rightarrow> int \<Rightarrow> int \<Rightarrow> fl" where
  "MINHitRatioFrom trace cap from =
     (if cap \<le> 0 \<or> length trace = 0 \<or> int (length trace) \<le> from then Fin 0
      else
        let from = (if from < 0 then 0 else from);
            hits = min_hits (min_run trace cap from (length trace))
        in fdiv F64 (f_of_int F64 hits) (f_of_int F64 (int (length trace) - from)))"

definition MINHitRatio :: "u64 list \<Rightarrow> int \<Rightarrow> fl" where
  "MINHitRatio trace cap = MINHitRatioFrom trace cap 0"

section \<open>The heap keeps its order\<close>

definition parent :: "nat \<Rightarrow> nat" where
  "parent i = (i - 1) div 2"

definition heap_le :: "hentry list \<Rightarrow> nat \<Rightarrow> bool" where
  "heap_le h i \<longleftrightarrow> he_next (h ! i) \<le> he_next (h ! parent i)"

definition is_heap :: "hentry list \<Rightarrow> nat \<Rightarrow> bool" where
  "is_heap h n \<longleftrightarrow> (\<forall>i. 0 < i \<and> i < n \<longrightarrow> heap_le h i)"

lemma parent_less: "0 < a \<Longrightarrow> parent a < a"
  unfolding parent_def by (rule le_less_trans[OF div_le_dividend]) simp

lemma parent_eq: "parent a = a \<longleftrightarrow> a = 0"
  using parent_less[of a] by (cases "a = 0") (auto simp: parent_def)

lemma heap_up_step: "heap_up h j = (if j = 0 \<or> \<not> Less h j (parent j) then h else heap_up (Swap (parent j) j h) (parent j))"
  unfolding heap_up.simps[of h j, folded parent_def] Let_def parent_eq ..

lemma heap_up_mset: "j < length h \<Longrightarrow> mset (heap_up h j) = mset h"
proof (induction j arbitrary: h rule: less_induct)
  case (less j)
  show ?case
  proof (cases "j = 0 \<or> \<not> Less h j (parent j)")
    case True
    then show ?thesis by (simp add: heap_up_step[of h j])
  next
    case False
    then have "parent j < j" using parent_less by simp
    then show ?thesis using less False by (simp add: heap_up_step[of h j])
  qed
qed

lemma heap_up_heap:
  assumes "j < length h"
    and "\<And>i. 0 < i \<Longrightarrow> i < length h \<Longrightarrow> i \<noteq> j \<Longrightarrow> heap_le h i"
    and "\<And>i. 0 < i \<Longrightarrow> i < length h \<Longrightarrow> parent i = j \<Longrightarrow> 0 < j \<Longrightarrow> he_next (h ! i) \<le> he_next (h ! parent j)"
  shows "is_heap (heap_up h j) (length h)"
  using assms
proof (induction j arbitrary: h rule: less_induct)
  case (less j)
  show ?case
  proof (cases "j = 0 \<or> \<not> Less h j (parent j)")
    case True
    then have up: "heap_up h j = h" by (simp add: heap_up_step[of h j])
    have "heap_le h j" if "0 < j" using True that by (auto simp: heap_le_def Less_def)
    with less.prems(2) show ?thesis unfolding up is_heap_def by metis
  next
    case False
    define i where "i = parent j"
    have j: "0 < j" "i < j" "i < length h" using False parent_less[of j] less.prems(1) by (simp_all add: i_def)
    let ?h = "Swap i j h"
    have nth: "?h ! a = (if a = j then h ! i else if a = i then h ! j else h ! a)" if "a < length h" for a
      using nth_Swap[of i h j a] that j less.prems(1) by simp
    have gt: "he_next (h ! i) < he_next (h ! j)" using False by (simp add: Less_def i_def)
    have "is_heap (heap_up ?h i) (length ?h)"
    proof (rule less.IH[OF j(2)])
      show "i < length ?h" using j by simp
    next
      fix a assume a: "0 < a" "a < length ?h" and ai: "a \<noteq> i"
      then have pa: "parent a < length h" using parent_less[OF a(1)] by simp
      show "heap_le ?h a"
      proof (cases "a = j")
        case True
        then show ?thesis using nth[of a] nth[of i] a j gt by (simp add: heap_le_def i_def[symmetric])
      next
        case aj: False
        then have old: "he_next (h ! a) \<le> he_next (h ! parent a)"
          using less.prems(2)[of a] a by (simp add: heap_le_def)
        have ha: "?h ! a = h ! a" using nth[of a] a ai aj by simp
        consider "parent a = j" | "parent a = i" "parent a \<noteq> j" | "parent a \<noteq> i" "parent a \<noteq> j" by blast
        then show ?thesis
        proof cases
          case 1
          have "he_next (h ! a) \<le> he_next (h ! parent j)" by (rule less.prems(3)) (use a j 1 in simp_all)
          then show ?thesis using 1 unfolding heap_le_def ha nth[OF pa] by (simp add: i_def)
        next
          case 2
          with old gt show ?thesis unfolding heap_le_def ha nth[OF pa] by simp
        next
          case 3
          with old show ?thesis unfolding heap_le_def ha nth[OF pa] by simp
        qed
      qed
    next
      fix a assume a: "0 < a" "a < length ?h" "parent a = i" and i0: "0 < i"
      have p: "parent i < length h" "parent i \<noteq> j" "parent i \<noteq> i" using parent_less[OF i0] j by simp_all
      then have pn: "?h ! parent i = h ! parent i" using nth[of "parent i"] by simp
      have "heap_le h i" using less.prems(2)[of i] i0 j by simp
      then have top: "he_next (h ! i) \<le> he_next (h ! parent i)" by (simp add: heap_le_def)
      have ne: "a \<noteq> i" using parent_less[OF a(1)] a(3) by simp
      show "he_next (?h ! a) \<le> he_next (?h ! parent i)"
      proof (cases "a = j")
        case True
        then show ?thesis using nth[of a] a top pn by simp
      next
        case aj: False
        then have "he_next (h ! a) \<le> he_next (h ! i)" using less.prems(2)[of a] a by (simp add: heap_le_def)
        then show ?thesis using nth[of a] a aj ne top pn by simp
      qed
    qed
    then show ?thesis using False by (simp add: heap_up_step[of h j] i_def)
  qed
qed

text \<open>Sifting down: the larger child, if it is larger than \<open>i\<close>, moves up.\<close>

definition top_child :: "hentry list \<Rightarrow> nat \<Rightarrow> nat \<Rightarrow> nat" where
  "top_child h i n = (if 2 * i + 2 < n \<and> Less h (2 * i + 2) (2 * i + 1) then 2 * i + 2 else 2 * i + 1)"

lemma heap_down_step:
  "heap_down h i n =
     (if n \<le> 2 * i + 1 \<or> \<not> Less h (top_child h i n) i then h
      else heap_down (Swap i (top_child h i n) h) (top_child h i n) n)"
  by (subst heap_down.simps) (simp add: Let_def top_child_def)

lemma parent_child: "0 < a \<Longrightarrow> parent a = i \<longleftrightarrow> a = 2 * i + 1 \<or> a = 2 * i + 2"
  unfolding parent_def by linarith

lemma top_child:
  assumes "2 * i + 1 < n"
  shows "parent (top_child h i n) = i" and "top_child h i n < n" and "i < top_child h i n"
    and "0 < a \<Longrightarrow> a < n \<Longrightarrow> parent a = i \<Longrightarrow> he_next (h ! a) \<le> he_next (h ! top_child h i n)"
  using assms by (auto simp: top_child_def parent_child Less_def)

lemma heap_down_mset: "n \<le> length h \<Longrightarrow> i < length h \<Longrightarrow> mset (heap_down h i n) = mset h \<and> length (heap_down h i n) = length h"
proof (induction "n - i" arbitrary: h i rule: less_induct)
  case less
  show ?case
  proof (cases "n \<le> 2 * i + 1 \<or> \<not> Less h (top_child h i n) i")
    case True
    then show ?thesis by (subst (1 2) heap_down_step) simp
  next
    case False
    then have c: "top_child h i n < n" "i < top_child h i n" using top_child(2,3)[of i n h] by auto
    from less.hyps[of "top_child h i n" "Swap i (top_child h i n) h"] c less.prems False
    show ?thesis by (subst (1 2) heap_down_step) simp
  qed
qed

text \<open>Cells from \<open>n\<close> on are left alone.\<close>

lemma heap_down_frame: "n \<le> length h \<Longrightarrow> i < n \<Longrightarrow> n \<le> a \<Longrightarrow> a < length h \<Longrightarrow> heap_down h i n ! a = h ! a"
proof (induction "n - i" arbitrary: h i rule: less_induct)
  case less
  show ?case
  proof (cases "n \<le> 2 * i + 1 \<or> \<not> Less h (top_child h i n) i")
    case True
    then show ?thesis by (subst heap_down_step) simp
  next
    case False
    then have c: "top_child h i n < n" "i < top_child h i n" using top_child(2,3)[of i n h] by auto
    from less.hyps[of "top_child h i n" "Swap i (top_child h i n) h"] c less.prems False
    show ?thesis by (subst heap_down_step) (simp add: nth_Swap)
  qed
qed

lemma heap_down_heap:
  assumes "n \<le> length h" and "i < n"
    and "\<And>a. 0 < a \<Longrightarrow> a < n \<Longrightarrow> parent a \<noteq> i \<Longrightarrow> heap_le h a"
    and "\<And>a. 0 < a \<Longrightarrow> a < n \<Longrightarrow> parent a = i \<Longrightarrow> 0 < i \<Longrightarrow> he_next (h ! a) \<le> he_next (h ! parent i)"
  shows "is_heap (heap_down h i n) n"
  using assms
proof (induction "n - i" arbitrary: h i rule: less_induct)
  case less
  define c where "c = top_child h i n"
  show ?case
  proof (cases "n \<le> 2 * i + 1 \<or> \<not> Less h c i")
    case True
    then have down: "heap_down h i n = h" unfolding c_def by (subst heap_down_step) simp
    have "heap_le h a" if a: "0 < a" "a < n" for a
    proof (cases "parent a = i")
      case False
      with less.prems(3)[OF a] show ?thesis .
    next
      case pa: True
      then have n: "2 * i + 1 < n" using a parent_child[of a i] by auto
      with True have "he_next (h ! c) \<le> he_next (h ! i)" by (auto simp: Less_def not_less)
      then show ?thesis using top_child(4)[where h = h, OF n a(1,2) pa] pa by (simp add: heap_le_def c_def)
    qed
    then show ?thesis unfolding down by (simp add: is_heap_def)
  next
    case False
    then have n: "2 * i + 1 < n" by simp
    note C = top_child(1-3)[OF n, of h, folded c_def]
    have big: "he_next (h ! a) \<le> he_next (h ! c)" if "0 < a" "a < n" "parent a = i" for a
      unfolding c_def by (rule top_child(4)[OF n that])
    have gt: "he_next (h ! i) < he_next (h ! c)" using False by (simp add: Less_def)
    let ?h = "Swap i c h"
    have nth: "?h ! a = (if a = c then h ! i else if a = i then h ! c else h ! a)" if "a < length h" for a
      using nth_Swap[of i h c a] that C less.prems(1) by simp
    have "is_heap (heap_down ?h c n) n"
    proof (rule less.hyps)
      show "n - c < n - i" using C by simp
      show "n \<le> length ?h" "c < n" using less.prems(1) C by simp_all
    next
      fix a assume a: "0 < a" "a < n" "parent a \<noteq> c"
      have al: "a < length h" "parent a < length h" using a parent_less[OF a(1)] less.prems(1) by simp_all
      show "heap_le ?h a"
      proof (cases "parent a = i")
        case pa: True
        then have ai: "a \<noteq> i" using parent_less[OF a(1)] by simp
        show ?thesis
        proof (cases "a = c")
          case True
          then show ?thesis using nth[of c] nth[of i] gt pa al C by (simp add: heap_le_def)
        next
          case ac: False
          have "?h ! a = h ! a" using nth[OF al(1)] ac ai by simp
          moreover have "?h ! parent a = h ! c" using nth[OF al(2)] pa C(3) by simp
          ultimately show ?thesis using big[OF a(1,2) pa] by (simp add: heap_le_def)
        qed
      next
        case pa: False
        then have "a \<noteq> c" using C(1) by auto
        have pold: "?h ! parent a = h ! parent a" using nth[OF al(2)] pa a(3) by simp
        show ?thesis
        proof (cases "a = i")
          case True
          have "he_next (h ! c) \<le> he_next (h ! parent i)"
            by (rule less.prems(4)) (use C a True in auto)
          then show ?thesis using nth[OF al(1)] True \<open>a \<noteq> c\<close> pold by (simp add: heap_le_def)
        next
          case False
          with less.prems(3)[OF a(1,2) pa] nth[OF al(1)] \<open>a \<noteq> c\<close> pold show ?thesis by (simp add: heap_le_def)
        qed
      qed
    next
      fix a assume a: "0 < a" "a < n" "parent a = c"
      have "a \<noteq> i" "a \<noteq> c" using parent_less[OF a(1)] a(3) C by auto
      then have "?h ! a = h ! a" using nth[of a] a less.prems(1) by simp
      moreover have "?h ! parent c = h ! c" using nth[of i] C less.prems(1,2) by simp
      moreover have "heap_le h a" using less.prems(3)[of a] a C by simp
      ultimately show "he_next (?h ! a) \<le> he_next (?h ! parent c)" using a by (simp add: heap_le_def)
    qed
    moreover have "heap_down h i n = heap_down ?h c n" using False unfolding c_def by (subst heap_down_step) simp
    ultimately show ?thesis by simp
  qed
qed

text \<open>The operations of the queue.\<close>

lemma heap_root_max: "is_heap h n \<Longrightarrow> i < n \<Longrightarrow> he_next (h ! i) \<le> he_next (h ! 0)"
proof (induction i rule: less_induct)
  case (less i)
  show ?case
  proof (cases "i = 0")
    case False
    then have "he_next (h ! i) \<le> he_next (h ! parent i)" using less.prems by (simp add: is_heap_def heap_le_def)
    moreover have "he_next (h ! parent i) \<le> he_next (h ! 0)"
      by (rule less.IH) (use parent_less[of i] False less.prems in auto)
    ultimately show ?thesis by simp
  qed simp
qed

lemma heap_push_ok:
  assumes "is_heap h (length h)"
  shows "mset (heap_push e h) = add_mset e (mset h)" and "is_heap (heap_push e h) (length (heap_push e h))"
proof -
  let ?h = "h @ [e]"
  show m: "mset (heap_push e h) = add_mset e (mset h)"
    unfolding heap_push_def by (subst heap_up_mset) simp_all
  have "heap_le ?h i" if "0 < i" "i < length ?h" "i \<noteq> length h" for i
  proof -
    have "i < length h" "parent i < length h" using that parent_less[of i] by auto
    moreover have "heap_le h i" using assms that by (simp add: is_heap_def)
    ultimately show ?thesis by (simp add: heap_le_def nth_append)
  qed
  moreover have "parent i \<noteq> length h" if "0 < i" "i < length ?h" for i using that parent_less[of i] by simp
  ultimately have "is_heap (heap_up ?h (length h)) (length ?h)" by (intro heap_up_heap) auto
  moreover have "length (heap_push e h) = length ?h" using m by (metis size_mset mset_append mset.simps union_commute add_mset_add_single)
  ultimately show "is_heap (heap_push e h) (length (heap_push e h))" by (simp add: heap_push_def)
qed

lemma heap_pop_ok:
  assumes h: "is_heap h (length h)" and ne: "h \<noteq> []" and p: "heap_pop h = (e, h')"
  shows "mset h = add_mset e (mset h')" and "is_heap h' (length h')" and "\<forall>x \<in> set h. he_next x \<le> he_next e"
proof -
  let ?n = "length h - 1" and ?h1 = "Swap 0 (length h - 1) h"
  let ?h2 = "heap_down ?h1 0 ?n"
  have len: "0 < length h" "?n < length h" using ne by simp_all
  have e: "e = ?h2 ! ?n" and h': "h' = take ?n ?h2" using p by (simp_all add: heap_pop_def Let_def)
  have ms: "mset ?h2 = mset h" "length ?h2 = length h" using heap_down_mset[of ?n ?h1 0] len by simp_all
  have "?h2 ! ?n = ?h1 ! ?n"
  proof (cases "?n = 0")
    case True
    then show ?thesis by (subst heap_down_step) simp
  next
    case False
    then show ?thesis using heap_down_frame[of ?n ?h1 0 ?n] len by simp
  qed
  then have root: "e = h ! 0" using e nth_Swap[of 0 h ?n ?n] len by simp
  have "?h2 = take ?n ?h2 @ [?h2 ! ?n]" 
    using take_Suc_conv_app_nth[of ?n ?h2] ms(2) len by simp
  then have "mset ?h2 = add_mset e (mset h')" unfolding h' e[symmetric] by (metis add_mset_add_single mset_append mset.simps union_commute union_mset_add_mset_left empty_neutral(1))
  then show "mset h = add_mset e (mset h')" using ms by simp
  show "\<forall>x \<in> set h. he_next x \<le> he_next e"
    unfolding root using heap_root_max[OF h] by (auto simp: in_set_conv_nth)
  have len': "length h' = ?n" using h' ms len by simp
  show "is_heap h' (length h')"
  proof (cases "?n = 0")
    case True
    then show ?thesis using len' by (simp add: is_heap_def)
  next
    case False
    have "heap_le ?h1 a" if a: "0 < a" "a < ?n" "parent a \<noteq> 0" for a
    proof -
      have "parent a < ?n" using parent_less[OF a(1)] a(2) by simp
      then have "?h1 ! a = h ! a" "?h1 ! parent a = h ! parent a"
        using nth_Swap[of 0 h ?n a] nth_Swap[of 0 h ?n "parent a"] a len by simp_all
      moreover have "heap_le h a" using h a by (simp add: is_heap_def)
      ultimately show ?thesis by (simp add: heap_le_def)
    qed
    then have "is_heap ?h2 ?n" by (intro heap_down_heap) (use len False in auto)
    then have "heap_le h' a" if "0 < a" "a < ?n" for a
      using that parent_less[of a] by (simp add: is_heap_def heap_le_def h')
    then show ?thesis using len' by (simp add: is_heap_def)
  qed
qed

section \<open>Eviction removes the object needed furthest away\<close>

definition covers :: "hentry list \<Rightarrow> (u64 \<times> nat) list \<Rightarrow> bool" where
  "covers h res \<longleftrightarrow> is_heap h (length h) \<and>
     (\<forall>k n. map_of res k = Some n \<longrightarrow> \<lparr>he_key = k, he_next = n\<rparr> \<in> set h)"

lemma evictFurthest_ok:
  assumes "covers h res" and "res \<noteq> []" and "evictFurthest h res = (h', res')"
  shows "\<exists>k n. map_of res k = Some n \<and> res' = AList.delete k res \<and> covers h' res' \<and>
    (\<forall>k' n'. map_of res k' = Some n' \<longrightarrow> n' \<le> n)"
  using assms
proof (induction h res rule: evictFurthest.induct)
  case (1 h res)
  obtain k0 n0 where k0: "map_of res k0 = Some n0" using 1(3) by (metis list.exhaust map_of_eq_empty_iff not_None_eq ext)
  then have ne: "h \<noteq> []" using 1(2) by (auto simp: covers_def)
  obtain e h1 where pop: "heap_pop h = (e, h1)" by fastforce
  have heap: "is_heap h (length h)" using 1(2) by (simp add: covers_def)
  note P = heap_pop_ok[OF heap ne pop]
  have set: "set h = insert e (set h1)" using P(1) by (metis set_mset_add_mset_insert set_mset_mset)
  have top: "n \<le> he_next e" if "map_of res k = Some n" for k n
    using 1(2) that P(3) by (fastforce simp: covers_def)
  show ?case
  proof (cases "map_of res (he_key e) = Some (he_next e)")
    case True
    then have r: "h' = h1" "res' = AList.delete (he_key e) res" using 1(4) ne pop by (subst (asm) evictFurthest.simps, simp)+
    have "\<lparr>he_key = k, he_next = n\<rparr> \<in> set h1" if "map_of res k = Some n" "k \<noteq> he_key e" for k n
    proof -
      have "\<lparr>he_key = k, he_next = n\<rparr> \<in> set h" using 1(2) that(1) by (simp add: covers_def)
      moreover have "\<lparr>he_key = k, he_next = n\<rparr> \<noteq> e" using that(2) by auto
      ultimately show ?thesis using set by simp
    qed
    then have "covers h1 (AList.delete (he_key e) res)" using P(2) by (simp add: covers_def)
    with True r top show ?thesis by blast
  next
    case False
    then have rec: "evictFurthest h1 res = (h', res')" using 1(4) ne pop by (subst (asm) evictFurthest.simps) simp
    have "\<lparr>he_key = k, he_next = n\<rparr> \<in> set h1" if "map_of res k = Some n" for k n
    proof -
      have "\<lparr>he_key = k, he_next = n\<rparr> \<in> set h" using 1(2) that by (simp add: covers_def)
      moreover have "\<lparr>he_key = k, he_next = n\<rparr> \<noteq> e" using False that by auto
      ultimately show ?thesis using set by simp
    qed
    then have "covers h1 res" using P(2) by (simp add: covers_def)
    from 1(1)[OF ne pop[symmetric] False this 1(3) rec] show ?thesis .
  qed
qed

section \<open>The next request\<close>

text \<open>The next request for \<open>k\<close> at or after index \<open>i\<close>, or the length of the trace.\<close>

fun next_from :: "u64 list \<Rightarrow> u64 \<Rightarrow> nat" where
  "next_from [] k = 0"
| "next_from (x # xs) k = (if x = k then 0 else Suc (next_from xs k))"

definition nu :: "u64 list \<Rightarrow> nat \<Rightarrow> u64 \<Rightarrow> nat" where
  "nu trace i k = i + next_from (drop i trace) k"

lemma nu_here: "i < length trace \<Longrightarrow> nu trace i (trace ! i) = i"
  by (simp add: nu_def Cons_nth_drop_Suc[symmetric])

lemma nu_skip: "i < length trace \<Longrightarrow> k \<noteq> trace ! i \<Longrightarrow> nu trace i k = nu trace (Suc i) k"
  by (simp add: nu_def Cons_nth_drop_Suc[symmetric])

lemma nu_ge: "i \<le> nu trace i k"
  by (simp add: nu_def)

lemma nu_end: "nu trace (length trace) k = length trace"
  by (simp add: nu_def)

text \<open>The backward walk computes exactly this.\<close>

lemma next_walk:
  assumes "n = length trace"
  shows "m \<le> n \<Longrightarrow> fold (next_step trace) (rev [n - m..<n]) (replicate n 0, []) = (nxt, seen) \<Longrightarrow>
    length nxt = n \<and> (\<forall>i. n - m \<le> i \<longrightarrow> i < n \<longrightarrow> nxt ! i = nu trace (Suc i) (trace ! i)) \<and>
    (\<forall>k. (case map_of seen k of Some j \<Rightarrow> j | None \<Rightarrow> n) = nu trace (n - m) k)"
proof (induction m arbitrary: nxt seen)
  case 0
  then show ?case using assms by (auto simp: nu_end)
next
  case (Suc m)
  let ?i = "n - Suc m"
  have i: "?i < n" "Suc ?i = n - m" using Suc.prems(1) by simp_all
  obtain nxt1 seen1 where st: "fold (next_step trace) (rev [n - m..<n]) (replicate n 0, []) = (nxt1, seen1)" by fastforce
  have "[?i..<n] = ?i # [n - m..<n]" using i by (simp add: upt_conv_Cons)
  then have step: "next_step trace ?i (nxt1, seen1) = (nxt, seen)" using Suc.prems(2) st by simp
  have IH: "length nxt1 = n" "\<And>i. n - m \<le> i \<Longrightarrow> i < n \<Longrightarrow> nxt1 ! i = nu trace (Suc i) (trace ! i)"
    "\<And>k. (case map_of seen1 k of Some j \<Rightarrow> j | None \<Rightarrow> n) = nu trace (n - m) k"
    using Suc.IH[OF _ st] Suc.prems(1) by simp_all
  have new: "nxt = nxt1[?i := nu trace (n - m) (trace ! ?i)]" "seen = AList.update (trace ! ?i) ?i seen1"
    using step IH(3)[of "trace ! ?i"] by (auto simp: next_step_def assms[symmetric] split: option.splits)
  have "nxt ! i = nu trace (Suc i) (trace ! i)" if "?i \<le> i" "i < n" for i
    using that IH(1) IH(2)[of i] i by (cases "i = ?i") (auto simp: new nth_list_update)
  moreover have "(case map_of seen k of Some j \<Rightarrow> j | None \<Rightarrow> n) = nu trace ?i k" for k
    using IH(3)[of k] nu_here[of ?i trace] nu_skip[of ?i trace k] i assms by (auto simp: new)
  ultimately show ?case using IH(1) by (simp add: new)
qed

lemma next_uses_nu:
  assumes "i < length trace"
  shows "next_uses trace ! i = nu trace (Suc i) (trace ! i)"
proof -
  obtain nxt seen where st: "fold (next_step trace) (rev [0..<length trace]) (replicate (length trace) 0, []) = (nxt, seen)"
    by fastforce
  then have "nxt ! i = nu trace (Suc i) (trace ! i)"
    using next_walk[OF refl, of "length trace" trace nxt seen] assms by simp
  then show ?thesis by (simp add: next_uses_def st)
qed

section \<open>Replacement schedules and their cost\<close>

text \<open>
  A policy without bypass: the requested key is resident afterwards, nothing else is brought in, and at
  most \<open>cap\<close> keys are resident. Which keys leave, and how many, is free.
\<close>

definition replace_ok :: "nat \<Rightarrow> u64 \<Rightarrow> u64 set \<Rightarrow> u64 set \<Rightarrow> bool" where
  "replace_ok cap x S S' \<longleftrightarrow> x \<in> S' \<and> S' \<subseteq> insert x S \<and> finite S' \<and> card S' \<le> cap"

definition schedule :: "nat \<Rightarrow> u64 list \<Rightarrow> (nat \<Rightarrow> u64 set) \<Rightarrow> bool" where
  "schedule cap trace S \<longleftrightarrow> S 0 = {} \<and> (\<forall>i < length trace. replace_ok cap (trace ! i) (S i) (S (Suc i)))"

definition hits_of :: "u64 list \<Rightarrow> (nat \<Rightarrow> u64 set) \<Rightarrow> nat \<Rightarrow> nat \<Rightarrow> nat" where
  "hits_of trace S from n = card {i. from \<le> i \<and> i < n \<and> trace ! i \<in> S i}"

lemma hits_of_0: "hits_of trace S from 0 = 0"
  by (simp add: hits_of_def)

lemma hits_of_Suc:
  "hits_of trace S from (Suc n) = hits_of trace S from n + (if from \<le> n \<and> trace ! n \<in> S n then 1 else 0)"
proof -
  let ?H = "{i. from \<le> i \<and> i < n \<and> trace ! i \<in> S i}"
  have "{i. from \<le> i \<and> i < Suc n \<and> trace ! i \<in> S i} = (if from \<le> n \<and> trace ! n \<in> S n then insert n ?H else ?H)"
    by (auto simp: less_Suc_eq)
  then show ?thesis by (simp add: hits_of_def)
qed

text \<open>How many resident keys are requested again before \<open>t\<close>.\<close>

definition soon :: "u64 list \<Rightarrow> nat \<Rightarrow> u64 set \<Rightarrow> nat \<Rightarrow> nat" where
  "soon trace i S t = card {k \<in> S. nu trace i k < t}"

definition evicts_furthest :: "nat \<Rightarrow> u64 list \<Rightarrow> nat \<Rightarrow> u64 set \<Rightarrow> u64 set \<Rightarrow> bool" where
  "evicts_furthest cap trace i M M' \<longleftrightarrow>
     (let x = trace ! i in
      if x \<in> M \<or> card M < cap then M' = insert x M
      else \<exists>y \<in> M. M' = insert x (M - {y}) \<and> (\<forall>k \<in> M. nu trace (Suc i) k \<le> nu trace (Suc i) y))"

text \<open>The count splits into the requested key and the others.\<close>

lemma soon_split:
  assumes "finite S" and "i < length trace" and "i < t"
  shows "soon trace i S t = card {k \<in> S - {trace ! i}. nu trace (Suc i) k < t} + (if trace ! i \<in> S then 1 else 0)"
proof -
  let ?x = "trace ! i"
  let ?R = "{k \<in> S - {?x}. nu trace (Suc i) k < t}"
  have fin: "finite ?R" "?x \<notin> ?R" using assms(1) by simp_all
  show ?thesis
  proof (cases "?x \<in> S")
    case True
    then have "{k \<in> S. nu trace i k < t} = insert ?x ?R"
      using nu_here[OF assms(2)] nu_skip[OF assms(2)] assms(3) by auto
    then show ?thesis using True card_insert_disjoint[OF fin] by (simp only: soon_def if_True)
  next
    case False
    then have "nu trace i k = nu trace (Suc i) k" if "k \<in> S" for k using nu_skip[OF assms(2), of k] that by auto
    with False have "{k \<in> S. nu trace i k < t} = ?R" by auto
    then show ?thesis using False by (simp only: soon_def if_False add_0_right)
  qed
qed

lemma soon_after:
  assumes "finite S" and "x \<in> S"
  shows "soon trace i S t = card {k \<in> S - {x}. nu trace i k < t} + (if nu trace i x < t then 1 else 0)"
proof -
  let ?R = "{k \<in> S - {x}. nu trace i k < t}"
  have "{k \<in> S. nu trace i k < t} = (if nu trace i x < t then insert x ?R else ?R)" using assms(2) by auto
  then show ?thesis using assms(1) by (simp add: soon_def)
qed

lemma exchange_step:
  assumes i: "i < length trace" and A: "replace_ok cap (trace ! i) A A'" and M: "evicts_furthest cap trace i M M'"
    and fin: "finite A" "finite M" "card M \<le> cap"
    and inv: "\<And>t. i \<le> t \<Longrightarrow> hA + soon trace i A t \<le> hM + soon trace i M t"
    and t: "Suc i \<le> t"
  shows "hA + (if trace ! i \<in> A then 1 else 0) + soon trace (Suc i) A' t \<le>
         hM + (if trace ! i \<in> M then 1 else 0) + soon trace (Suc i) M' t"
proof -
  let ?x = "trace ! i" and ?N = "nu trace (Suc i)"
  let ?c = "\<lambda>S. card {k \<in> S - {?x}. ?N k < t}"
  let ?ha = "hA + (if ?x \<in> A then 1 else 0 :: nat)" and ?hm = "hM + (if ?x \<in> M then 1 else 0 :: nat)"
  have A': "?x \<in> A'" "A' \<subseteq> insert ?x A" "finite A'" "card A' \<le> cap" using A by (simp_all add: replace_ok_def)
  have "finite M'" "?x \<in> M'" using M fin by (auto simp: evicts_furthest_def Let_def split: if_splits)
  note M' = this
  have now: "?ha + ?c A \<le> ?hm + ?c M" using inv[of t] soon_split[of A i trace t] soon_split[of M i trace t] fin i t by simp
  have none: "{k \<in> S - {?x}. ?N k < Suc i} = {}" for S using nu_ge[of "Suc i" trace] by (auto simp: not_less)
  have first: "?ha \<le> ?hm"
  proof -
    have "soon trace i S (Suc i) = (if ?x \<in> S then 1 else 0)" if "finite S" for S
      using soon_split[OF that i, of "Suc i"] by (simp only: none card.empty lessI simp_thms add_0_left)
    then show ?thesis using inv[of "Suc i"] fin(1,2) by simp
  qed
  have sub: "A' - {?x} \<subseteq> A - {?x}" using A'(2) by auto
  have cA: "?c A' \<le> ?c A" by (rule card_mono) (use fin sub in auto)
  have cap: "?c A' \<le> cap - 1"
  proof -
    have "?c A' \<le> card (A' - {?x})" by (rule card_mono) (use A'(3) in auto)
    also have "\<dots> = card A' - 1" using A'(1,3) by simp
    finally show ?thesis using A'(4) by linarith
  qed
  have key: "?ha + ?c A' \<le> ?hm + ?c M'"
  proof (cases "?x \<in> M \<or> card M < cap")
    case True
    then have "M' - {?x} = M - {?x}" using M by (auto simp: evicts_furthest_def Let_def)
    with now cA show ?thesis by simp
  next
    case False
    then obtain y where y: "y \<in> M" "M' = insert ?x (M - {y})" "\<forall>k \<in> M. ?N k \<le> ?N y" "?x \<notin> M"
      using M by (auto simp: evicts_furthest_def Let_def)
    have mx: "M - {?x} = M" "M' - {?x} = M - {y}" using y by auto
    show ?thesis
    proof (cases "?N y < t")
      case far: False
      then have "{k \<in> M - {y}. ?N k < t} = {k \<in> M. ?N k < t}" by auto
      with now cA mx show ?thesis by simp
    next
      case near: True
      then have "{k \<in> M - {y}. ?N k < t} = M - {y}" using y(3) by auto
      then have "?c M' = cap - 1" using mx y(1) False fin by simp
      with cap first show ?thesis by simp
    qed
  qed
  have "soon trace (Suc i) A' t = ?c A' + (if ?N ?x < t then 1 else 0)" by (rule soon_after) (use A' in auto)
  moreover have "soon trace (Suc i) M' t = ?c M' + (if ?N ?x < t then 1 else 0)" by (rule soon_after) (use M' in auto)
  ultimately show ?thesis using key by simp
qed

text \<open>Evicting the key needed furthest away is optimal at every prefix of the trace.\<close>

theorem furthest_optimal:
  assumes A: "schedule cap trace A" and M0: "M 0 = {}"
    and M: "\<And>i. i < length trace \<Longrightarrow> evicts_furthest cap trace i (M i) (M (Suc i))"
    and cM: "\<And>i. i \<le> length trace \<Longrightarrow> finite (M i) \<and> card (M i) \<le> cap"
    and n: "n \<le> length trace"
  shows "hits_of trace A 0 n \<le> hits_of trace M 0 n"
proof -
  have "finite (A i)" if "i \<le> length trace" for i
    using A that by (cases i) (auto simp: schedule_def replace_ok_def)
  note fA = this
  have "\<forall>t. n \<le> t \<longrightarrow> hits_of trace A 0 n + soon trace n (A n) t \<le> hits_of trace M 0 n + soon trace n (M n) t"
    using n
  proof (induction n)
    case 0
    then show ?case using A M0 by (simp add: schedule_def hits_of_0)
  next
    case (Suc n)
    then have i: "n < length trace" by simp
    have st: "replace_ok cap (trace ! n) (A n) (A (Suc n))" using A i by (simp add: schedule_def)
    show ?case
    proof (intro allI impI)
      fix t assume "Suc n \<le> t"
      from exchange_step[OF i st M[OF i] _ _ _ _ this, of "hits_of trace A 0 n" "hits_of trace M 0 n"]
        fA[of n] cM[of n] Suc.IH i
      show "hits_of trace A 0 (Suc n) + soon trace (Suc n) (A (Suc n)) t \<le>
            hits_of trace M 0 (Suc n) + soon trace (Suc n) (M (Suc n)) t" by (simp add: hits_of_Suc)
    qed
  qed
  moreover have "soon trace n S n = 0" for S using nu_ge[of n trace] by (auto simp: soon_def not_less)
  ultimately show ?thesis by fastforce
qed

section \<open>The simulation evicts the key needed furthest away\<close>

text \<open>The keys resident before request \<open>i\<close>.\<close>

definition resident_at :: "u64 list \<Rightarrow> int \<Rightarrow> int \<Rightarrow> nat \<Rightarrow> u64 set" where
  "resident_at trace cap from i = dom (map_of (resident (min_run trace cap from i)))"

lemma min_run_0: "min_run trace cap from 0 = \<lparr>resident = [], furthest = [], min_hits = 0\<rparr>"
  by (simp add: min_run_def)

lemma min_run_Suc: "min_run trace cap from (Suc i) = min_step trace (next_uses trace) cap from i (min_run trace cap from i)"
  by (simp add: min_run_def)

definition min_inv :: "u64 list \<Rightarrow> int \<Rightarrow> nat \<Rightarrow> min_state \<Rightarrow> bool" where
  "min_inv trace cap i st \<longleftrightarrow> covers (furthest st) (resident st) \<and> distinct (map fst (resident st)) \<and>
     int (length (resident st)) \<le> cap \<and>
     (\<forall>k n. map_of (resident st) k = Some n \<longrightarrow> n = nu trace i k)"

text \<open>Recording the request makes the requested key resident at its next use.\<close>

lemma min_record:
  assumes "covers h res" and "distinct (map fst res)"
    and "\<And>k n. map_of res k = Some n \<Longrightarrow> k \<noteq> trace ! i \<Longrightarrow> n = nu trace (Suc i) k"
    and "int (length (AList.update (trace ! i) (next_uses trace ! i) res)) \<le> cap" and "i < length trace"
    and "resident st' = AList.update (trace ! i) (next_uses trace ! i) res"
    and "furthest st' = heap_push \<lparr>he_key = trace ! i, he_next = next_uses trace ! i\<rparr> h"
  shows "min_inv trace cap (Suc i) st'"
proof -
  let ?e = "\<lparr>he_key = trace ! i, he_next = next_uses trace ! i\<rparr>"
  have h: "is_heap h (length h)" using assms(1) by (simp add: covers_def)
  note P = heap_push_ok[OF h, of ?e]
  have "set (heap_push ?e h) = insert ?e (set h)" using P(1) by (metis set_mset_add_mset_insert set_mset_mset)
  then have "covers (heap_push ?e h) (AList.update (trace ! i) (next_uses trace ! i) res)"
    using assms(1) P(2) by (simp add: covers_def update_Some_unfold)
  moreover have "distinct (map fst (AList.update (trace ! i) (next_uses trace ! i) res))"
    using assms(2) by (rule distinct_update)
  ultimately show ?thesis
    using assms(3,4,6,7) next_uses_nu[OF assms(5)] by (auto simp: min_inv_def update_Some_unfold)
qed

lemma length_update: "length (AList.update k v xs) = (if map_of xs k = None then Suc (length xs) else length xs)"
  by (induction xs) auto

lemma card_dom_map_of: "distinct (map fst xs) \<Longrightarrow> card (dom (map_of xs)) = length xs"
  by (metis card_image dom_map_of_conv_image_fst distinct_map distinct_card length_map image_set)

lemma length_delete: "distinct (map fst xs) \<Longrightarrow> map_of xs k \<noteq> None \<Longrightarrow> Suc (length (AList.delete k xs)) = length xs"
proof (induction xs)
  case (Cons p xs)
  show ?case
  proof (cases "fst p = k")
    case True
    then have "AList.delete k xs = xs" using Cons.prems by (auto simp: delete_id)
    then show ?thesis using True by (cases p) simp
  next
    case False
    then show ?thesis using Cons by (cases p) auto
  qed
qed simp

lemma min_step_ok:
  fixes start :: int
  assumes inv: "min_inv trace cap i st" and i: "i < length trace" and cap: "0 < cap"
  defines "st' \<equiv> min_step trace (next_uses trace) cap start i st"
  shows "min_inv trace cap (Suc i) st'"
    and "evicts_furthest (nat cap) trace i (dom (map_of (resident st))) (dom (map_of (resident st')))"
    and "min_hits st' = min_hits st + (if start \<le> int i \<and> trace ! i \<in> dom (map_of (resident st)) then 1 else 0)"
proof -
  let ?k = "trace ! i" and ?res = "resident st" and ?n = "next_uses trace ! i"
  have I: "covers (furthest st) ?res" "distinct (map fst ?res)" "int (length ?res) \<le> cap"
    "\<And>k n. map_of ?res k = Some n \<Longrightarrow> n = nu trace i k" using inv by (simp_all add: min_inv_def)
  have card: "card (dom (map_of ?res)) = length ?res" by (rule card_dom_map_of[OF I(2)])
  have later: "n = nu trace (Suc i) k" if "map_of ?res k = Some n" "k \<noteq> ?k" for k n
    using I(4)[OF that(1)] nu_skip[OF i that(2)] by simp
  have all: "min_inv trace cap (Suc i) st' \<and>
    evicts_furthest (nat cap) trace i (dom (map_of ?res)) (dom (map_of (resident st'))) \<and>
    min_hits st' = min_hits st + (if start \<le> int i \<and> ?k \<in> dom (map_of ?res) then 1 else 0)"
  proof (cases "map_of ?res ?k = None \<and> cap \<le> int (length ?res)")
    case False
    have st': "resident st' = AList.update ?k ?n ?res"
      "furthest st' = heap_push \<lparr>he_key = ?k, he_next = ?n\<rparr> (furthest st)"
      "min_hits st' = min_hits st + (if start \<le> int i \<and> ?k \<in> dom (map_of ?res) then 1 else 0)"
      using False by (auto simp: st'_def min_step_def Let_def)
    have "min_inv trace cap (Suc i) st'"
      by (rule min_record[OF I(1,2) later _ i st'(1,2)]) (use False I(3) in \<open>auto simp: length_update\<close>)
    moreover have "dom (map_of (resident st')) = insert ?k (dom (map_of ?res))" by (auto simp: st' update_Some_unfold)
    moreover have "?k \<in> dom (map_of ?res) \<or> card (dom (map_of ?res)) < nat cap" using False card by auto
    ultimately show ?thesis using st'(3) by (simp add: evicts_furthest_def Let_def)
  next
    case True
    obtain h res where ev: "evictFurthest (furthest st) ?res = (h, res)" by fastforce
    have "?res \<noteq> []" using True cap by auto
    from evictFurthest_ok[OF I(1) this ev] obtain y n where y: "map_of ?res y = Some n" "res = AList.delete y ?res"
      "covers h res" "\<And>k' n'. map_of ?res k' = Some n' \<Longrightarrow> n' \<le> n" by metis
    have st': "resident st' = AList.update ?k ?n res"
      "furthest st' = heap_push \<lparr>he_key = ?k, he_next = ?n\<rparr> h" "min_hits st' = min_hits st"
      using True ev by (auto simp: st'_def min_step_def Let_def)
    have yk: "y \<noteq> ?k" using True y(1) by auto
    have d: "distinct (map fst res)" using I(2) y(2) by (simp add: distinct_delete)
    have len: "Suc (length res) = length ?res" unfolding y(2) by (rule length_delete[OF I(2)]) (simp add: y(1))
    have l: "m = nu trace (Suc i) k" if "map_of res k = Some m" "k \<noteq> ?k" for k m
      using that later by (auto simp: y(2) delete_conv split: if_splits)
    have none: "map_of res ?k = None" using True y(2) by (auto simp: delete_conv)
    have "min_inv trace cap (Suc i) st'"
      by (rule min_record[OF y(3) d l _ i st'(1,2)]) (use len I(3) none in \<open>auto simp: length_update\<close>)
    moreover have "dom (map_of (resident st')) = insert ?k (dom (map_of ?res) - {y})"
      by (auto simp: st' y(2) update_Some_unfold delete_conv split: if_splits)
    moreover have "nu trace (Suc i) k \<le> nu trace (Suc i) y" if "k \<in> dom (map_of ?res)" for k
    proof -
      from that obtain m where m: "map_of ?res k = Some m" by auto
      then have "k \<noteq> ?k" using True by auto
      then show ?thesis using y(4)[OF m] later[OF m] later[OF y(1) yk] by simp
    qed
    moreover have "\<not> (?k \<in> dom (map_of ?res) \<or> card (dom (map_of ?res)) < nat cap)"
      using True card by auto
    moreover have "y \<in> dom (map_of ?res)" using y(1) by auto
    ultimately have "evicts_furthest (nat cap) trace i (dom (map_of ?res)) (dom (map_of (resident st')))"
      unfolding evicts_furthest_def Let_def by (simp only: if_False) blast
    with \<open>min_inv trace cap (Suc i) st'\<close> True st'(3) show ?thesis by auto
  qed
  then show "min_inv trace cap (Suc i) st'"
    and "evicts_furthest (nat cap) trace i (dom (map_of ?res)) (dom (map_of (resident st')))"
    and "min_hits st' = min_hits st + (if start \<le> int i \<and> ?k \<in> dom (map_of ?res) then 1 else 0)" by simp_all
qed

text \<open>Over the whole trace.\<close>

lemma min_run_ok:
  assumes "0 < cap" and "i \<le> length trace"
  shows "min_inv trace cap i (min_run trace cap from i) \<and>
    min_hits (min_run trace cap from i) = int (hits_of trace (resident_at trace cap from) (nat from) i)"
  using assms(2)
proof (induction i)
  case 0
  then show ?case using assms(1) by (simp add: min_run_0 hits_of_0 min_inv_def covers_def is_heap_def)
next
  case (Suc i)
  then have i: "i < length trace" by simp
  have IH: "min_inv trace cap i (min_run trace cap from i)"
    "min_hits (min_run trace cap from i) = int (hits_of trace (resident_at trace cap from) (nat from) i)"
    using Suc by simp_all
  note S = min_step_ok[where start = "from", OF IH(1) i assms(1), folded min_run_Suc resident_at_def]
  have "from \<le> int i \<longleftrightarrow> nat from \<le> i" by linarith
  then show ?case using S(1,3) IH(2) by (simp add: hits_of_Suc)
qed

lemma min_run_furthest:
  assumes "0 < cap" and "i < length trace"
  shows "evicts_furthest (nat cap) trace i (resident_at trace cap from i) (resident_at trace cap from (Suc i))"
  using min_step_ok(2)[of trace cap i "min_run trace cap from i" "from"] min_run_ok[of cap i trace "from"] assms
  by (simp add: resident_at_def min_run_Suc)

lemma resident_at_bound:
  assumes "0 < cap" and "i \<le> length trace"
  shows "finite (resident_at trace cap from i) \<and> card (resident_at trace cap from i) \<le> nat cap"
  using min_run_ok[OF assms, of "from"] card_dom_map_of[of "resident (min_run trace cap from i)"]
  by (auto simp: min_inv_def resident_at_def finite_dom_map_of)

lemma min_hits_optimal:
  assumes "0 < cap" and "schedule (nat cap) trace A" and "n \<le> length trace"
  shows "int (hits_of trace A 0 n) \<le> min_hits (min_run trace cap 0 n)"
proof -
  have "hits_of trace A 0 n \<le> hits_of trace (resident_at trace cap 0) 0 n"
    by (rule furthest_optimal[OF assms(2)])
      (use min_run_furthest[OF assms(1)] resident_at_bound[OF assms(1)] assms(3) in \<open>auto simp: resident_at_def min_run_0\<close>)
  then show ?thesis using min_run_ok[OF assms(1,3), of 0] by simp
qed

text \<open>MIN itself is one of the schedules it is compared with: the bound is attained.\<close>

lemma min_run_schedule: "0 < cap \<Longrightarrow> schedule (nat cap) trace (resident_at trace cap from)"
proof -
  assume cap: "0 < cap"
  have "replace_ok (nat cap) (trace ! i) (resident_at trace cap from i) (resident_at trace cap from (Suc i))"
    if "i < length trace" for i
    using min_run_furthest[OF cap that, of "from"] resident_at_bound[OF cap, of "Suc i" trace "from"] that
    by (auto simp: evicts_furthest_def replace_ok_def Let_def split: if_splits)
  then show ?thesis by (simp add: schedule_def resident_at_def min_run_0)
qed

section \<open>The ratio\<close>

lemma hits_of_le: "hits_of trace S start n \<le> n"
proof -
  have "hits_of trace S start n \<le> card {..<n}" unfolding hits_of_def by (rule card_mono) auto
  then show ?thesis by simp
qed

definition hit_share :: "nat \<Rightarrow> nat \<Rightarrow> fl" where
  "hit_share hits n = fdiv F64 (f_of_int F64 (int hits)) (f_of_int F64 (int n))"

lemma hit_share_mono:
  assumes "a \<le> b" and "b \<le> n" and "0 < n" and "int n < 2 ^ 63"
  shows "hit_share a n \<le> hit_share b n"
proof -
  have fin: "\<exists>r. f_of_int F64 (int k) = Fin r \<and> 0 \<le> r" if "k \<le> n" for k
    using f_of_int_bounded[of F64 "int k" 63] that assms(4) std_fmts by (auto simp: fmt_fields)
  obtain x y d where x: "f_of_int F64 (int a) = Fin x" "0 \<le> x" and y: "f_of_int F64 (int b) = Fin y"
    and d: "f_of_int F64 (int n) = Fin d" using fin[of a] fin[of b] fin[of n] assms by auto
  have "x \<le> y" using f_of_int_mono[of F64 "int a" "int b"] assms(1) std_fmts x y by simp
  moreover have "1 \<le> d"
    using f_of_int_mono[of F64 1 "int n"] f_of_int_exact[of F64 1] assms(3) std_fmts d by (simp add: fmt_fields)
  ultimately have "x / d \<le> y / d" by (simp add: divide_right_mono)
  then have "fround F64 (x / d) \<le> fround F64 (y / d)" by (rule fround_mono) (simp add: std_prec_pos std_fmts)
  then show ?thesis using x y d \<open>1 \<le> d\<close> by (simp add: hit_share_def)
qed

lemma MINHitRatio_share:
  assumes "0 < cap" and "trace \<noteq> []"
  shows "MINHitRatio trace cap = hit_share (hits_of trace (resident_at trace cap 0) 0 (length trace)) (length trace)"
  using min_run_ok[OF assms(1), of "length trace" trace 0] assms
  by (simp add: MINHitRatio_def MINHitRatioFrom_def hit_share_def)

lemma MINHitRatio_bound:
  assumes "0 < cap" and "trace \<noteq> []" and "int (length trace) < 2 ^ 63" and "schedule (nat cap) trace A"
  shows "hit_share (hits_of trace A 0 (length trace)) (length trace) \<le> MINHitRatio trace cap"
  unfolding MINHitRatio_share[OF assms(1,2)]
proof (rule hit_share_mono)
  show "hits_of trace A 0 (length trace) \<le> hits_of trace (resident_at trace cap 0) 0 (length trace)"
    using min_hits_optimal[OF assms(1,4) order_refl] min_run_ok[OF assms(1) order_refl, of trace 0] by simp
qed (use hits_of_le assms in simp_all)

end
