(* ===== verification/Hashring_Properties.thy ===== *)
theory Hashring_Properties
  imports Hashring Belady_MIN
begin

text \<open>
  The claims about the consistent-hash ring and about the offline optimum. The ring's witnesses use two
  nodes of one virtual node each, sorted by insertion.
\<close>

section \<open>A concrete ring\<close>

definition demo_srt :: "vnode list \<Rightarrow> vnode list" where
  "demo_srt = sort_key vn_hash"

definition demo_ring :: hring where
  "demo_ring = Add demo_srt [2] (Add demo_srt [1] (NewHashring 1 (Fin (5 / 4))))"

lemma demo_sort: "is_sort demo_srt"
  by (simp add: is_sort_def demo_srt_def)

lemma demo_ring_nodes: "hnodes demo_ring = [\<lparr>hn_name = [1], hn_load = 0\<rparr>, \<lparr>hn_name = [2], hn_load = 0\<rparr>]"
  "total demo_ring = 0" "factor demo_ring = Fin (5 / 4)" "replicas demo_ring = 1"
  by (simp_all add: demo_ring_def Add_def NewHashring_def Let_def)

lemma demo_ring_inv: "hring_inv demo_ring"
  unfolding demo_ring_def by (intro Add_inv demo_sort NewHashring_inv) (simp_all add: Add_def NewHashring_def Let_def)

lemma demo_ring_sane: "sane demo_ring"
  unfolding sane_def by (intro conjI exI[of _ "5 / 4"]) (simp_all add: demo_ring_nodes)

section \<open>Placement with bounded loads\<close>

text \<open>
  C11. A pick walks clockwise from the key's position, passes only nodes that are full, and charges the
  first node below the bound; a node below the bound always exists, so the fallback to an overloaded home
  node is never taken by one request at a time.
\<close>

theorem pick_within_bound:
  assumes "hring_inv r" and "sane r" and "hnodes r \<noteq> []"
  shows "\<exists>i \<le> length (vnodes r). \<exists>m < length (hnodes r).
    Pick impl key r = (Inr (hn_name (hnodes r ! m)), charge m r) \<and> m = clockwise r (Hash key) i \<and>
    hn_load (hnodes r ! m) < capacityLocked impl r \<and>
    (\<forall>j < i. capacityLocked impl r \<le> hn_load (hnodes r ! clockwise r (Hash key) j))"
  by (rule Pick_walks[OF assms])

lemma pick_within_bound_witness:
  "\<exists>m < 2. Pick (\<lambda>_. 0) [9] demo_ring = (Inr (hn_name (hnodes demo_ring ! m)), charge m demo_ring)"
proof -
  have "hnodes demo_ring \<noteq> []" by (simp add: demo_ring_nodes)
  from pick_within_bound[OF demo_ring_inv demo_ring_sane this, of "\<lambda>_. 0" "[9]"] obtain m where
    "m < length (hnodes demo_ring)" "Pick (\<lambda>_. 0) [9] demo_ring = (Inr (hn_name (hnodes demo_ring ! m)), charge m demo_ring)" by blast
  moreover have "length (hnodes demo_ring) = 2" by (simp add: demo_ring_nodes)
  ultimately show ?thesis by (intro exI[of _ m]) simp
qed

text \<open>
  Finishing a request releases exactly what picking its node charged: the ring is as it was, so load
  never drifts.
\<close>

lemma release_undoes_pick:
  assumes "hring_inv r" and "sane r" and "hnodes r \<noteq> []" and "Pick impl key r = (Inr name, r')"
  shows "Done name r' = r \<and> hring_inv r'"
  using Done_Pick[OF assms] Pick_inv[OF assms(1,2), of impl key] assms(4) by simp

lemma release_undoes_pick_witness:
  "\<exists>name r'. Pick (\<lambda>_. 0) [9] demo_ring = (Inr name, r') \<and> Done name r' = demo_ring"
proof -
  have ne: "hnodes demo_ring \<noteq> []" by (simp add: demo_ring_nodes)
  from Pick_walks[OF demo_ring_inv demo_ring_sane ne, of "\<lambda>_. 0" "[9]"] obtain name r' where
    p: "Pick (\<lambda>_. 0) [9] demo_ring = (Inr name, r')" by blast
  from release_undoes_pick[OF demo_ring_inv demo_ring_sane ne p] p show ?thesis by blast
qed

text \<open>
  C23. Adding a node moves keys to that node only: the home of a key stays what it was or becomes the new
  node, as long as no two virtual nodes have the same hash.
\<close>

theorem added_node_takes_only_its_keys:
  assumes "hring_inv r" and "is_sort srt" and "hnodes r \<noteq> []" and "length (hnodes r) < 2 ^ 31 - 1"
    and "distinct (map vn_hash (vnodes (Add srt name r)))"
  shows "home (Add srt name r) h = home r h \<or> home (Add srt name r) h = name"
  by (rule Add_moves_to_new[OF assms])

lemma added_node_takes_only_its_keys_witness:
  "home demo_ring 7 = home (Add demo_srt [1] (NewHashring 1 (Fin (5 / 4)))) 7 \<or> home demo_ring 7 = [2]"
proof -
  let ?r = "Add demo_srt [1] (NewHashring 1 (Fin (5 / 4)))"
  have inv: "hring_inv ?r" by (intro Add_inv demo_sort NewHashring_inv) (simp add: NewHashring_def)
  have "Hash (replica_key [1] 0) \<noteq> Hash (replica_key [2] 0)" by code_simp
  moreover have "mset (map vn_hash (vnodes demo_ring)) = {#Hash (replica_key [1] 0), Hash (replica_key [2] 0)#}"
    by (simp add: demo_ring_def demo_srt_def Add_def NewHashring_def new_vnodes_def Let_def)
  ultimately have "distinct (map vn_hash (vnodes demo_ring))"
    by (metis distinct_length_2_or_more distinct_singleton mset.simps mset_eq_imp_distinct_iff)
  then have "distinct (map vn_hash (vnodes (Add demo_srt [2] ?r)))" by (simp add: demo_ring_def)
  from added_node_takes_only_its_keys[OF inv demo_sort _ _ this, of 7]
  show ?thesis by (simp add: demo_ring_def Add_def NewHashring_def Let_def)
qed

section \<open>The offline optimum\<close>

text \<open>
  C4. \<open>MINHitRatio\<close> is the best hit ratio of any schedule that keeps at most \<open>capacity\<close> objects and always
  admits the requested one: some schedule attains it, and none exceeds it, in the code's own rounding.
\<close>

theorem MINHitRatio_optimal:
  assumes "0 < cap" and "trace \<noteq> []" and "int (length trace) < 2 ^ 63"
  shows "(\<exists>A. schedule (nat cap) trace A \<and> hit_share (hits_of trace A 0 (length trace)) (length trace) = MINHitRatio trace cap) \<and>
    (\<forall>A. schedule (nat cap) trace A \<longrightarrow> hit_share (hits_of trace A 0 (length trace)) (length trace) \<le> MINHitRatio trace cap)"
  using min_run_schedule[OF assms(1), of trace 0] MINHitRatio_share[OF assms(1,2)] MINHitRatio_bound[OF assms] by auto

lemma MINHitRatio_optimal_witness:
  "\<exists>A. schedule 1 [5, 6, 5] A \<and> hit_share (hits_of [5, 6, 5] A 0 3) 3 = MINHitRatio [5, 6, 5] 1"
  using MINHitRatio_optimal[of 1 "[5, 6, 5]"] by (auto simp: numeral_3_eq_3)

text \<open>
  C40. The same is not true of \<open>MINHitRatioFrom\<close> past a warm-up, though its comment calls it the bound for
  the suffix: on this trace a schedule hits the one scored request, and the reported bound is zero.
\<close>

theorem MIN_from_is_no_bound:
  "\<exists>A. schedule 2 [1, 2, 3, 2, 3, 1] A \<and>
    MINHitRatioFrom [1, 2, 3, 2, 3, 1] 2 5 < hit_share (hits_of [1, 2, 3, 2, 3, 1] A 5 6) 1"
proof -
  let ?A = "\<lambda>n::nat. [{}, {1}, {1, 2}, {1, 3}, {1, 2}, {1, 3}, {1, 3}] ! n :: u64 set"
  have "schedule 2 [1, 2, 3, 2, 3, 1] ?A"
    by (simp add: schedule_def replace_ok_def numeral_eq_Suc All_less_Suc)
  moreover have "hits_of [1, 2, 3, 2, 3, 1] ?A 5 6 = 1"
  proof -
    have "{i. 5 \<le> i \<and> i < 6 \<and> [1, 2, 3, 2, 3, 1 :: u64] ! i \<in> ?A i} = {5::nat}"
      by (auto simp: numeral_eq_Suc less_Suc_eq)
    then show ?thesis by (simp add: hits_of_def)
  qed
  moreover have "MINHitRatioFrom [1, 2, 3, 2, 3, 1] 2 5 = Fin 0" by code_simp
  moreover have "fround F64 1 = Fin 1" using fround_int[of F64 1] by simp
  then have "hit_share 1 1 = Fin 1" using f_of_int_exact[of F64 1] by (simp add: hit_share_def)
  ultimately show ?thesis by (intro exI[of _ ?A]) simp
qed

end
