(* ===== verification/S3fifo.thy ===== *)
theory S3fifo
  imports Policy
begin

text \<open>
  \<^verbatim>\<open>internal/cache/s3fifo.go\<close>: the S3-FIFO policy. The maps \<open>inS\<close> and \<open>inM\<close> are association lists from
  a key to the generation of its live slot, the ghost set is a set, the three queues are lists with
  their head first. The theory shows that the policy's bookkeeping stays in step with the shard and
  that \<open>Victim\<close> always names a resident key in a nonempty shard within its bound on steps.
\<close>

section \<open>State and operations\<close>

datatype slot = Slot (slot_key: u64) (slot_gen: u64)

type_synonym live_map = "(u64 \<times> u64) list"

record s3fifo =
  inS :: live_map
  inM :: live_map
  inG :: "u64 set"
  q_small :: "slot list"
  q_main :: "slot list"
  ghost :: "u64 list"
  gen :: u64
  smallBytes :: int
  smallTarget :: int
  ghostTarget :: int

definition smallFraction :: int where
  "smallFraction = 10"

definition NewS3FIFO :: "int \<Rightarrow> s3fifo" where
  "NewS3FIFO shardCapacityBytes =
     (let target = go_div shardCapacityBytes smallFraction;
          target = (if target \<le> 0 then 1 else target);
          gh = go_div shardCapacityBytes 1024;
          gh = (if gh < 16 then 16 else gh)
      in \<lparr>inS = [], inM = [], inG = {}, q_small = [], q_main = [], ghost = [], gen = 0,
          smallBytes = 0, smallTarget = target, ghostTarget = gh\<rparr>)"

definition is_live :: "slot \<Rightarrow> live_map \<Rightarrow> bool" where
  "is_live s live \<longleftrightarrow> map_of live (slot_key s) = Some (slot_gen s)"

definition push :: "s3fifo \<Rightarrow> slot list \<Rightarrow> live_map \<Rightarrow> u64 \<Rightarrow> s3fifo \<times> slot list \<times> live_map" where
  "push p q live key =
     (let g = gen p + 1 in (p\<lparr>gen := g\<rparr>, q @ [Slot key g], AList.update key g live))"

definition compact :: "slot list \<Rightarrow> live_map \<Rightarrow> slot list" where
  "compact q live = (if length q \<le> 2 * length live + 64 then q else filter (\<lambda>s. is_live s live) q)"

definition OnAdmit :: "s3fifo \<Rightarrow> entry \<Rightarrow> s3fifo \<times> entry" where
  "OnAdmit p e =
     (if e_key e \<in> inG p
      then let p = p\<lparr>inG := inG p - {e_key e}\<rparr>;
               (p, q, live) = push p (q_main p) (inM p) (e_key e);
               p = p\<lparr>inM := live, q_main := compact q live\<rparr>
           in (p, e\<lparr>e_freq := 0\<rparr>)
      else let (p, q, live) = push p (q_small p) (inS p) (e_key e);
               p = p\<lparr>inS := live, q_small := compact q live\<rparr>;
               p = p\<lparr>smallBytes := wrap64 (smallBytes p + e_size e)\<rparr>
           in (p, e\<lparr>e_freq := 0\<rparr>))"

definition OnRemove :: "s3fifo \<Rightarrow> entry \<Rightarrow> s3fifo" where
  "OnRemove p e =
     (let p = (if map_of (inS p) (e_key e) \<noteq> None
               then p\<lparr>inS := AList.delete (e_key e) (inS p), smallBytes := wrap64 (smallBytes p - e_size e)\<rparr>
               else p)
      in p\<lparr>inM := AList.delete (e_key e) (inM p)\<rparr>)"

text \<open>The ghost queue drops its oldest keys while it is over target (which is at least 16).\<close>

fun trim_ghost :: "int \<Rightarrow> u64 list \<Rightarrow> u64 set \<Rightarrow> u64 list \<times> u64 set" where
  "trim_ghost target [] seen = ([], seen)"
| "trim_ghost target (k # ks) seen =
     (if target < int (length (k # ks)) then trim_ghost target ks (seen - {k}) else (k # ks, seen))"

definition rememberGhost :: "s3fifo \<Rightarrow> u64 \<Rightarrow> s3fifo" where
  "rememberGhost p key =
     (let (gh, seen) = trim_ghost (ghostTarget p) (ghost p @ [key]) (insert key (inG p))
      in p\<lparr>ghost := gh, inG := seen\<rparr>)"

text \<open>The two steps are only entered with their queue nonempty.\<close>

definition stepSmall :: "s3fifo \<Rightarrow> entries \<Rightarrow> s3fifo \<times> entries \<times> u64 option" where
  "stepSmall p es =
     (case q_small p of
        [] \<Rightarrow> (p, es, None)
      | s # q \<Rightarrow>
          let p = p\<lparr>q_small := q\<rparr> in
          if \<not> is_live s (inS p) then (p, es, None)
          else case Lookup es (slot_key s) of
            None \<Rightarrow> (p, es, None)
          | Some e \<Rightarrow>
              let p = p\<lparr>inS := AList.delete (slot_key s) (inS p), smallBytes := wrap64 (smallBytes p - e_size e)\<rparr> in
              if 0 < e_freq e
              then let (p, q, live) = push p (q_main p) (inM p) (slot_key s)
                   in (p\<lparr>q_main := q, inM := live\<rparr>, AList.update (slot_key s) (e\<lparr>e_freq := 0\<rparr>) es, None)
              else (rememberGhost p (slot_key s), es, Some (slot_key s)))"

definition stepMain :: "s3fifo \<Rightarrow> entries \<Rightarrow> s3fifo \<times> entries \<times> u64 option" where
  "stepMain p es =
     (case q_main p of
        [] \<Rightarrow> (p, es, None)
      | s # q \<Rightarrow>
          let p = p\<lparr>q_main := q\<rparr> in
          if \<not> is_live s (inM p) then (p, es, None)
          else case Lookup es (slot_key s) of
            None \<Rightarrow> (p, es, None)
          | Some e \<Rightarrow>
              if 0 < e_freq e
              then (p\<lparr>q_main := q_main p @ [s]\<rparr>,
                    AList.update (slot_key s) (e\<lparr>e_freq := e_freq e - 1\<rparr>) es, None)
              else (p, es, Some (slot_key s)))"

fun s3_loop :: "nat \<Rightarrow> s3fifo \<Rightarrow> entries \<Rightarrow> s3fifo \<times> entries \<times> u64 option" where
  "s3_loop 0 p es = (p, es, None)"
| "s3_loop (Suc steps) p es =
     (if smallTarget p \<le> smallBytes p \<and> q_small p \<noteq> [] then
        (case stepSmall p es of
           (p, es, Some key) \<Rightarrow> (p, es, Some key)
         | (p, es, None) \<Rightarrow> s3_loop steps p es)
      else if q_main p = [] then
        (if q_small p = [] then (p, es, None)
         else case stepSmall p es of
           (p, es, Some key) \<Rightarrow> (p, es, Some key)
         | (p, es, None) \<Rightarrow> s3_loop steps p es)
      else
        (case stepMain p es of
           (p, es, Some key) \<Rightarrow> (p, es, Some key)
         | (p, es, None) \<Rightarrow> s3_loop steps p es))"

definition s3_victim :: "ev_env \<Rightarrow> s3fifo \<Rightarrow> entries \<Rightarrow> int \<Rightarrow> s3fifo \<times> entries \<times> vres" where
  "s3_victim ev p es now =
     (case s3_loop (4 * (length (q_small p) + length (q_main p)) + 8) p es of
        (p, es, Some key) \<Rightarrow> (p, es, Victim key)
      | (p, es, None) \<Rightarrow> (p, es, Declined))"

definition s3_ops :: "s3fifo policy_ops" where
  "s3_ops = \<lparr>pol_name = ''s3fifo'', pol_victim = s3_victim, pol_on_access = no_hook,
     pol_on_admit = OnAdmit, pol_on_remove = OnRemove\<rparr>"

lemma s3_ops_simps [simp]:
  "pol_name s3_ops = ''s3fifo''" "pol_victim s3_ops = s3_victim" "pol_on_access s3_ops = no_hook"
  "pol_on_admit s3_ops = OnAdmit" "pol_on_remove s3_ops = OnRemove"
  by (simp_all add: s3_ops_def)

section \<open>The bookkeeping invariant\<close>

text \<open>The bytes of the resident objects that are in the probationary queue.\<close>

definition small_size :: "live_map \<Rightarrow> entry \<Rightarrow> int" where
  "small_size live e = (if map_of live (e_key e) = None then 0 else e_size e)"

definition queued :: "live_map \<Rightarrow> slot list \<Rightarrow> bool" where
  "queued live q \<longleftrightarrow> (\<forall>k g. map_of live k = Some g \<longrightarrow> Slot k g \<in> set q)"

definition live_in_step :: "live_map \<Rightarrow> live_map \<Rightarrow> entries \<Rightarrow> bool" where
  "live_in_step ls lm es \<longleftrightarrow> distinct (map fst ls) \<and> distinct (map fst lm) \<and>
     (\<forall>k. map_of es k = None \<longleftrightarrow> map_of ls k = None \<and> map_of lm k = None) \<and>
     (\<forall>k. map_of ls k = None \<or> map_of lm k = None)"

definition ghost_ok :: "s3fifo \<Rightarrow> entries \<Rightarrow> bool" where
  "ghost_ok p es \<longleftrightarrow> inG p \<subseteq> set (ghost p) \<and> int (length (ghost p)) \<le> ghostTarget p \<and>
     16 \<le> ghostTarget p \<and> (\<forall>k \<in> inG p. map_of es k = None)"

definition s3_inv :: "s3fifo \<Rightarrow> entries \<Rightarrow> bool" where
  "s3_inv p es \<longleftrightarrow> live_in_step (inS p) (inM p) es \<and> queued (inS p) (q_small p) \<and> queued (inM p) (q_main p) \<and>
     smallBytes p = wrap64 (vsum (small_size (inS p)) es) \<and> ghost_ok p es"

lemma s3_invD:
  assumes "s3_inv p es"
  shows "map_of (inS p) k = None \<or> map_of (inM p) k = None"
    and "map_of es k = None \<longleftrightarrow> map_of (inS p) k = None \<and> map_of (inM p) k = None"
  using assms unfolding s3_inv_def live_in_step_def by simp_all

section \<open>Preservation\<close>

lemma same_entries_None: "same_entries es es' \<Longrightarrow> map_of es k = None \<longleftrightarrow> map_of es' k = None"
  using same_entries_map_of[of es es' k] by (cases "map_of es k"; cases "map_of es' k") auto

lemma s3_inv_same:
  assumes "same_entries es es'"
  shows "s3_inv p es \<longleftrightarrow> s3_inv p es'"
proof -
  have "vsum (small_size l) es = vsum (small_size l) es'" for l
    by (rule same_entries_vsum[OF assms]) (simp add: small_size_def)
  with same_entries_None[OF assms] show ?thesis
    by (simp add: s3_inv_def live_in_step_def ghost_ok_def)
qed

text \<open>A change of the live map at \<open>k\<close> does not show in the sum over the other entries.\<close>

lemma small_size_other:
  assumes "wf_entries es" and "\<And>j. j \<noteq> k \<Longrightarrow> map_of l j = map_of l' j"
  shows "vsum (small_size l) (AList.delete k es) = vsum (small_size l') (AList.delete k es)"
proof (rule vsum_cong)
  fix j e assume "(j, e) \<in> set (AList.delete k es)"
  with assms(1) have "e_key e = j" "j \<noteq> k" by (auto simp: set_delete_iff wf_entries_def)
  with assms(2) show "small_size l e = small_size l' e" by (simp add: small_size_def)
qed

lemma small_size_leave:
  assumes "wf_entries es" and "map_of es k = Some e" and "map_of l k \<noteq> None"
  shows "vsum (small_size (AList.delete k l)) (AList.delete k es) = vsum (small_size l) es - e_size e"
    and "vsum (small_size (AList.delete k l)) es = vsum (small_size l) es - e_size e"
proof -
  have key: "e_key e = k" using wf_entriesD(2)[OF assms(1,2)] .
  have other: "vsum (small_size (AList.delete k l)) (AList.delete k es) = vsum (small_size l) (AList.delete k es)"
    by (rule small_size_other[OF assms(1)]) simp
  have split: "vsum f es = f e + vsum f (AList.delete k es)" for f
    by (rule vsum_split[OF wf_entriesD(1)[OF assms(1)] assms(2)])
  show "vsum (small_size (AList.delete k l)) (AList.delete k es) = vsum (small_size l) es - e_size e"
    using other split[of "small_size l"] assms(3) key by (simp add: small_size_def)
  then show "vsum (small_size (AList.delete k l)) es = vsum (small_size l) es - e_size e"
    using split[of "small_size (AList.delete k l)"] key by (simp add: small_size_def)
qed

lemma small_size_absent:
  assumes "wf_entries es" and "map_of es k = Some e" and "map_of l k = None"
  shows "vsum (small_size l) (AList.delete k es) = vsum (small_size l) es"
  using vsum_split[OF wf_entriesD(1)[OF assms(1)] assms(2), of "small_size l"]
    wf_entriesD(2)[OF assms(1,2)] assms(3) by (simp add: small_size_def)

lemma queued_delete: "queued l q \<Longrightarrow> queued (AList.delete k l) q"
  by (auto simp: queued_def)

lemma queued_push: "queued l q \<Longrightarrow> queued (AList.update k g l) (q @ [Slot k g])"
  by (auto simp: queued_def split: if_splits)

lemma queued_compact: "queued l q \<Longrightarrow> queued l (compact q l)"
  by (auto simp: queued_def compact_def is_live_def)

lemma queued_tail: "queued l (s # q) \<Longrightarrow> \<not> is_live s l \<Longrightarrow> queued l q"
  by (cases s) (auto simp: queued_def is_live_def)

lemma queued_pop: "queued l (s # q) \<Longrightarrow> queued (AList.delete (slot_key s) l) q"
  by (cases s) (auto simp: queued_def)

lemma queued_rotate: "queued l (s # q) \<Longrightarrow> queued l (q @ [s])"
  by (auto simp: queued_def)

lemma NewS3FIFO_inv: "s3_inv (NewS3FIFO c) []"
  by (simp add: s3_inv_def NewS3FIFO_def Let_def live_in_step_def queued_def ghost_ok_def wrap_simps)

lemma OnRemove_inv:
  assumes wf: "wf_entries es" and inv: "s3_inv p es" and k: "map_of es k = Some e"
  shows "s3_inv (OnRemove p e) (AList.delete k es)"
proof -
  have key [simp]: "e_key e = k" using wf_entriesD(2)[OF wf k] .
  show ?thesis
  proof (cases "map_of (inS p) k")
    case None
    with inv small_size_absent[OF wf k None] show ?thesis
      by (auto simp: s3_inv_def OnRemove_def Let_def live_in_step_def ghost_ok_def queued_delete)
  next
    case (Some g)
    with inv small_size_leave(1)[OF wf k, of "inS p"] show ?thesis
      by (auto simp: s3_inv_def OnRemove_def Let_def live_in_step_def ghost_ok_def queued_delete)
  qed
qed

lemma OnAdmit_inv:
  assumes wf: "wf_entries es" and inv: "s3_inv p es" and new: "map_of es (e_key e) = None"
    and ad: "OnAdmit p e = (p', e')"
  shows "s3_inv p' (AList.update (e_key e) e' es)"
proof -
  let ?k = "e_key e"
  have e': "e' = e\<lparr>e_freq := 0\<rparr>" using ad by (auto simp: OnAdmit_def Let_def push_def split: if_splits)
  have none: "map_of (inS p) ?k = None" "map_of (inM p) ?k = None"
    using inv new by (auto simp: s3_inv_def live_in_step_def)
  have upd: "vsum f (AList.update ?k e' es) = vsum f es + f e'" for f
    using update_new[OF new] by simp
  have other: "vsum (small_size (AList.update ?k g (inS p))) es = vsum (small_size (inS p)) es" for g
    using small_size_other[OF wf, of ?k "AList.update ?k g (inS p)" "inS p"] new by simp
  have ghost: "ghost_ok p es" using inv by (simp add: s3_inv_def)
  show ?thesis
  proof (cases "?k \<in> inG p")
    case True
    then have p': "p' = p\<lparr>inG := inG p - {?k}, gen := gen p + 1, inM := AList.update ?k (gen p + 1) (inM p),
        q_main := compact (q_main p @ [Slot ?k (gen p + 1)]) (AList.update ?k (gen p + 1) (inM p))\<rparr>"
      using ad by (simp add: OnAdmit_def Let_def push_def)
    have "live_in_step (inS p') (inM p') (AList.update ?k e' es)"
      using inv none by (simp add: p' s3_inv_def live_in_step_def)
    moreover have "ghost_ok p' (AList.update ?k e' es)" using ghost by (auto simp: p' ghost_ok_def)
    ultimately show ?thesis using inv none upd
      by (simp add: s3_inv_def p' e' small_size_def queued_push queued_compact)
  next
    case False
    then have p': "p' = p\<lparr>gen := gen p + 1, inS := AList.update ?k (gen p + 1) (inS p),
        q_small := compact (q_small p @ [Slot ?k (gen p + 1)]) (AList.update ?k (gen p + 1) (inS p)),
        smallBytes := wrap64 (smallBytes p + e_size e)\<rparr>"
      using ad by (simp add: OnAdmit_def Let_def push_def)
    have "live_in_step (inS p') (inM p') (AList.update ?k e' es)"
      using inv none by (simp add: p' s3_inv_def live_in_step_def)
    moreover have "ghost_ok p' (AList.update ?k e' es)" using ghost False by (auto simp: p' ghost_ok_def)
    moreover have "smallBytes p' = wrap64 (vsum (small_size (inS p')) (AList.update ?k e' es))"
      using inv upd other by (simp add: s3_inv_def p' e' small_size_def)
    ultimately show ?thesis using inv by (simp add: s3_inv_def p' queued_push queued_compact)
  qed
qed

lemma trim_ghost_ok:
  "trim_ghost t ks seen = (ks', seen') \<Longrightarrow> seen \<subseteq> set ks \<Longrightarrow> 0 \<le> t \<Longrightarrow>
   seen' \<subseteq> set ks' \<and> seen' \<subseteq> seen \<and> int (length ks') \<le> t"
proof (induction t ks seen rule: trim_ghost.induct)
  case (2 t k ks seen)
  show ?case
  proof (cases "t < int (length (k # ks))")
    case True
    with 2 show ?thesis by auto
  next
    case False
    with 2 show ?thesis by auto
  qed
qed auto

lemma rememberGhost_frame [simp]:
  "inS (rememberGhost p k) = inS p" "inM (rememberGhost p k) = inM p"
  "q_small (rememberGhost p k) = q_small p" "q_main (rememberGhost p k) = q_main p"
  "smallBytes (rememberGhost p k) = smallBytes p" "ghostTarget (rememberGhost p k) = ghostTarget p"
  "gen (rememberGhost p k) = gen p"
  by (simp_all add: rememberGhost_def split: prod.splits)

lemma rememberGhost_ok:
  assumes "ghost_ok p es"
  shows "ghost_ok (rememberGhost p k) (AList.delete k es)"
proof -
  obtain gh seen where t: "trim_ghost (ghostTarget p) (ghost p @ [k]) (insert k (inG p)) = (gh, seen)"
    by (cases "trim_ghost (ghostTarget p) (ghost p @ [k]) (insert k (inG p))") auto
  have "insert k (inG p) \<subseteq> set (ghost p @ [k])" "0 \<le> ghostTarget p" using assms by (auto simp: ghost_ok_def)
  from trim_ghost_ok[OF t this] assms show ?thesis
    by (auto simp: ghost_ok_def rememberGhost_def t)
qed

section \<open>The steps of a victim choice\<close>

text \<open>
  What bounds the loop: a slot of the probationary queue costs one step and at most one more in the
  main queue, a live slot of the main queue one step for each unit of its frequency and one more.
\<close>

definition weight :: "s3fifo \<Rightarrow> entries \<Rightarrow> slot \<Rightarrow> nat" where
  "weight p es s = Suc (if is_live s (inM p)
     then (case map_of es (slot_key s) of None \<Rightarrow> 0 | Some e \<Rightarrow> unat (e_freq e)) else 0)"

definition phi :: "s3fifo \<Rightarrow> entries \<Rightarrow> nat" where
  "phi p es = 2 * length (q_small p) + sum_list (map (weight p es) (q_main p))"

definition step_ok :: "s3fifo \<Rightarrow> entries \<Rightarrow> s3fifo \<times> entries \<times> u64 option \<Rightarrow> bool" where
  "step_ok p es r = (case r of (p', es', v) \<Rightarrow> same_entries es es' \<and> wf_entries es' \<and>
     (case v of
        None \<Rightarrow> s3_inv p' es' \<and> phi p' es' < phi p es
      | Some k \<Rightarrow> \<exists>e. map_of es' k = Some e \<and> s3_inv (OnRemove p' e) (AList.delete k es')))"

lemma weight_le:
  assumes "wf_entries es"
  shows "weight p es s \<le> 4"
proof -
  have "unat (e_freq e) \<le> 3" if "map_of es (slot_key s) = Some e" for e
    using wf_entriesD(3)[OF assms that] by (simp add: wf_entry_def word_le_nat_alt)
  then show ?thesis by (simp add: weight_def split: option.splits)
qed

lemma phi_bound:
  assumes "wf_entries es"
  shows "phi p es \<le> 4 * (length (q_small p) + length (q_main p))"
proof -
  have "sum_list (map (weight p es) q) \<le> 4 * length q" for q
    using weight_le[OF assms] by (induction q) (auto intro: add_mono)
  from this[of "q_main p"] show ?thesis by (simp add: phi_def)
qed

lemma weight_mono:
  assumes "\<And>j. j \<noteq> k \<Longrightarrow> map_of (inM p') j = map_of (inM p) j \<and> map_of es' j = map_of es j"
    and "slot_key s = k \<Longrightarrow> weight p' es' s \<le> weight p es s"
  shows "weight p' es' s \<le> weight p es s"
  using assms by (cases "slot_key s = k") (simp_all add: weight_def is_live_def)

lemma sum_weight_mono: "(\<And>s. weight p' es' s \<le> weight p es s) \<Longrightarrow>
    sum_list (map (weight p' es') q) \<le> sum_list (map (weight p es) q)"
  by (induction q) (auto intro: add_mono)

lemma freq_same:
  assumes "wf_entries es" and "map_of es k = Some e" and "f \<le> 3"
  shows "same_entries es (AList.update k (e\<lparr>e_freq := f\<rparr>) es)"
    and "wf_entries (AList.update k (e\<lparr>e_freq := f\<rparr>) es)"
proof -
  show "same_entries es (AList.update k (e\<lparr>e_freq := f\<rparr>) es)"
    by (rule same_entries_update[OF wf_entriesD(1)[OF assms(1)] assms(2)]) simp
  show "wf_entries (AList.update k (e\<lparr>e_freq := f\<rparr>) es)"
    using wf_entries_update[OF assms(1) wf_entry_freq[OF wf_entriesD(3)[OF assms(1,2)] assms(3)]]
      wf_entriesD(2)[OF assms(1,2)] by simp
qed

lemma stepSmall_ok:
  assumes wf: "wf_entries es" and inv: "s3_inv p es" and q: "q_small p = s # q"
  shows "step_ok p es (stepSmall p es)"
proof (cases "is_live s (inS p)")
  case False
  have "s3_inv (p\<lparr>q_small := q\<rparr>) es"
    using inv False queued_tail[of "inS p" s q] by (simp add: s3_inv_def ghost_ok_def q)
  moreover have "weight (p\<lparr>q_small := q\<rparr>) es = weight p es" by (simp add: weight_def fun_eq_iff)
  then have "phi (p\<lparr>q_small := q\<rparr>) es < phi p es" by (simp add: phi_def q)
  ultimately show ?thesis using wf False by (simp add: stepSmall_def q step_ok_def)
next
  case True
  let ?k = "slot_key s"
  have S: "map_of (inS p) ?k \<noteq> None" using True by (simp add: is_live_def)
  then obtain e where e: "map_of es ?k = Some e" using s3_invD(2)[OF inv, of ?k] by (cases "map_of es ?k") auto
  have M: "map_of (inM p) ?k = None" using s3_invD(1)[OF inv] S by metis
  have key: "e_key e = ?k" by (rule wf_entriesD(2)[OF wf e])
  have bytes: "vsum (small_size (AList.delete ?k (inS p))) es = vsum (small_size (inS p)) es - e_size e"
    by (rule small_size_leave(2)[OF wf e S])
  let ?p = "p\<lparr>q_small := q, inS := AList.delete ?k (inS p), smallBytes := wrap64 (smallBytes p - e_size e)\<rparr>"
  have qS: "queued (AList.delete ?k (inS p)) q" using inv queued_pop[of "inS p" s q] by (simp add: s3_inv_def q)
  have bp: "smallBytes ?p = wrap64 (vsum (small_size (AList.delete ?k (inS p))) es)"
    using inv bytes by (simp add: s3_inv_def)
  show ?thesis
  proof (cases "0 < e_freq e")
    case True
    let ?p' = "?p\<lparr>gen := gen p + 1, q_main := q_main p @ [Slot ?k (gen p + 1)],
        inM := AList.update ?k (gen p + 1) (inM p)\<rparr>"
    let ?es = "AList.update ?k (e\<lparr>e_freq := 0\<rparr>) es"
    have r: "stepSmall p es = (?p', ?es, None)"
      using \<open>is_live s (inS p)\<close> True e by (simp add: stepSmall_def q Lookup_def push_def Let_def)
    note same = freq_same[OF wf e, of 0, simplified]
    have "live_in_step (inS ?p') (inM ?p') es" using inv S by (auto simp: s3_inv_def live_in_step_def)
    moreover have "queued (inM ?p') (q_main ?p')" using inv queued_push by (simp add: s3_inv_def)
    moreover have "ghost_ok ?p' es" using inv by (simp add: s3_inv_def ghost_ok_def)
    ultimately have "s3_inv ?p' es" using qS bp by (simp add: s3_inv_def)
    then have "s3_inv ?p' ?es" using s3_inv_same[OF same(1)] by simp
    moreover have "weight ?p' ?es x \<le> weight p es x" for x
      by (rule weight_mono[of ?k]) (simp_all add: weight_def)
    then have "sum_list (map (weight ?p' ?es) (q_main p)) \<le> sum_list (map (weight p es) (q_main p))"
      by (rule sum_weight_mono)
    then have "phi ?p' ?es < phi p es" by (simp add: phi_def q weight_def)
    ultimately show ?thesis using same r by (simp add: step_ok_def)
  next
    case False
    let ?p' = "rememberGhost ?p ?k"
    have r: "stepSmall p es = (?p', es, Some ?k)"
      using \<open>is_live s (inS p)\<close> False e by (simp add: stepSmall_def q Lookup_def)
    have rem: "OnRemove ?p' e = ?p'\<lparr>inM := AList.delete ?k (inM p)\<rparr>" by (simp add: OnRemove_def key)
    have "live_in_step (AList.delete ?k (inS p)) (inM p) (AList.delete ?k es)"
      using inv M by (auto simp: s3_inv_def live_in_step_def)
    moreover have "queued (inM p) (q_main p)" using inv by (simp add: s3_inv_def)
    moreover have "ghost_ok ?p es" using inv by (simp add: s3_inv_def ghost_ok_def)
    then have "ghost_ok ?p' (AList.delete ?k es)" by (rule rememberGhost_ok)
    moreover have "vsum (small_size (AList.delete ?k (inS p))) (AList.delete ?k es)
        = vsum (small_size (AList.delete ?k (inS p))) es" by (rule small_size_absent[OF wf e]) simp
    ultimately have "s3_inv (?p'\<lparr>inM := AList.delete ?k (inM p)\<rparr>) (AList.delete ?k es)"
      using qS bp M by (simp add: s3_inv_def ghost_ok_def)
    then have "s3_inv (OnRemove ?p' e) (AList.delete ?k es)" unfolding rem .
    with e wf r show ?thesis by (simp add: step_ok_def)
  qed
qed

lemma stepMain_ok:
  assumes wf: "wf_entries es" and inv: "s3_inv p es" and q: "q_main p = s # q"
  shows "step_ok p es (stepMain p es)"
proof (cases "is_live s (inM p)")
  case False
  have "s3_inv (p\<lparr>q_main := q\<rparr>) es"
    using inv False queued_tail[of "inM p" s q] by (simp add: s3_inv_def ghost_ok_def q)
  moreover have "weight (p\<lparr>q_main := q\<rparr>) es = weight p es" by (simp add: weight_def fun_eq_iff)
  then have "phi (p\<lparr>q_main := q\<rparr>) es < phi p es" by (simp add: phi_def q) (simp add: weight_def)
  ultimately show ?thesis using wf False by (simp add: stepMain_def q step_ok_def)
next
  case True
  let ?k = "slot_key s"
  have M: "map_of (inM p) ?k \<noteq> None" using True by (simp add: is_live_def)
  then obtain e where e: "map_of es ?k = Some e" using s3_invD(2)[OF inv, of ?k] by (cases "map_of es ?k") auto
  have S: "map_of (inS p) ?k = None" using s3_invD(1)[OF inv] M by metis
  have key: "e_key e = ?k" by (rule wf_entriesD(2)[OF wf e])
  show ?thesis
  proof (cases "0 < e_freq e")
    case f: True
    let ?p' = "p\<lparr>q_main := q @ [s]\<rparr>" and ?es = "AList.update ?k (e\<lparr>e_freq := e_freq e - 1\<rparr>) es"
    have r: "stepMain p es = (?p', ?es, None)" using True f e by (simp add: stepMain_def q Lookup_def)
    have dec: "Suc (unat (e_freq e - 1)) = unat (e_freq e)"
      using f by (metis Suc_pred' unat_gt_0 unat_minus_one word_gt_0)
    have le: "e_freq e - 1 \<le> 3"
      using dec wf_entriesD(3)[OF wf e] by (simp add: wf_entry_def word_le_nat_alt)
    note same = freq_same[OF wf e le]
    have "s3_inv ?p' es" using inv queued_rotate[of "inM p" s q] by (simp add: s3_inv_def ghost_ok_def q)
    then have "s3_inv ?p' ?es" using s3_inv_same[OF same(1)] by simp
    moreover have "weight ?p' ?es x \<le> weight p es x" for x
      by (rule weight_mono[of ?k]) (use e dec in \<open>simp_all add: weight_def is_live_def\<close>)
    then have "sum_list (map (weight ?p' ?es) q) \<le> sum_list (map (weight p es) q)"
      by (rule sum_weight_mono)
    moreover have "weight ?p' ?es s < weight p es s"
      using True e dec by (simp add: weight_def is_live_def)
    ultimately show ?thesis using same r by (simp add: step_ok_def phi_def q)
  next
    case False
    let ?p' = "p\<lparr>q_main := q\<rparr>"
    have r: "stepMain p es = (?p', es, Some ?k)" using True False e by (simp add: stepMain_def q Lookup_def)
    have rem: "OnRemove ?p' e = ?p'\<lparr>inM := AList.delete ?k (inM p)\<rparr>" by (simp add: OnRemove_def key S)
    have "live_in_step (inS p) (AList.delete ?k (inM p)) (AList.delete ?k es)"
      using inv S by (auto simp: s3_inv_def live_in_step_def)
    moreover have "queued (AList.delete ?k (inM p)) q" using inv queued_pop[of "inM p" s q] by (simp add: s3_inv_def q)
    moreover have "ghost_ok p (AList.delete ?k es)" using inv by (auto simp: s3_inv_def ghost_ok_def)
    ultimately have "s3_inv (OnRemove ?p' e) (AList.delete ?k es)"
      using inv small_size_absent[OF wf e S] by (simp add: s3_inv_def rem ghost_ok_def)
    with e wf r show ?thesis by (simp add: step_ok_def)
  qed
qed

section \<open>The loop\<close>

lemma s3_loop_ok:
  assumes "wf_entries es" and "s3_inv p es"
  shows "case s3_loop n p es of (p', es', v) \<Rightarrow> same_entries es es' \<and> wf_entries es' \<and>
     (case v of
        None \<Rightarrow> s3_inv p' es' \<and> (phi p es < n \<longrightarrow> es = [])
      | Some k \<Rightarrow> \<exists>e. map_of es' k = Some e \<and> s3_inv (OnRemove p' e) (AList.delete k es'))"
  using assms
proof (induction n arbitrary: p es)
  case 0
  then show ?case by simp
next
  case (Suc n)
  let ?goal = "\<lambda>p es n r. case r of (p', es', v) \<Rightarrow> same_entries es es' \<and> wf_entries es' \<and>
     (case v of
        None \<Rightarrow> s3_inv p' es' \<and> (phi p es < n \<longrightarrow> es = [])
      | Some k \<Rightarrow> \<exists>e. map_of es' k = Some e \<and> s3_inv (OnRemove p' e) (AList.delete k es'))"
  have one: "?goal p es (Suc n) (case st of (p, es, Some k) \<Rightarrow> (p, es, Some k) | (p, es, None) \<Rightarrow> s3_loop n p es)"
    if ok: "step_ok p es st" for st
  proof -
    obtain p' es' v where st: "st = (p', es', v)" by (cases st) auto
    show ?thesis
    proof (cases v)
      case (Some k)
      with ok show ?thesis by (simp add: step_ok_def st)
    next
      case None
      with ok have s: "same_entries es es'" "wf_entries es'" "s3_inv p' es'" "phi p' es' < phi p es"
        by (simp_all add: step_ok_def st)
      from Suc.IH[OF s(2,3)] have IH: "?goal p' es' n (s3_loop n p' es')" .
      have "phi p es < Suc n \<Longrightarrow> phi p' es' < n" using s(4) by simp
      moreover have "es' = [] \<longleftrightarrow> es = []" using same_entries_length[OF s(1)] by auto
      ultimately show ?thesis using IH same_entries_trans[OF s(1)]
        by (simp add: st None split: prod.splits option.splits)
    qed
  qed
  show ?case
  proof (cases "q_small p = [] \<and> q_main p = []")
    case True
    have "map_of es k = None" for k
      using Suc.prems(2) True by (cases "map_of (inS p) k"; cases "map_of (inM p) k")
        (auto simp: s3_inv_def queued_def live_in_step_def)
    then have "es = []" by (metis map_of_eq_empty_iff ext)
    with True Suc.prems show ?thesis by simp
  next
    case False
    have S: "step_ok p es (stepSmall p es)" if "q_small p \<noteq> []"
      using that stepSmall_ok[OF Suc.prems] by (cases "q_small p") auto
    have M: "step_ok p es (stepMain p es)" if "q_main p \<noteq> []"
      using that stepMain_ok[OF Suc.prems] by (cases "q_main p") auto
    show ?thesis
    proof (cases "(smallTarget p \<le> smallBytes p \<and> q_small p \<noteq> []) \<or> q_main p = []")
      case True
      with False have "s3_loop (Suc n) p es =
          (case stepSmall p es of (p, es, Some k) \<Rightarrow> (p, es, Some k) | (p, es, None) \<Rightarrow> s3_loop n p es)" by auto
      with one[OF S] True False show ?thesis by metis
    next
      case main: False
      then have "s3_loop (Suc n) p es =
          (case stepMain p es of (p, es, Some k) \<Rightarrow> (p, es, Some k) | (p, es, None) \<Rightarrow> s3_loop n p es)" by auto
      with one[OF M] main show ?thesis by metis
    qed
  qed
qed

lemma s3_victim_ok:
  assumes wf: "wf_entries es" and inv: "s3_inv p es" and v: "s3_victim ev p es now = (p', es', v)"
  shows "same_entries es es' \<and> wf_entries es' \<and>
     (case v of
        Victim k \<Rightarrow> \<exists>e. map_of es' k = Some e \<and> s3_inv (OnRemove p' e) (AList.delete k es')
      | Declined \<Rightarrow> es = [] \<and> s3_inv p' es'
      | Aborted \<Rightarrow> False)"
proof -
  have "phi p es < 4 * (length (q_small p) + length (q_main p)) + 8" using phi_bound[OF wf, of p] by linarith
  with s3_loop_ok[OF wf inv, of "4 * (length (q_small p) + length (q_main p)) + 8"] v
  show ?thesis by (auto simp: s3_victim_def split: prod.splits option.splits)
qed

section \<open>S3-FIFO keeps the laws and always makes room\<close>

interpretation s3: evicting_policy s3_ops NewS3FIFO s3_inv "\<lambda>_. True"
proof (intro evicting_policy.intro policy_laws.intro evicting_policy_axioms.intro)
  fix es p ev now p' es' v assume *: "wf_entries es" "s3_inv p es" "pol_victim s3_ops ev p es now = (p', es', v)"
  then show "same_entries es es' \<and> wf_entries es'" using s3_victim_ok[of es p ev now p' es' v] by simp
next
  fix es p ev now p' es' k assume "wf_entries es" "s3_inv p es" "pol_victim s3_ops ev p es now = (p', es', Victim k)"
  then show "\<exists>e. map_of es' k = Some e \<and> s3_inv (pol_on_remove s3_ops p' e) (AList.delete k es')"
    using s3_victim_ok[of es p ev now p' es' "Victim k"] by simp
next
  fix es p ev now p' es' assume "wf_entries es" "s3_inv p es" "pol_victim s3_ops ev p es now = (p', es', Declined)"
  then show "s3_inv p' es'" using s3_victim_ok[of es p ev now p' es' Declined] by simp
next
  fix es p ev now assume "wf_entries es" "s3_inv p es"
  then show "snd (snd (pol_victim s3_ops ev p es now)) \<noteq> Aborted"
    using s3_victim_ok[of es p ev now] by (cases "s3_victim ev p es now") fastforce
next
  fix es p ev now assume "wf_entries es" "s3_inv p es" "es \<noteq> []"
  then show "\<exists>k. snd (snd (pol_victim s3_ops ev p es now)) = Victim k"
    using s3_victim_ok[of es p ev now] by (cases "s3_victim ev p es now") (auto split: vres.splits)
next
  fix es p k e now p' e'
  assume wf: "wf_entries es" and inv: "s3_inv p es" and k: "map_of es k = Some e"
    and a: "pol_on_access s3_ops p (touch now e) = (p', e')"
  have "vsum (small_size l) (AList.update k (touch now e) es) = vsum (small_size l) es" for l
    using vsum_update_old[OF wf_entriesD(1)[OF wf] k] by (simp add: small_size_def)
  moreover have "map_of (AList.update k (touch now e) es) j = None \<longleftrightarrow> map_of es j = None" for j
    using k by simp
  ultimately have "s3_inv p (AList.update k (touch now e) es)"
    using inv unfolding s3_inv_def live_in_step_def ghost_ok_def by metis
  with a touch_freq_le[OF wf_entriesD(3)[OF wf k], of now]
  show "clear_freq e' = clear_freq (touch now e) \<and> e_freq e' \<le> 3 \<and> s3_inv p' (AList.update k e' es)"
    by (simp add: no_hook_def)
next
  fix es p e p' e'
  assume "wf_entries es" "s3_inv p es" "map_of es (e_key e) = None" "wf_entry e"
    and a: "pol_on_admit s3_ops p e = (p', e')"
  then have "s3_inv p' (AList.update (e_key e) e' es)" using OnAdmit_inv[of es p e p' e'] by simp
  moreover have "e' = e\<lparr>e_freq := 0\<rparr>" using a by (auto simp: OnAdmit_def Let_def push_def split: if_splits)
  ultimately show "clear_freq e' = clear_freq e \<and> e_freq e' \<le> 3 \<and> s3_inv p' (AList.update (e_key e) e' es)"
    by simp
qed (simp_all add: NewS3FIFO_inv OnRemove_inv)

end
