(* ===== verification/Node_Policy.thy ===== *)
theory Node_Policy
  imports S3fifo Lrb Cache_Store
begin

text \<open>
  \<open>newPolicy\<close> of \<^verbatim>\<open>cmd/cachenode/main.go\<close>: the policy a node runs is chosen by name. A value of the
  interface type \<open>Policy\<close> is one of the code's implementations, the datatype \<open>any_policy\<close>, and a
  method call on it dispatches on the constructor. The theory shows that every policy a node can be
  configured with keeps the laws, so the shard's theorems hold for the node whatever its configuration.
\<close>

section \<open>Dispatch\<close>

datatype any_policy = IsSampled sampled | IsS3fifo s3fifo | IsLrb lrb

definition any_victim :: "ev_env \<Rightarrow> any_policy \<Rightarrow> entries \<Rightarrow> int \<Rightarrow> any_policy \<times> entries \<times> vres" where
  "any_victim ev p es now =
     (case p of
        IsSampled q \<Rightarrow> map_prod IsSampled id (sampled_victim ev q es now)
      | IsS3fifo q \<Rightarrow> map_prod IsS3fifo id (s3_victim ev q es now)
      | IsLrb q \<Rightarrow> map_prod IsLrb id (lrb_victim ev q es now))"

definition any_on_access :: "any_policy \<Rightarrow> entry \<Rightarrow> any_policy \<times> entry" where
  "any_on_access p e = no_hook p e"

definition any_on_admit :: "any_policy \<Rightarrow> entry \<Rightarrow> any_policy \<times> entry" where
  "any_on_admit p e =
     (case p of
        IsSampled q \<Rightarrow> map_prod IsSampled id (no_hook q e)
      | IsS3fifo q \<Rightarrow> map_prod IsS3fifo id (OnAdmit q e)
      | IsLrb q \<Rightarrow> map_prod IsLrb id (no_hook q e))"

definition any_on_remove :: "any_policy \<Rightarrow> entry \<Rightarrow> any_policy" where
  "any_on_remove p e =
     (case p of
        IsSampled q \<Rightarrow> IsSampled (no_remove q e)
      | IsS3fifo q \<Rightarrow> IsS3fifo (OnRemove q e)
      | IsLrb q \<Rightarrow> IsLrb (no_remove q e))"

definition node_ops :: "string \<Rightarrow> any_policy policy_ops" where
  "node_ops name = \<lparr>pol_name = name, pol_victim = any_victim, pol_on_access = any_on_access,
     pol_on_admit = any_on_admit, pol_on_remove = any_on_remove\<rparr>"

lemma node_ops_simps [simp]:
  "pol_name (node_ops name) = name" "pol_victim (node_ops name) = any_victim"
  "pol_on_access (node_ops name) = any_on_access" "pol_on_admit (node_ops name) = any_on_admit"
  "pol_on_remove (node_ops name) = any_on_remove"
  by (simp_all add: node_ops_def)

text \<open>
  The constructor for a name, or an error that carries it; \<open>sample\<close> is the setting
  \<open>CACHE_SAMPLE_SIZE\<close>. The model holder the learned policy shares is part of the environment.
\<close>

definition newPolicy :: "string \<Rightarrow> int \<Rightarrow> string + (int \<Rightarrow> any_policy)" where
  "newPolicy name sample =
     (if name = ''lru'' then Inr (\<lambda>_. IsSampled (NewLRU sample))
      else if name = ''lfu'' then Inr (\<lambda>_. IsSampled (NewLFU sample))
      else if name = ''s3fifo'' then Inr (\<lambda>c. IsS3fifo (NewS3FIFO c))
      else if name = ''lrb'' then Inr (\<lambda>_. IsLrb (NewLRB sample))
      else Inl name)"

section \<open>Every configurable policy keeps the laws\<close>

definition any_inv :: "any_policy \<Rightarrow> entries \<Rightarrow> bool" where
  "any_inv p es =
     (case p of
        IsSampled q \<Rightarrow> 0 < smp_n q \<and> (smp_score q = lru_score \<or> smp_score q = lfu_score)
      | IsS3fifo q \<Rightarrow> s3_inv q es
      | IsLrb q \<Rightarrow> lrb_inv q es)"

lemma any_sampled:
  assumes "any_inv (IsSampled q) es"
  shows "\<exists>n. sampled_inv (int (Suc n)) lru_score q es \<or> sampled_inv (int (Suc n)) lfu_score q es"
proof -
  have "0 < smp_n q" using assms by (simp add: any_inv_def)
  then obtain n where "smp_n q = int (Suc n)" by (metis gr0_implies_Suc zero_less_imp_eq_int)
  with assms show ?thesis by (auto simp: any_inv_def sampled_inv_def)
qed

lemma any_victim_same:
  assumes "wf_entries es" and "any_inv p es" and "any_victim ev p es now = (p', es', v)"
  shows "same_entries es es' \<and> wf_entries es'"
proof (cases p)
  case (IsSampled q)
  with assms show ?thesis by (cases "sampled_victim ev q es now") (auto simp: any_victim_def dest: sampled_victimD)
next
  case (IsS3fifo q)
  with assms obtain q' where "s3_victim ev q es now = (q', es', v)"
    by (cases "s3_victim ev q es now") (auto simp: any_victim_def)
  with s3.victim_same[of es q ev now q' es' v] assms IsS3fifo show ?thesis by (simp add: any_inv_def)
next
  case (IsLrb q)
  with assms obtain q' where "lrb_victim ev q es now = (q', es', v)"
    by (cases "lrb_victim ev q es now") (auto simp: any_victim_def)
  with learned.victim_same[of es q ev now q' es' v] assms IsLrb show ?thesis by (simp add: any_inv_def)
qed

lemma any_victim_resident:
  assumes "wf_entries es" and "any_inv p es" and "any_victim ev p es now = (p', es', Victim k)"
  shows "\<exists>e. map_of es' k = Some e \<and> any_inv (any_on_remove p' e) (AList.delete k es')"
proof (cases p)
  case (IsSampled q)
  with assms obtain q' where v: "sampled_victim ev q es now = (q', es', Victim k)" and p': "p' = IsSampled q'"
    by (cases "sampled_victim ev q es now") (auto simp: any_victim_def)
  from smpl.victim_resident[of es "smp_n q" "smp_score q" q _ ev now q' es' k] v assms(1)
  obtain e where "map_of es' k = Some e" by (auto simp: sampled_inv_def)
  with sampled_victimD(2,3)[OF v] assms(2) p' IsSampled show ?thesis
    by (auto simp: any_inv_def any_on_remove_def no_remove_def)
next
  case (IsS3fifo q)
  with assms obtain q' where "s3_victim ev q es now = (q', es', Victim k)" and "p' = IsS3fifo q'"
    by (cases "s3_victim ev q es now") (auto simp: any_victim_def)
  with s3.victim_resident[of es q ev now q' es' k] assms IsS3fifo show ?thesis
    by (auto simp: any_inv_def any_on_remove_def)
next
  case (IsLrb q)
  with assms obtain q' where "lrb_victim ev q es now = (q', es', Victim k)" and "p' = IsLrb q'"
    by (cases "lrb_victim ev q es now") (auto simp: any_victim_def)
  with learned.victim_resident[of es q ev now q' es' k] assms IsLrb show ?thesis
    by (auto simp: any_inv_def any_on_remove_def)
qed

lemma any_victim_declined:
  assumes "wf_entries es" and "any_inv p es" and "any_victim ev p es now = (p', es', Declined)"
  shows "any_inv p' es'"
proof (cases p)
  case (IsSampled q)
  with assms show ?thesis
    using sampled_victimD(2,3)[of ev q es now] by (cases "sampled_victim ev q es now") (auto simp: any_victim_def any_inv_def)
next
  case (IsS3fifo q)
  with assms obtain q' where "s3_victim ev q es now = (q', es', Declined)" and "p' = IsS3fifo q'"
    by (cases "s3_victim ev q es now") (auto simp: any_victim_def)
  with s3.victim_declined[of es q ev now q' es'] assms IsS3fifo show ?thesis by (simp add: any_inv_def)
next
  case (IsLrb q)
  with assms obtain q' where "lrb_victim ev q es now = (q', es', Declined)" and "p' = IsLrb q'"
    by (cases "lrb_victim ev q es now") (auto simp: any_victim_def)
  with learned.victim_declined[of es q ev now q' es'] assms IsLrb show ?thesis by (simp add: any_inv_def)
qed

lemma any_victim_found:
  assumes "wf_entries es" and "any_inv p es" and "lrb_env_ok ev"
  shows "snd (snd (any_victim ev p es now)) \<noteq> Aborted"
    and "es \<noteq> [] \<Longrightarrow> \<exists>k. snd (snd (any_victim ev p es now)) = Victim k"
proof -
  have proj: "snd (snd (any_victim ev p es now)) = (case p of
      IsSampled q \<Rightarrow> snd (snd (sampled_victim ev q es now))
    | IsS3fifo q \<Rightarrow> snd (snd (s3_victim ev q es now))
    | IsLrb q \<Rightarrow> snd (snd (lrb_victim ev q es now)))"
    by (simp add: any_victim_def split: any_policy.split)
  show "snd (snd (any_victim ev p es now)) \<noteq> Aborted"
    using assms smpl.victim_returns[where ev = ev and now = now, OF assms(1)] s3.victim_returns[OF assms(1), of _ ev now]
      learned.victim_returns[OF assms(1) _ assms(3), of _ now]
    unfolding proj by (auto simp: any_inv_def sampled_inv_def split: any_policy.splits)
  assume ne: "es \<noteq> []"
  show "\<exists>k. snd (snd (any_victim ev p es now)) = Victim k"
  proof (cases p)
    case (IsSampled q)
    with assms(2) obtain n where "sampled_inv (int (Suc n)) lru_score q es \<or> sampled_inv (int (Suc n)) lfu_score q es"
      using any_sampled by auto
    with lru.victim_found[OF assms(1) _ ne, of n q ev now] lfu.victim_found[OF assms(1) _ ne, of n q ev now] IsSampled
    show ?thesis unfolding proj by auto
  next
    case (IsS3fifo q)
    with s3.victim_found[OF assms(1) _ ne, of q ev now] assms(2) show ?thesis unfolding proj by (simp add: any_inv_def)
  next
    case (IsLrb q)
    with learned.victim_found[OF assms(1) _ ne assms(3), of q now] assms(2) show ?thesis unfolding proj
      by (simp add: any_inv_def)
  qed
qed

lemma any_on_access_ok:
  assumes "wf_entries es" and "any_inv p es" and "map_of es k = Some e" and "any_on_access p (touch now e) = (p', e')"
  shows "clear_freq e' = clear_freq (touch now e) \<and> e_freq e' \<le> 3 \<and> any_inv p' (AList.update k e' es)"
proof (cases p)
  case (IsSampled q)
  with assms touch_freq_le[OF wf_entriesD(3)[OF assms(1,3)], of now] show ?thesis
    by (auto simp: any_on_access_def no_hook_def any_inv_def)
next
  case (IsS3fifo q)
  with assms s3.access_inv[of es q k e now q "touch now e"] show ?thesis
    by (auto simp: any_on_access_def no_hook_def any_inv_def)
next
  case (IsLrb q)
  with assms learned.access_inv[of es q k e now q "touch now e"] show ?thesis
    by (auto simp: any_on_access_def no_hook_def any_inv_def)
qed

lemma any_on_admit_ok:
  assumes "wf_entries es" and "any_inv p es" and "map_of es (e_key e) = None" and "wf_entry e"
    and "any_on_admit p e = (p', e')"
  shows "clear_freq e' = clear_freq e \<and> e_freq e' \<le> 3 \<and> any_inv p' (AList.update (e_key e) e' es)"
proof (cases p)
  case (IsSampled q)
  with assms show ?thesis by (auto simp: any_on_admit_def no_hook_def any_inv_def wf_entry_def)
next
  case (IsS3fifo q)
  with assms obtain q' where "OnAdmit q e = (q', e')" and "p' = IsS3fifo q'"
    by (cases "OnAdmit q e") (auto simp: any_on_admit_def)
  with s3.admit_inv[of es q e q' e'] assms IsS3fifo show ?thesis by (simp add: any_inv_def)
next
  case (IsLrb q)
  with assms learned.admit_inv[of es q e q e] show ?thesis by (auto simp: any_on_admit_def no_hook_def any_inv_def)
qed

lemma any_on_remove_ok:
  assumes "wf_entries es" and "any_inv p es" and "map_of es k = Some e"
  shows "any_inv (any_on_remove p e) (AList.delete k es)"
  using assms s3.remove_inv[OF assms(1) _ assms(3)] learned.remove_inv[OF assms(1) _ assms(3)]
  by (cases p) (simp_all add: any_inv_def any_on_remove_def no_remove_def)

lemma newPolicy_inv:
  assumes "newPolicy name sample = Inr mk" and "0 < sample"
  shows "any_inv (mk c) []"
  using assms s3.new_inv[of c] learned.new_inv[of sample]
  by (auto simp: newPolicy_def any_inv_def NewLRU_def NewLFU_def newSampled_def split: if_splits)

text \<open>
  The interpretation every theorem about a node rests on. Its constructor is that of S3-FIFO; the
  facts about the operations do not depend on it, and \<open>newPolicy_inv\<close> covers the other constructors.
\<close>

interpretation node: evicting_policy "node_ops name" "\<lambda>c. IsS3fifo (NewS3FIFO c)" any_inv lrb_env_ok
proof (intro evicting_policy.intro policy_laws.intro evicting_policy_axioms.intro)
  fix c show "any_inv (IsS3fifo (NewS3FIFO c)) []" using s3.new_inv by (simp add: any_inv_def)
next
  fix es p ev now p' es' v
  assume "wf_entries es" "any_inv p es" "pol_victim (node_ops name) ev p es now = (p', es', v)"
  then show "same_entries es es' \<and> wf_entries es'" using any_victim_same[of es p ev now p' es' v] by simp
next
  fix es p ev now p' es' k
  assume "wf_entries es" "any_inv p es" "pol_victim (node_ops name) ev p es now = (p', es', Victim k)"
  then show "\<exists>e. map_of es' k = Some e \<and> any_inv (pol_on_remove (node_ops name) p' e) (AList.delete k es')"
    using any_victim_resident[of es p ev now p' es' k] by simp
next
  fix es p ev now p' es'
  assume "wf_entries es" "any_inv p es" "pol_victim (node_ops name) ev p es now = (p', es', Declined)"
  then show "any_inv p' es'" using any_victim_declined[of es p ev now p' es'] by simp
next
  fix es p ev now assume "wf_entries es" "any_inv p es" "lrb_env_ok ev"
  then show "snd (snd (pol_victim (node_ops name) ev p es now)) \<noteq> Aborted"
    using any_victim_found(1)[of es p ev now] by simp
next
  fix es p ev now assume "wf_entries es" "any_inv p es" "es \<noteq> []" "lrb_env_ok ev"
  then show "\<exists>k. snd (snd (pol_victim (node_ops name) ev p es now)) = Victim k"
    using any_victim_found(2)[of es p ev now] by simp
qed (simp_all add: any_on_access_ok any_on_admit_ok any_on_remove_ok)

end
