(* ===== verification/Cache_Properties.thy ===== *)
theory Cache_Properties
  imports Node_Policy
begin

text \<open>
  The claims about one shard: its trace ring, the history its entries keep, the eviction policies, the
  reads and the hash that names an object.
\<close>

section \<open>Trace ring and entry history\<close>

text \<open>
  C25. The ring is a queue: over every run of pushes and drains, the records drained, followed by those
  still queued, are exactly the records accepted, in the order they were pushed, through every
  wrap-around of the cursors.
\<close>

theorem ring_is_fifo:
  assumes "NewRing n denom = Some r" and "n \<le> 2 ^ 62"
    and "qrun ring_push ring_drain r cs = (r', acc, out)"
  shows "out @ ring_items r' = acc"
  using spsc.qrun_fifo[OF NewRing_inv(1)[OF assms(1,2)] assms(3)] NewRing_inv(2)[OF assms(1,2)] by simp

lemma ring_is_fifo_witness:
  "\<exists>r r' acc out. NewRing 2 1 = Some r \<and> qrun ring_push ring_drain r [Push zero_rec, Push zero_rec, Push zero_rec, Drain 1] = (r', acc, out) \<and>
    out @ ring_items r' = acc"
proof -
  obtain r where r: "NewRing 2 1 = Some r" by (simp add: NewRing_def roundUpPow2_def shl_bits_len_def wrap_simps Let_def)
  obtain r' acc out where run: "qrun ring_push ring_drain r [Push zero_rec, Push zero_rec, Push zero_rec, Drain 1] = (r', acc, out)"
    by (rule prod_cases3)
  from ring_is_fifo[OF r _ run] r run show ?thesis by simp
qed

text \<open>
  An entry's history after any run of accesses: the access count saturates instead of wrapping, the
  frequency saturates at 3, and the deltas are the last eight gaps, newest first.
\<close>

lemma access_history:
  assumes "wf_entry e"
  shows "unat (e_accesses (touches ts e)) = min (2 ^ 32 - 1) (unat (e_accesses e) + length ts) \<and>
    unat (e_freq (touches ts e)) = min 3 (unat (e_freq e) + length ts) \<and>
    deltas (touches ts e) = take HistoryLen (rev (gaps (last_access e) ts) @ deltas e) \<and> wf_entry (touches ts e)"
  using touches_accesses touches_freq[OF assms] touches_deltas[OF wf_entryD(1)[OF assms]] wf_touches[OF assms] by blast

lemma access_history_witness: "unat (e_freq (touches [5, 6, 7, 8] (new_entry 1 [2] 0 0))) = 3"
  using access_history[OF wf_new_entry[of "[2]" 1 0 0], of "[5, 6, 7, 8]"] by (simp add: new_entry_def)

section \<open>Eviction policies\<close>



text \<open>
  C34. With a model installed, the learned policy evicts, among the entries sampled, one of the highest
  predicted score, and it evicts whenever the shard holds anything.
\<close>

theorem learned_evicts_highest:
  assumes "holder_now ev = Some l" and "wf_model (l_model l)" and "num_features (l_model l) = int Count"
    and "lrb_inv p es" and "es \<noteq> []" and "\<And>e. model_score (l_model l) now e \<noteq> NaN"
  shows "\<exists>p' e. lrb_victim ev p es now = (p', es, Victim (e_key e)) \<and> e \<in> set (candidates ev (lrb_n p) es) \<and>
    (\<forall>x \<in> set (candidates ev (lrb_n p) es). model_score (l_model l) now x \<le> model_score (l_model l) now e)"
proof -
  let ?f = "model_score (l_model l) now"
  have inv: "0 < lrb_n p" "length (scratch p) = Count" using assms(4) by (simp_all add: lrb_inv_def)
  obtain p' where v: "lrb_victim ev p es now =
      (p', es, case lrb_choice ev p (l_model l) es now of None \<Rightarrow> Declined | Some e \<Rightarrow> Victim (e_key e))"
    using lrb_victim_choice[OF assms(1-3) inv(2)] by blast
  obtain c cs where c: "candidates ev (lrb_n p) es = c # cs"
    using candidates_ne[OF inv(1) assms(5)] by (cases "candidates ev (lrb_n p) es") auto
  obtain e where e: "argmax_from ?f (?f c) (Some c) cs = Some e"
    using argmax_from_Some[of "Some c" ?f "?f c" cs] by auto
  have "(\<forall>x \<in> set cs. ?f x \<le> ?f e) \<and> ?f c \<le> ?f e"
    by (rule argmax_from_max[OF assms(6) assms(6) e]) simp
  moreover have "e \<in> set (c # cs)" using argmax_from_in[OF e] by auto
  ultimately show ?thesis using v e c by (auto simp: lrb_choice_def)
qed

definition leaf_model :: model where
  "leaf_model = \<lparr>objective = ''binary'', nodes = [], leaves = [Fin 1], roots = [- 1], sigmoid = Fin 1, num_features = int Count\<rparr>"

lemma leaf_model_ok: "wf_model leaf_model"
  by (simp add: wf_model_def leaf_model_def tree_at_leaf compl_def layout_defs)

lemma leaf_score: "model_score leaf_model now e \<noteq> NaN"
proof -
  have "fadd F32 (Fin 0) (Fin 1) \<noteq> NaN" by simp
  then show ?thesis
    by (simp add: model_score_def extract_columns) (simp add: Raw_def leaf_model_def go_nth_def compl_def)
qed

lemma learned_evicts_highest_witness:
  "\<exists>p' k. lrb_victim \<lparr>clock_start = 0, clock_end = 1, range_seed = [0], holder_now = Some \<lparr>l_model = leaf_model, l_version = [], l_boundary = 5\<rparr>\<rparr>
    (NewLRB 8) [(9, new_entry 9 [1] 0 0)] 50 = (p', [(9, new_entry 9 [1] 0 0)], Victim k)"
proof -
  let ?ev = "\<lparr>clock_start = 0, clock_end = 1, range_seed = [0], holder_now = Some \<lparr>l_model = leaf_model, l_version = [], l_boundary = 5\<rparr>\<rparr>"
  have inv: "lrb_inv (NewLRB 8) [(9, new_entry 9 [1] 0 0)]"
    by (simp add: lrb_inv_def NewLRB_def NewLRU_def newSampled_def)
  have h: "holder_now ?ev = Some \<lparr>l_model = leaf_model, l_version = [], l_boundary = 5\<rparr>" by simp
  have m: "wf_model (l_model \<lparr>l_model = leaf_model, l_version = [], l_boundary = 5\<rparr>)"
    "num_features (l_model \<lparr>l_model = leaf_model, l_version = [], l_boundary = 5\<rparr>) = int Count"
    "\<And>e. model_score (l_model \<lparr>l_model = leaf_model, l_version = [], l_boundary = 5\<rparr>) 50 e \<noteq> NaN"
    using leaf_model_ok leaf_score by simp_all (simp add: leaf_model_def)
  from learned_evicts_highest[OF h m(1,2) inv list.distinct(2) m(3)] show ?thesis by blast
qed

text \<open>
  C13. S3-FIFO's victim search ends for every state of its queues that the invariant allows: it never runs
  out of rounds, finds a resident victim whenever the shard holds anything, declines only when it is
  empty, and leaves the invariant for what remains.
\<close>

theorem s3_search_ends:
  assumes "wf_entries es" and "s3_inv p es" and "s3_victim ev p es now = (p', es', v)"
  shows "case v of
      Victim k \<Rightarrow> \<exists>e. map_of es' k = Some e \<and> s3_inv (OnRemove p' e) (AList.delete k es')
    | Declined \<Rightarrow> es = [] \<and> s3_inv p' es'
    | Aborted \<Rightarrow> False"
  using s3_victim_ok[OF assms] by blast

lemma s3_search_ends_witness:
  "\<exists>p' es'. s3_victim \<lparr>clock_start = 0, clock_end = 1, range_seed = [0], holder_now = None\<rparr> (NewS3FIFO 100) [] 5 = (p', es', Declined) \<and> s3_inv p' es'"
proof -
  let ?v = "s3_victim \<lparr>clock_start = 0, clock_end = 1, range_seed = [0], holder_now = None\<rparr> (NewS3FIFO 100) [] 5"
  obtain p' es' v where v: "?v = (p', es', v)" by (rule prod_cases3)
  have same: "es' = []" using s3_victim_ok[OF wf_entries_Nil NewS3FIFO_inv v] by (auto simp: same_entries_def)
  from s3_search_ends[OF wf_entries_Nil NewS3FIFO_inv v] v same show ?thesis by (cases v) auto
qed

section \<open>Reads\<close>

text \<open>
  C32. A read of a shard, under any policy a node can run, returns the value if and only if the key is
  resident and not expired; it counts as one hit or one miss, and an expired entry is gone afterwards.
\<close>

theorem get_serves_live:
  assumes "shard_inv any_inv s" and "get (node_ops name) k now s = (r, s')"
  shows "r = (case map_of (sm s) k of None \<Rightarrow> None | Some e \<Rightarrow> if expired e now then None else Some (e_value e)) \<and>
    hits s' + misses s' = hits s + misses s + 1 \<and> hits s' = (if r = None then hits s else hits s + 1) \<and>
    (r = None \<longleftrightarrow> map_of (sm s') k = None) \<and> shard_inv any_inv s'"
proof (cases "map_of (sm s) k")
  case None
  then have "r = None" "s' = s\<lparr>misses := misses s + 1\<rparr>" using assms(2) by (simp_all add: get_def)
  with None assms(1) show ?thesis by (auto simp: shard_inv_def)
next
  case (Some e)
  show ?thesis
  proof (cases "expired e now")
    case True
    from node.get_expired[OF assms(1) Some True assms(2)] Some True show ?thesis by (simp add: delete_conv)
  next
    case False
    note g = node.get_hit[OF assms(1) Some False assms(2)]
    from g(3) obtain e' where "sm s' = AList.update k e' (sm s)" by blast
    with g Some False show ?thesis by (simp add: update_conv)
  qed
qed

lemma get_serves_live_witness:
  "fst (get (node_ops ''lru'') 9 50 (newShard 100 (IsSampled (NewLRU 8)) None)) = None"
proof -
  have inv: "shard_inv any_inv (newShard 100 (IsSampled (NewLRU 8)) None)"
    by (rule newShard_inv) (simp_all add: any_inv_def NewLRU_def newSampled_def)
  let ?g = "get (node_ops ''lru'') 9 50 (newShard 100 (IsSampled (NewLRU 8)) None)"
  obtain r s' where g: "?g = (r, s')" by fastforce
  from get_serves_live[OF inv g] g show ?thesis by (simp add: newShard_def)
qed

text \<open>
  C39. A write of a value larger than the shard is refused before the old value is dropped, so the value
  the client meant to replace keeps being served.
\<close>

theorem oversized_write_keeps_old:
  assumes "map_of (sm s) k = Some e" and "capacity s < int (length v)" and "\<not> expired e later"
  shows "\<exists>s'. insert_entry (node_ops name) ev k v now dl onMiss s = Some (Some False, s') \<and> sm s' = sm s \<and>
    fst (get (node_ops name) k later s') = Some (e_value e)"
proof -
  have "any_on_access p (touch later e) = (p, touch later e)" for p
    by (simp add: any_on_access_def no_hook_def)
  then show ?thesis using assms by (auto simp: insert_entry_def Let_def get_def)
qed

lemma oversized_write_keeps_old_witness:
  "\<exists>s'. insert_entry (node_ops ''lru'') (\<lambda>_. undefined) 9 [1, 2, 3] 5 0 False
      ((newShard 2 (IsSampled (NewLRU 8)) None)\<lparr>sm := [(9, new_entry 9 [7] 0 0)], used := 1\<rparr>) = Some (Some False, s') \<and>
    fst (get (node_ops ''lru'') 9 6 s') = Some [7]"
  using oversized_write_keeps_old[of "(newShard 2 (IsSampled (NewLRU 8)) None)\<lparr>sm := [(9, new_entry 9 [7] 0 0)], used := 1\<rparr>" 9
      "new_entry 9 [7] 0 0" "[1, 2, 3]" 6 "''lru''" "\<lambda>_. undefined" 5 0 False]
  by (auto simp: newShard_def new_entry_def expired_def)

section \<open>The hash of a key\<close>

text \<open>Keys that differ in exactly one byte never collide.\<close>

lemma hash_separates_one_byte:
  "Hash (pre @ b # post) = Hash (pre @ b' # post) \<longleftrightarrow> b = b'"
proof
  let ?f = "foldl fnv_step 14695981039346656037 pre"
  assume "Hash (pre @ b # post) = Hash (pre @ b' # post)"
  then have "foldl fnv_step (fnv_step ?f b) post = foldl fnv_step (fnv_step ?f b') post"
    unfolding Hash_def foldl_append foldl_Cons by (rule finalize_inj)
  then have "fnv_step ?f b = fnv_step ?f b'" by (rule fnv_state_inj)
  then show "b = b'" by (rule fnv_byte_inj)
qed simp

end
