(* ===== verification/Rpc.thy ===== *)
theory Rpc
  imports Cache_Store
begin

text \<open>
  The vocabulary of the services' calls: the gRPC codes, the two ways a request's context ends, and the
  messages of \<^verbatim>\<open>proto/belady/v1/cache.proto\<close> that the cache node and the gateway exchange. An error is
  its code and the text of its message.
\<close>

datatype code =
    CodeOK | CodeCanceled | CodeUnknown | CodeInvalidArgument | CodeDeadlineExceeded | CodeNotFound
  | CodeAlreadyExists | CodePermissionDenied | CodeResourceExhausted | CodeFailedPrecondition
  | CodeAborted | CodeOutOfRange | CodeUnimplemented | CodeInternal | CodeUnavailable | CodeDataLoss
  | CodeUnauthenticated

type_synonym rpc_error = "code \<times> string"

datatype ctx_end = CtxCanceled | CtxDeadlineExceeded

text \<open>\<open>ctx.Err()\<close> has one of two values, and \<open>status.FromContextError\<close> gives each its code and text.\<close>

definition FromContextError :: "ctx_end \<Rightarrow> rpc_error" where
  "FromContextError e =
     (case e of CtxCanceled \<Rightarrow> (CodeCanceled, ''context canceled'')
      | CtxDeadlineExceeded \<Rightarrow> (CodeDeadlineExceeded, ''context deadline exceeded''))"

datatype source = SOURCE_UNSPECIFIED | SOURCE_CACHE | SOURCE_ORIGIN

record get_response =
  gr_value :: "byte list"
  gr_found :: bool
  gr_source :: source
  gr_served_by :: string

record put_response =
  pr_admitted :: bool
  pr_served_by :: string

record stats_response = stats +
  NodeId :: string
  ModelVersion :: string
  TraceWritten :: u64
  TraceDropped :: u64

text \<open>
  \<^verbatim>\<open>internal/grpcx/grpcx.go\<close>: the innermost interceptor turns a handler that panics, here \<open>None\<close>, into an
  internal error, and the outer one measures the call and returns its result; the measurement is left out.
\<close>

definition recoverUnary :: "(rpc_error + 'r) option \<Rightarrow> rpc_error + 'r" where
  "recoverUnary r = (case r of None \<Rightarrow> Inl (CodeInternal, ''internal error'') | Some r \<Rightarrow> r)"

definition no_value :: "string \<Rightarrow> get_response" where
  "no_value node = \<lparr>gr_value = [], gr_found = False, gr_source = SOURCE_UNSPECIFIED, gr_served_by = node\<rparr>"

definition key_empty :: rpc_error where
  "key_empty = (CodeInvalidArgument, ''key must not be empty'')"

end
