(* ===== verification/Node_Service.thy ===== *)
theory Node_Service
  imports Trace_Recorder Config Rpc Node_Policy
begin

text \<open>
  \<^verbatim>\<open>cmd/cachenode/main.go\<close>: the gRPC service of a cache node and its start-up. The origin is a
  parameter, through the reply to one \<open>Fetch\<close>; so is \<open>singleflight.Group\<close>, through its documented
  choice: a call for a key either runs the function itself, or joins a call for that key in flight and
  gets that call's result. Whether the caller's context ends first is an input as well.
\<close>

section \<open>State\<close>

record node_server =
  n_cache :: "any_policy cache"
  n_origin :: bool
  n_models :: "model_holder option"
  n_trace :: "recorder option"
  nodeID :: string
  originTimeout :: int

text \<open>
  A reply of the origin: a failure, with its code and its printed form, or the message with \<open>found\<close> and
  the value, which decodes to nil when it is empty. The function the group runs returns a value or nil,
  and an error or nil.
\<close>

type_synonym fetch_reply = "rpc_error + (bool \<times> byte list option)"
type_synonym fetched = "byte list option \<times> rpc_error option"

datatype flight = Leads int fetch_reply | Joins fetched

section \<open>The handlers\<close>

definition run_fetch :: "any_policy policy_ops \<Rightarrow> (nat \<Rightarrow> ev_env) \<Rightarrow> byte list \<Rightarrow> int \<Rightarrow> fetch_reply \<Rightarrow>
    any_policy cache \<Rightarrow> (fetched \<times> any_policy cache) option" where
  "run_fetch ops ev key now reply c =
     (case reply of
        Inl e \<Rightarrow> Some ((None, Some e), c)
      | Inr (fnd, val) \<Rightarrow>
          if \<not> fnd then Some ((None, None), c)
          else let v = (case val of None \<Rightarrow> [] | Some v \<Rightarrow> v)
            in case Admit ops ev key v now c of None \<Rightarrow> None | Some (_, c) \<Rightarrow> Some ((Some v, None), c))"

definition fly :: "any_policy policy_ops \<Rightarrow> (nat \<Rightarrow> ev_env) \<Rightarrow> byte list \<Rightarrow> flight \<Rightarrow>
    any_policy cache \<Rightarrow> (fetched \<times> any_policy cache) option" where
  "fly ops ev key fl c =
     (case fl of Leads now reply \<Rightarrow> run_fetch ops ev key now reply c | Joins r \<Rightarrow> Some (r, c))"

definition fetch_error :: "rpc_error \<Rightarrow> rpc_error" where
  "fetch_error e =
     (if fst e \<noteq> CodeDeadlineExceeded then CodeUnavailable else fst e, ''origin fetch failed: '' @ snd e)"

definition respond :: "string \<Rightarrow> fetched \<Rightarrow> rpc_error + get_response" where
  "respond node r =
     (case snd r of Some e \<Rightarrow> Inl (fetch_error e)
      | None \<Rightarrow>
          (case fst r of None \<Rightarrow> Inr (no_value node)
           | Some v \<Rightarrow> Inr \<lparr>gr_value = v, gr_found = True, gr_source = SOURCE_ORIGIN, gr_served_by = node\<rparr>))"

text \<open>\<open>None\<close> is a call that does not return; the store's own theorems exclude it.\<close>

definition node_get :: "any_policy policy_ops \<Rightarrow> (nat \<Rightarrow> ev_env) \<Rightarrow> byte list \<Rightarrow> int \<Rightarrow> flight \<Rightarrow> ctx_end option \<Rightarrow>
    node_server \<Rightarrow> ((rpc_error + get_response) \<times> node_server) option" where
  "node_get ops ev key now fl gone s =
     (if key = [] then Some (Inl key_empty, s)
      else case Get ops key now (n_cache s) of
        None \<Rightarrow> None
      | Some (Some v, c) \<Rightarrow>
          Some (Inr \<lparr>gr_value = v, gr_found = True, gr_source = SOURCE_CACHE, gr_served_by = nodeID s\<rparr>, s\<lparr>n_cache := c\<rparr>)
      | Some (None, c) \<Rightarrow>
          if \<not> n_origin s then Some (Inr (no_value (nodeID s)), s\<lparr>n_cache := c\<rparr>)
          else case fly ops ev key fl c of
            None \<Rightarrow> None
          | Some (res, c) \<Rightarrow>
              Some (case gone of Some e \<Rightarrow> Inl (FromContextError e) | None \<Rightarrow> respond (nodeID s) res, s\<lparr>n_cache := c\<rparr>))"

definition node_put :: "any_policy policy_ops \<Rightarrow> (nat \<Rightarrow> ev_env) \<Rightarrow> byte list \<Rightarrow> byte list \<Rightarrow> u32 \<Rightarrow> int \<Rightarrow>
    node_server \<Rightarrow> ((rpc_error + put_response) \<times> node_server) option" where
  "node_put ops ev key v ttl now s =
     (if key = [] then Some (Inl key_empty, s)
      else case Put ops ev key v (wrap64 (int (unat ttl) * 1000000000)) now (n_cache s) of
        None \<Rightarrow> None
      | Some (b, c) \<Rightarrow> Some (Inr \<lparr>pr_admitted = b, pr_served_by = nodeID s\<rparr>, s\<lparr>n_cache := c\<rparr>))"

definition node_delete :: "any_policy policy_ops \<Rightarrow> byte list \<Rightarrow> node_server \<Rightarrow>
    ((rpc_error + bool) \<times> node_server) option" where
  "node_delete ops key s =
     (if key = [] then Some (Inl key_empty, s)
      else case Delete ops key (n_cache s) of
        None \<Rightarrow> None
      | Some (b, c) \<Rightarrow> Some (Inr b, s\<lparr>n_cache := c\<rparr>))"

text \<open>
  The recorder and the shards share the rings. The state keeps the shards' copy, so the counters the
  recorder reports are read there.
\<close>

definition live_rings :: "any_policy cache \<Rightarrow> recorder \<Rightarrow> recorder" where
  "live_rings c r = r\<lparr>rings := List.map_filter ring (shards c)\<rparr>"

definition node_stats :: "node_server \<Rightarrow> stats_response" where
  "node_stats s =
     (let st = Snapshot (n_cache s);
          version = (case n_models s of None \<Rightarrow> [] | Some h \<Rightarrow> Version h);
          counts = (case n_trace s of None \<Rightarrow> (0, 0) | Some r \<Rightarrow> Stats (live_rings (n_cache s) r))
      in stats.extend st
           \<lparr>NodeId = nodeID s, ModelVersion = version, TraceWritten = fst counts, TraceDropped = snd counts\<rparr>)"

section \<open>Start-up\<close>

definition newRecorder :: "env \<Rightarrow> string \<Rightarrow> string \<Rightarrow> int \<Rightarrow> world \<Rightarrow> (new_error + recorder option) \<times> world" where
  "newRecorder env probe node n w =
     (if \<not> Bool env ''TRACE_ENABLED'' False then (Inr None, w)
      else case NewRecorder probe
             \<lparr>Dir = String env ''TRACE_DIR'' ''/var/lib/belady/traces'', NodeID = node, cfg_Shards = n,
              RingCapacity = Int' env ''TRACE_RING_CAPACITY'' 8192,
              SampleDenominator = Int' env ''TRACE_SAMPLE_DENOMINATOR'' 16,
              SegmentBytes = Bytes env ''TRACE_SEGMENT_BYTES'' (32 * 2 ^ 20),
              FlushInterval = Duration env ''TRACE_FLUSH_INTERVAL'' 1000000000,
              SegmentMaxAge = Duration env ''TRACE_SEGMENT_MAX_AGE'' (60 * 1000000000),
              BatchSize = Int' env ''TRACE_BATCH_SIZE'' 4096\<rparr> w of
        (Inl e, w) \<Rightarrow> (Inl e, w)
      | (Inr r, w) \<Rightarrow> (Inr (Some r), w))"


definition hostnameOr :: "string option \<Rightarrow> string \<Rightarrow> string" where
  "hostnameOr host d = (case host of Some h \<Rightarrow> if h \<noteq> [] then h else d | None \<Rightarrow> d)"

text \<open>
  The configuration of \<open>main\<close>, in the code's order, up to the point where the service is ready. Each
  \<open>obs.Fatal\<close> exits the process, as \<open>MustDuration\<close> does on a malformed value; \<open>dial\<close> says whether
  \<open>grpc.NewClient\<close> accepts a target. The result is the server, with the boundary and the registry's
  address when the policy uses models.
\<close>

datatype fatal =
  BadPolicy string | RecorderInit new_error | CacheInit cache_error | BadOriginTimeout int
  | OriginDial string | BadBoundary exit | RegistryDial string

record started =
  st_server :: node_server
  st_boundary :: int
  st_registry :: string

definition start_models :: "env \<Rightarrow> (string \<Rightarrow> bool) \<Rightarrow> node_server \<Rightarrow> fatal + started" where
  "start_models env dial s =
     (case n_models s of
        None \<Rightarrow> Inr \<lparr>st_server = s, st_boundary = 0, st_registry = []\<rparr>
      | Some _ \<Rightarrow>
          (case MustDuration env ''MODEL_BOUNDARY'' (10 * 60 * 1000000000) of
             Inl x \<Rightarrow> Inl (BadBoundary x)
           | Inr b \<Rightarrow>
               let addr = String env ''REGISTRY_ADDR'' []
               in if addr \<noteq> [] \<and> \<not> dial addr then Inl (RegistryDial addr)
                  else Inr \<lparr>st_server = s, st_boundary = b, st_registry = addr\<rparr>))"

definition start_server :: "env \<Rightarrow> (string \<Rightarrow> bool) \<Rightarrow> string \<Rightarrow> string \<Rightarrow> any_policy cache \<Rightarrow> recorder option \<Rightarrow>
    fatal + started" where
  "start_server env dial pname node c rec =
     (let timeout = Duration env ''ORIGIN_TIMEOUT'' (5 * 1000000000);
          addr = String env ''ORIGIN_ADDR'' []
      in if timeout \<le> 0 then Inl (BadOriginTimeout timeout)
         else if addr \<noteq> [] \<and> \<not> dial addr then Inl (OriginDial addr)
         else start_models env dial
           \<lparr>n_cache = c, n_origin = (addr \<noteq> []), n_models = (if pname = ''lrb'' then Some NewModelHolder else None),
            n_trace = rec, nodeID = node, originTimeout = timeout\<rparr>)"

definition node_config :: "env \<Rightarrow> (int \<Rightarrow> any_policy) \<Rightarrow> recorder option \<Rightarrow> any_policy config" where
  "node_config env mk rec =
     \<lparr>NewPolicy = Some mk, Trace = map_option rings rec, DefaultTTL = Duration env ''CACHE_DEFAULT_TTL'' 0,
      CapacityBytes = Bytes env ''CACHE_CAPACITY'' (256 * 2 ^ 20),
      Shards = RoundShards (Int' env ''CACHE_SHARDS'' 256)\<rparr>"

definition start_node :: "env \<Rightarrow> string option \<Rightarrow> string \<Rightarrow> (string \<Rightarrow> bool) \<Rightarrow> world \<Rightarrow> (fatal + started) \<times> world" where
  "start_node env host probe dial w =
     (let pname = String env ''CACHE_POLICY'' ''s3fifo''
      in case newPolicy pname (Int' env ''CACHE_SAMPLE_SIZE'' 8) of
        Inl bad \<Rightarrow> (Inl (BadPolicy bad), w)
      | Inr mk \<Rightarrow>
          let node = String env ''NODE_ID'' (hostnameOr host ''cachenode'')
          in case newRecorder env probe node (RoundShards (Int' env ''CACHE_SHARDS'' 256)) w of
            (Inl e, w) \<Rightarrow> (Inl (RecorderInit e), w)
          | (Inr rec, w) \<Rightarrow>
              (case NewCache (node_ops pname) (node_config env mk rec) of
                 Inl e \<Rightarrow> (Inl (CacheInit e), w)
               | Inr c \<Rightarrow> (start_server env dial pname node c rec, w)))"


section \<open>Start-up gives a well-formed store\<close>

lemma Int'_range: "- (2 ^ 63) \<le> d \<Longrightarrow> d < 2 ^ 63 \<Longrightarrow> - (2 ^ 63) \<le> Int' env key d \<and> Int' env key d < 2 ^ 63"
  using ParseInt_range[of 64] by (fastforce simp: Int'_def parse_def Atoi_def split: option.split)

lemma RoundShards_cases:
  assumes "n < 2 ^ 63"
  shows "(\<exists>k \<le> 62. RoundShards n = 2 ^ k) \<or> RoundShards n < 0"
proof (cases "n \<le> 2 ^ 62")
  case True
  then show ?thesis using RoundShards_pow2 by blast
next
  case False
  let ?m = "nat (n - 1)"
  have m: "2 ^ 62 \<le> ?m" "?m < 2 ^ 63" using False assms by (simp_all add: le_nat_iff nat_less_iff)
  have "bits_len ?m \<le> 63" by (rule bits_len_le[OF m(2)])
  moreover have "(2::nat) ^ 62 < 2 ^ bits_len ?m" using m(1) bits_len_upper[of ?m] by linarith
  then have "62 < bits_len ?m" by (simp only: power_strict_increasing_iff)
  ultimately have "bits_len ?m = 63" by simp
  then have "RoundShards n < 0" using False by (simp add: RoundShards_def shl_bits_len_def wrap64_def)
  then show ?thesis ..
qed

lemma RoundShards_pow: "k \<le> 62 \<Longrightarrow> RoundShards (2 ^ k) = 2 ^ k"
proof -
  assume k: "k \<le> 62"
  then have "(2::int) ^ k \<le> 2 ^ 62" by (intro power_increasing) auto
  from shl_bits_len[OF _ this] obtain j where j: "shl_bits_len (2 ^ k) = 2 ^ j" "(2::int) ^ k \<le> 2 ^ j"
    "1 < (2::int) ^ k \<longrightarrow> (2::int) ^ j < 2 * 2 ^ k" by auto
  have "k \<le> j" using j(2) by simp
  show "RoundShards (2 ^ k) = 2 ^ k"
  proof (cases "k = 0")
    case True
    then show ?thesis by (simp add: RoundShards_def shl_bits_len_def wrap64_def)
  next
    case False
    then have "(2::int) ^ j < 2 ^ Suc k" using j(3) by simp
    then have "j < Suc k" by (simp only: power_strict_increasing_iff)
    with \<open>k \<le> j\<close> j(1) show ?thesis by (simp add: RoundShards_def)
  qed
qed

lemma NewRecorder_rings:
  assumes "NewRecorder probe cfg w = (Inr r, w')"
  shows "0 < cfg_Shards cfg \<and> length (rings r) = nat (cfg_Shards cfg)"
  using assms by (auto simp: NewRecorder_def with_defaults_def Let_def split: if_splits prod.splits option.splits)

lemma newRecorder_rings:
  assumes "newRecorder env probe node n w = (Inr (Some r), w')"
  shows "0 < n \<and> length (rings r) = nat n"
  using assms by (auto simp: newRecorder_def dest: NewRecorder_rings split: if_splits prod.splits sum.splits)

lemma start_node_cases:
  assumes "fst (start_node env host probe dial w) = x"
  obtains (policy) bad where "x = Inl (BadPolicy bad)"
  | (recorder) e where "x = Inl (RecorderInit e)"
  | (cache) pname mk node rec where "newPolicy pname (Int' env ''CACHE_SAMPLE_SIZE'' 8) = Inr mk"
      "fst (newRecorder env probe node (RoundShards (Int' env ''CACHE_SHARDS'' 256)) w) = Inr rec"
      "x = (case NewCache (node_ops pname) (node_config env mk rec) of Inl e \<Rightarrow> Inl (CacheInit e)
            | Inr c \<Rightarrow> start_server env dial pname node c rec)"
proof -
  let ?p = "newPolicy (String env ''CACHE_POLICY'' ''s3fifo'') (Int' env ''CACHE_SAMPLE_SIZE'' 8)"
  let ?node = "String env ''NODE_ID'' (hostnameOr host ''cachenode'')"
  let ?r = "newRecorder env probe ?node (RoundShards (Int' env ''CACHE_SHARDS'' 256)) w"
  show ?thesis
  proof (cases ?p)
    case (Inl bad)
    then show ?thesis using assms policy[of bad] by (simp add: start_node_def Let_def)
  next
    case (Inr mk)
    show ?thesis
    proof (cases "fst ?r")
      case (Inl e)
      then show ?thesis using assms recorder[of e] \<open>?p = Inr mk\<close>
        by (simp add: start_node_def Let_def split: prod.splits)
    next
      case (Inr rec)
      show ?thesis by (rule cache[OF \<open>?p = Inr mk\<close> Inr])
        (use assms \<open>?p = Inr mk\<close> Inr in \<open>auto simp: start_node_def Let_def split: prod.splits sum.splits\<close>)
    qed
  qed
qed

lemma start_server_ok:
  assumes "start_server env dial pname node c rec = Inr st"
  shows "n_cache (st_server st) = c \<and> n_trace (st_server st) = rec \<and> 0 < originTimeout (st_server st) \<and>
    (n_models (st_server st) \<noteq> None \<longleftrightarrow> pname = ''lrb'') \<and>
    (n_origin (st_server st) \<longleftrightarrow> String env ''ORIGIN_ADDR'' [] \<noteq> [])"
  using assms by (auto simp: start_server_def start_models_def Let_def split: if_splits option.splits sum.splits)

text \<open>The rings the recorder makes are as many as the shards, so \<open>cache.New\<close> never finds them different.\<close>

lemma recorder_shards:
  assumes "fst (newRecorder env probe node (RoundShards (Int' env ''CACHE_SHARDS'' 256)) w) = Inr (Some r)"
  shows "\<exists>k \<le> 62. RoundShards (Int' env ''CACHE_SHARDS'' 256) = 2 ^ k \<and> length (rings r) = 2 ^ k"
proof -
  let ?n = "RoundShards (Int' env ''CACHE_SHARDS'' 256)"
  have "0 < ?n \<and> length (rings r) = nat ?n"
    using newRecorder_rings[of env probe node ?n w r] assms by (metis prod.collapse)
  moreover have "Int' env ''CACHE_SHARDS'' 256 < 2 ^ 63" using Int'_range[of 256 env "''CACHE_SHARDS''"] by simp
  ultimately show ?thesis using RoundShards_cases[of "Int' env ''CACHE_SHARDS'' 256"] by (auto simp: nat_power_eq)
qed

lemma node_config_match:
  assumes "fst (newRecorder env probe node (RoundShards (Int' env ''CACHE_SHARDS'' 256)) w) = Inr rec"
  shows "NewCache ops (node_config env mk rec) \<noteq> Inl (RingMismatch a b)"
proof (cases rec)
  case None
  then show ?thesis by (auto simp: NewCache_def node_config_def Let_def split: if_splits)
next
  case (Some r)
  with recorder_shards[of env probe node w r] assms obtain k where
    k: "k \<le> 62" "RoundShards (Int' env ''CACHE_SHARDS'' 256) = 2 ^ k" "length (rings r) = 2 ^ k" by auto
  have "\<not> (2::int) ^ k \<le> 0" by (simp add: not_le)
  then show ?thesis using k RoundShards_pow[OF k(1)] Some
    by (auto simp: NewCache_def node_config_def Let_def split: if_splits)
qed

lemma new_shards_rings:
  "length rs = n \<Longrightarrow> List.map_filter ring (new_shards mk (Some rs) per n) = rs"
  by (auto simp: new_shards_def newShard_def List.map_filter_def comp_def map_nth)

lemma started_store:
  assumes "newPolicy pname sample = Inr mk" and "0 < sample"
    and "fst (newRecorder env probe node (RoundShards (Int' env ''CACHE_SHARDS'' 256)) w) = Inr rec"
    and "NewCache (node_ops pname) (node_config env mk rec) = Inr c" and "Bytes env ''CACHE_CAPACITY'' (256 * 2 ^ 20) < 2 ^ 62"
  shows "wf_cache any_inv c \<and> cache_agrees c Map.empty \<and>
    sum_list (map capacity (shards c)) \<le> Bytes env ''CACHE_CAPACITY'' (256 * 2 ^ 20) \<and>
    (\<forall>r. rec = Some r \<longrightarrow> live_rings c r = r)"
proof -
  let ?cfg = "node_config env mk rec"
  have "Int' env ''CACHE_SHARDS'' 256 < 2 ^ 63" using Int'_range[of 256 env "''CACHE_SHARDS''"] by simp
  then have n: "Shards ?cfg \<le> 2 ^ 62"
    using RoundShards_cases[of "Int' env ''CACHE_SHARDS'' 256"] power_increasing[of _ 62 "2::int"]
    by (auto simp: node_config_def)
  have mk: "any_inv (m per) []" if "NewPolicy ?cfg = Some m" for m per
    using that newPolicy_inv[OF assms(1,2)] by (simp add: node_config_def)
  have cap: "CapacityBytes ?cfg < 2 ^ 62" using assms(5) by (simp add: node_config_def)
  have ok: "wf_cache any_inv c" "cache_agrees c Map.empty" "sum_list (map capacity (shards c)) \<le> CapacityBytes ?cfg"
    by (rule NewCache_ok(1-3)[where pinv = any_inv, OF assms(4) cap n]; rule mk; assumption)+
  have "live_rings c r = r" if r: "rec = Some r" for r
  proof -
    from recorder_shards[of env probe node w r] assms(3) r obtain k where
      k: "k \<le> 62" "RoundShards (Int' env ''CACHE_SHARDS'' 256) = 2 ^ k" "length (rings r) = 2 ^ k" by auto
    have pos: "\<not> (2::int) ^ k \<le> 0" by (simp add: not_le)
    from NewCache_cases(2)[OF assms(4)] k pos RoundShards_pow[OF k(1)] r
    obtain per where "shards c = new_shards mk (Some (rings r)) per (2 ^ k)"
      by (auto simp: node_config_def Let_def nat_power_eq)
    then have "List.map_filter ring (shards c) = rings r" by (simp only: new_shards_rings[OF k(3)])
    then show ?thesis by (simp add: live_rings_def)
  qed
  with ok show ?thesis by (simp add: node_config_def)
qed


section \<open>Runs of requests\<close>

datatype node_request =
    AskGet "byte list" int flight "ctx_end option"
  | AskPut "byte list" "byte list" u32 int
  | AskDelete "byte list"

datatype node_reply = GotReply "rpc_error + get_response" | PutReply "rpc_error + put_response" | DeleteReply "rpc_error + bool"

definition node_step :: "any_policy policy_ops \<Rightarrow> (nat \<Rightarrow> ev_env) \<Rightarrow> node_request \<Rightarrow> node_server \<Rightarrow>
    (node_reply \<times> node_server) option" where
  "node_step ops ev q s =
     (case q of
        AskGet key now fl gone \<Rightarrow> map_option (map_prod GotReply id) (node_get ops ev key now fl gone s)
      | AskPut key v ttl now \<Rightarrow> map_option (map_prod PutReply id) (node_put ops ev key v ttl now s)
      | AskDelete key \<Rightarrow> map_option (map_prod DeleteReply id) (node_delete ops key s))"

fun node_run :: "any_policy policy_ops \<Rightarrow> (nat \<Rightarrow> nat \<Rightarrow> ev_env) \<Rightarrow> nat \<Rightarrow> node_request list \<Rightarrow> node_server \<Rightarrow>
    (node_reply list \<times> node_server) option" where
  "node_run ops evs n [] s = Some ([], s)"
| "node_run ops evs n (q # qs) s =
     (case node_step ops (evs n) q s of None \<Rightarrow> None
      | Some (r, s) \<Rightarrow> map_option (map_prod ((#) r) id) (node_run ops evs (Suc n) qs s))"

text \<open>
  The requests of a run against an origin that holds \<open>f\<close>: every reply the origin gives is a failure or
  what \<open>f\<close> says, a call that joins another gets such a result too, and a client writes only what the
  origin holds. Values stay under two gigabytes, as the transport's message limit keeps them.
\<close>

definition origin_says :: "(byte list \<Rightarrow> byte list option) \<Rightarrow> byte list \<Rightarrow> flight \<Rightarrow> bool" where
  "origin_says f key fl =
     (case fl of
        Leads _ (Inl e) \<Rightarrow> True
      | Leads _ (Inr (b, v)) \<Rightarrow> (if b then f key = Some (case v of None \<Rightarrow> [] | Some v \<Rightarrow> v) else f key = None)
      | Joins (v, None) \<Rightarrow> v = f key
      | Joins (v, Some e) \<Rightarrow> True)"

definition short_values :: "(byte list \<Rightarrow> byte list option) \<Rightarrow> bool" where
  "short_values f \<longleftrightarrow> (\<forall>key v. f key = Some v \<longrightarrow> length v < 2 ^ 31)"

lemma short_valuesD: "short_values f \<Longrightarrow> f key = Some v \<Longrightarrow> length v < 2 ^ 31"
  by (simp add: short_values_def)

fun truthful :: "(byte list \<Rightarrow> byte list option) \<Rightarrow> node_request \<Rightarrow> bool" where
  "truthful f (AskGet key now fl gone) \<longleftrightarrow> origin_says f key fl"
| "truthful f (AskPut key v ttl now) \<longleftrightarrow> f key = Some v"
| "truthful f (AskDelete key) \<longleftrightarrow> True"

fun asked :: "node_request \<Rightarrow> byte list" where
  "asked (AskGet key now fl gone) = key"
| "asked (AskPut key v ttl now) = key"
| "asked (AskDelete key) = key"

text \<open>What a reader may be told: the origin's value, or an error; a miss only without it.\<close>

fun honest :: "bool \<Rightarrow> (byte list \<Rightarrow> byte list option) \<Rightarrow> node_request \<Rightarrow> node_reply \<Rightarrow> bool" where
  "honest backed f (AskGet key now fl gone) (GotReply (Inr r)) \<longleftrightarrow>
     (gr_found r \<longrightarrow> f key = Some (gr_value r)) \<and> (\<not> gr_found r \<longrightarrow> backed \<longrightarrow> f key = None)"
| "honest backed f (AskGet key now fl gone) (GotReply (Inl e)) \<longleftrightarrow>
     fst e \<in> {CodeInvalidArgument, CodeCanceled, CodeDeadlineExceeded, CodeUnavailable} \<and> (fst e = CodeInvalidArgument \<longleftrightarrow> key = [])"
| "honest backed f (AskPut key v ttl now) (PutReply r) \<longleftrightarrow> (key = [] \<longleftrightarrow> r = Inl key_empty)"
| "honest backed f (AskDelete key) (DeleteReply r) \<longleftrightarrow> (key = [] \<longleftrightarrow> r = Inl key_empty)"
| "honest backed f _ _ \<longleftrightarrow> False"

definition reflects :: "(byte list \<Rightarrow> byte list option) \<Rightarrow> byte list set \<Rightarrow> last_admitted \<Rightarrow> bool" where
  "reflects f K M \<longleftrightarrow> (\<forall>key \<in> K. \<forall>v dl. M (Hash key) = Some (v, dl) \<longrightarrow> f key = Some v)"

definition served :: "(byte list \<Rightarrow> byte list option) \<Rightarrow> byte list set \<Rightarrow> any_policy cache \<Rightarrow> bool" where
  "served f K c \<longleftrightarrow> wf_cache any_inv c \<and> (\<exists>M. cache_agrees c M \<and> reflects f K M)"

lemma reflects_insert:
  assumes "reflects f K M" and "inj_on Hash K" and "key \<in> K" and "f key = Some v"
  shows "reflects f K (M(Hash key \<mapsto> (v, dl)))"
  using assms by (auto simp: reflects_def inj_on_def)

lemma reflects_remove: "reflects f K M \<Longrightarrow> reflects f K (M(h := None))"
  by (auto simp: reflects_def)

lemma served_step:
  assumes "served f K c" and "\<And>i. lrb_env_ok (ev i)" and "\<not> big_value op" and "inj_on Hash K"
    and "\<And>key v now. op = CAdmit key v now \<Longrightarrow> key \<in> K \<and> f key = Some v"
    and "\<And>key v ttl now. op = CPut key v ttl now \<Longrightarrow> key \<in> K \<and> f key = Some v"
  shows "\<exists>out c'. cache_step (node_ops name) ev op c = Some (out, c') \<and> served f K c' \<and>
    (\<forall>key now v. op = CGet key now \<longrightarrow> key \<in> K \<longrightarrow> out = Got (Some v) \<longrightarrow> f key = Some v)"
proof -
  obtain M where M: "cache_agrees c M" "reflects f K M" and wf: "wf_cache any_inv c"
    using assms(1) by (auto simp: served_def)
  from node.cache_step_ok[where ev = ev, OF wf M(1) assms(2,3)] obtain out c' where
    st: "cache_step (node_ops name) ev op c = Some (out, c')" "wf_cache any_inv c'"
      "spec_allows (hashed_op c op) out M" "cache_agrees c' (spec_step (hashed_op c op) out M)" by blast
  have r: "reflects f K (spec_step (hashed_op c op) out M)"
    using reflects_insert[OF M(2) assms(4)] reflects_remove[OF M(2)] M(2) assms(5,6)
    by (cases op; cases "(hashed_op c op, out, M)" rule: spec_step.cases) (auto simp: hashed_op_def)
  have "f key = Some v" if "op = CGet key now" "key \<in> K" "out = Got (Some v)" for key now v
    using st(3) M(2) that by (auto simp: hashed_op_def reflects_def)
  with st r show ?thesis by (auto simp: served_def)
qed

lemma served_get:
  assumes "served f K c" and "inj_on Hash K"
  shows "\<exists>r c'. Get (node_ops name) key now c = Some (r, c') \<and> served f K c' \<and>
    (\<forall>v. key \<in> K \<longrightarrow> r = Some v \<longrightarrow> f key = Some v)"
proof -
  have env: "lrb_env_ok (undefined\<lparr>holder_now := NewModelHolder\<rparr>)" by (simp add: lrb_env_ok_def wf_NewModelHolder)
  from served_step[where ev = "\<lambda>_. undefined\<lparr>holder_now := NewModelHolder\<rparr>" and op = "CGet key now" and name = name, OF assms(1) env _ assms(2)]
  show ?thesis by (auto simp: cache_step_def with_outcome_def big_value_def)
qed

lemma served_admit:
  assumes "served f K c" and "\<And>i. lrb_env_ok (ev i)" and "inj_on Hash K" and "key \<in> K" and "f key = Some v" and "length v < 2 ^ 31"
  shows "\<exists>b c'. Admit (node_ops name) ev key v now c = Some (b, c') \<and> served f K c'"
  using served_step[where ev = ev and op = "CAdmit key v now" and name = name, OF assms(1,2) _ assms(3)] assms(4-6)
  by (auto simp: cache_step_def with_outcome_def big_value_def)

lemma served_put:
  assumes "served f K c" and "\<And>i. lrb_env_ok (ev i)" and "inj_on Hash K" and "key \<in> K" and "f key = Some v" and "length v < 2 ^ 31"
  shows "\<exists>b c'. Put (node_ops name) ev key v ttl now c = Some (b, c') \<and> served f K c'"
  using served_step[where ev = ev and op = "CPut key v ttl now" and name = name, OF assms(1,2) _ assms(3)] assms(4-6)
  by (auto simp: cache_step_def with_outcome_def big_value_def)

lemma served_delete:
  assumes "served f K c" and "inj_on Hash K"
  shows "\<exists>b c'. Delete (node_ops name) key c = Some (b, c') \<and> served f K c'"
proof -
  have env: "lrb_env_ok (undefined\<lparr>holder_now := NewModelHolder\<rparr>)" by (simp add: lrb_env_ok_def wf_NewModelHolder)
  from served_step[where ev = "\<lambda>_. undefined\<lparr>holder_now := NewModelHolder\<rparr>" and op = "CDelete key" and name = name, OF assms(1) env _ assms(2)]
  show ?thesis by (auto simp: cache_step_def with_outcome_def big_value_def)
qed


lemma fly_ok:
  assumes "served f K c" and "\<And>i. lrb_env_ok (ev i)" and "inj_on Hash K" and "key \<in> K" and "origin_says f key fl"
    and "short_values f"
  shows "\<exists>v e c'. fly (node_ops name) ev key fl c = Some ((v, e), c') \<and> served f K c' \<and> (e = None \<longrightarrow> v = f key)"
proof (cases fl)
  case (Joins r)
  then show ?thesis using assms(1,5) by (cases r) (auto simp: fly_def origin_says_def split: option.splits)
next
  case (Leads now reply)
  show ?thesis
  proof (cases reply)
    case (Inl e)
    then show ?thesis using assms(1) Leads by (simp add: fly_def run_fetch_def)
  next
    case (Inr m)
    obtain fnd val where m: "m = (fnd, val)" by (cases m)
    show ?thesis
    proof (cases fnd)
      case False
      then show ?thesis using assms(1,5) Leads Inr m by (simp add: fly_def run_fetch_def origin_says_def)
    next
      case True
      let ?v = "case val of None \<Rightarrow> [] | Some v \<Rightarrow> v"
      have v: "f key = Some ?v" using assms(5) True Leads Inr m by (simp add: origin_says_def)
      from served_admit[where ev = ev and now = now and name = name, OF assms(1-4) v short_valuesD[OF assms(6) v]]
      obtain b c' where "Admit (node_ops name) ev key ?v now c = Some (b, c')" "served f K c'" by blast
      then show ?thesis using v True Leads Inr m by (simp add: fly_def run_fetch_def Let_def)
    qed
  qed
qed

lemma node_step_honest:
  assumes "served f K (n_cache s)" and "\<And>i. lrb_env_ok (ev i)" and "inj_on Hash K" and "asked q \<in> K" and "truthful f q"
    and short: "short_values f"
  shows "\<exists>r s'. node_step (node_ops name) ev q s = Some (r, s') \<and> served f K (n_cache s') \<and> n_origin s' = n_origin s \<and>
    honest (n_origin s) f q r"
proof (cases q)
  case (AskGet key now fl gone)
  have key: "key \<in> K" "origin_says f key fl" using assms(4,5) AskGet by simp_all
  show ?thesis
  proof (cases "key = []")
    case True
    then show ?thesis using AskGet assms(1) by (simp add: node_step_def node_get_def key_empty_def)
  next
    case False
    from served_get[where key = key and now = now and name = name, OF assms(1,3)] key(1) obtain r c where
      g: "Get (node_ops name) key now (n_cache s) = Some (r, c)" "served f K c" "\<And>v. r = Some v \<Longrightarrow> f key = Some v" by blast
    show ?thesis
    proof (cases r)
      case (Some v)
      then show ?thesis using AskGet g False by (simp add: node_step_def node_get_def)
    next
      case None
      show ?thesis
      proof (cases "n_origin s")
        case o: False
        then show ?thesis using AskGet g False None by (simp add: node_step_def node_get_def no_value_def)
      next
        case o: True
        from fly_ok[where ev = ev and name = name, OF g(2) assms(2,3) key short] obtain v e c' where
          fl: "fly (node_ops name) ev key fl c = Some ((v, e), c')" "served f K c'" "e = None \<longrightarrow> v = f key" by blast
        show ?thesis using AskGet g False None o fl
          by (cases gone; cases v)
            (auto simp: node_step_def node_get_def respond_def no_value_def fetch_error_def FromContextError_def
               split: option.split ctx_end.splits)
      qed
    qed
  qed
next
  case (AskPut key v ttl now)
  show ?thesis
  proof (cases "key = []")
    case True
    then show ?thesis using AskPut assms(1) by (simp add: node_step_def node_put_def)
  next
    case False
    have v: "key \<in> K" "f key = Some v" using AskPut assms(4,5) by simp_all
    from served_put[where ev = ev and ttl = "wrap64 (int (unat ttl) * 1000000000)" and now = now and name = name,
        OF assms(1-3) v short_valuesD[OF short v(2)]] False AskPut
    show ?thesis by (auto simp: node_step_def node_put_def)
  qed
next
  case (AskDelete key)
  from served_delete[where key = key and name = name, OF assms(1,3)] AskDelete assms(1)
  show ?thesis by (cases "key = []") (auto simp: node_step_def node_delete_def)
qed

lemma node_run_honest:
  assumes "served f K (n_cache s)" and "\<And>i j. lrb_env_ok (evs i j)" and "inj_on Hash K"
    and "short_values f" and "\<forall>q \<in> set qs. asked q \<in> K \<and> truthful f q"
  shows "\<exists>rs s'. node_run (node_ops name) evs n qs s = Some (rs, s') \<and> list_all2 (honest (n_origin s) f) qs rs"
  using assms(1,5)
proof (induction qs arbitrary: n s)
  case (Cons q qs)
  have "asked q \<in> K" "truthful f q" using Cons.prems(2) by simp_all
  from node_step_honest[where ev = "evs n" and name = name, OF Cons.prems(1) assms(2,3) this assms(4)] obtain r s1 where
    st: "node_step (node_ops name) (evs n) q s = Some (r, s1)" "served f K (n_cache s1)" "n_origin s1 = n_origin s"
      "honest (n_origin s) f q r" by blast
  from Cons.IH[OF st(2), of "Suc n"] Cons.prems(2) st show ?case by auto
qed simp


section \<open>What a started node serves\<close>

lemma start_node_server:
  assumes "fst (start_node env host probe dial w) = Inr st" and "0 < Int' env ''CACHE_SAMPLE_SIZE'' 8"
    and "Bytes env ''CACHE_CAPACITY'' (256 * 2 ^ 20) < 2 ^ 62"
  shows "wf_cache any_inv (n_cache (st_server st))" and "cache_agrees (n_cache (st_server st)) Map.empty"
    and "sum_list (map capacity (shards (n_cache (st_server st)))) \<le> Bytes env ''CACHE_CAPACITY'' (256 * 2 ^ 20)"
    and "n_trace (st_server st) = Some r \<Longrightarrow> live_rings (n_cache (st_server st)) r = r"
    and "0 < originTimeout (st_server st)" and "n_origin (st_server st) \<longleftrightarrow> String env ''ORIGIN_ADDR'' [] \<noteq> []"
proof -
  from assms(1) obtain pname mk node rec where p: "newPolicy pname (Int' env ''CACHE_SAMPLE_SIZE'' 8) = Inr mk"
    "fst (newRecorder env probe node (RoundShards (Int' env ''CACHE_SHARDS'' 256)) w) = Inr rec"
    "Inr st = (case NewCache (node_ops pname) (node_config env mk rec) of Inl e \<Rightarrow> Inl (CacheInit e)
       | Inr c \<Rightarrow> start_server env dial pname node c rec)"
    by (rule start_node_cases) auto
  then obtain c where c: "NewCache (node_ops pname) (node_config env mk rec) = Inr c"
    "start_server env dial pname node c rec = Inr st" by (auto split: sum.splits)
  from started_store[OF p(1) assms(2) p(2) c(1) assms(3)] start_server_ok[OF c(2)]
  show "wf_cache any_inv (n_cache (st_server st))" "cache_agrees (n_cache (st_server st)) Map.empty"
    "sum_list (map capacity (shards (n_cache (st_server st)))) \<le> Bytes env ''CACHE_CAPACITY'' (256 * 2 ^ 20)"
    "0 < originTimeout (st_server st)" "n_origin (st_server st) \<longleftrightarrow> String env ''ORIGIN_ADDR'' [] \<noteq> []"
    "n_trace (st_server st) = Some r \<Longrightarrow> live_rings (n_cache (st_server st)) r = r"
    by simp_all
qed

text \<open>A concrete node for the witnesses: every setting at its default, with an origin.\<close>

definition demo_node_env :: env where
  "demo_node_env = [''ORIGIN_ADDR'' \<mapsto> ''origin:8081'']"

lemma demo_settings [simp]:
  "String demo_node_env ''CACHE_POLICY'' d = d" "Int' demo_node_env ''CACHE_SAMPLE_SIZE'' n = n"
  "Bytes demo_node_env ''CACHE_CAPACITY'' b = b" "Int' demo_node_env ''CACHE_SHARDS'' n = n"
  "Bool demo_node_env ''TRACE_ENABLED'' t = t" "String demo_node_env ''ORIGIN_ADDR'' d = ''origin:8081''"
  "Duration demo_node_env ''ORIGIN_TIMEOUT'' m = m" "Duration demo_node_env ''CACHE_DEFAULT_TTL'' m = m"
  by (simp_all add: demo_node_env_def String_def Int'_def Bytes_def Bool_def Duration_def parse_def)

definition still_world :: world where
  "still_world = \<lparr>files = [], faults = [], clock = (\<lambda>n. int n), readings = 0\<rparr>"

lemma demo_node_starts: "\<exists>st. fst (start_node demo_node_env None [] (\<lambda>_. True) w) = Inr st"
proof -
  have "\<exists>c. NewCache (node_ops ''s3fifo'') (node_config demo_node_env (\<lambda>c. IsS3fifo (NewS3FIFO c)) None) = Inr c"
    by (simp add: NewCache_def node_config_def RoundShards_def shl_bits_len_def wrap_simps)
  then show ?thesis
    by (auto simp: start_node_def newPolicy_def newRecorder_def start_server_def start_models_def)
qed



text \<open>
  C27. A node that starts has a well-formed, empty store whose shards together fit in \<open>CACHE_CAPACITY\<close>, a
  positive origin timeout, and a recorder whose rings are exactly the shards' rings, in order.
\<close>

theorem started_node_ready:
  assumes "fst (start_node env host probe dial w) = Inr st" and "0 < Int' env ''CACHE_SAMPLE_SIZE'' 8"
    and "Bytes env ''CACHE_CAPACITY'' (256 * 2 ^ 20) < 2 ^ 62"
  shows "wf_cache any_inv (n_cache (st_server st)) \<and> cache_agrees (n_cache (st_server st)) Map.empty \<and>
    sum_list (map capacity (shards (n_cache (st_server st)))) \<le> Bytes env ''CACHE_CAPACITY'' (256 * 2 ^ 20) \<and>
    0 < originTimeout (st_server st) \<and>
    (case n_trace (st_server st) of None \<Rightarrow> True | Some r \<Rightarrow> live_rings (n_cache (st_server st)) r = r)"
  using start_node_server[OF assms] by (auto split: option.split)

lemma started_node_ready_witness:
  "\<exists>st. fst (start_node demo_node_env None [] (\<lambda>_. True) still_world) = Inr st \<and> 0 < originTimeout (st_server st)"
proof -
  obtain st where st: "fst (start_node demo_node_env None [] (\<lambda>_. True) still_world) = Inr st" using demo_node_starts by blast
  from started_node_ready[OF st] st show ?thesis by auto
qed

text \<open>
  No environment makes a node fail with the error that its recorder has rings for another number of
  shards: \<open>main\<close> rounds the shard count before it makes either.
\<close>

lemma started_rings_match:
  "fst (start_node env host probe dial w) \<noteq> Inl (CacheInit (RingMismatch a b))"
proof
  assume "fst (start_node env host probe dial w) = Inl (CacheInit (RingMismatch a b))"
  then show False
  proof (cases rule: start_node_cases)
    case (cache pname mk node rec)
    with node_config_match[OF cache(2), of "node_ops pname" mk a b] show False
      by (auto simp: start_server_def start_models_def Let_def split: sum.splits if_splits option.splits)
  qed auto
qed

end
