(* ===== verification/Gateway.thy ===== *)
theory Gateway
  imports Hashring Config Rpc "HOL-Library.List_Lexorder"
begin

text \<open>
  \<^verbatim>\<open>cmd/gateway/main.go\<close>: the server that forwards a request for a key to the node the ring picks, and
  asks every node for a deletion or for statistics. The nodes' clients are a parameter, the answer of a
  call on a node; when a request's context ends is an input. A request that waits for a slot is one
  that cannot step: \<open>admit\<close> returns \<open>None\<close>.
\<close>

section \<open>State\<close>

text \<open>The semaphore channel holds \<open>g_inflight\<close> of \<open>g_limit\<close> tokens; \<open>g_routed\<close> is the metric.\<close>

record gateway =
  g_ring :: hring
  g_nodes :: "byte list list"
  g_inflight :: int
  g_limit :: int
  g_routed :: "byte list list"

section \<open>Requests for one key\<close>

text \<open>\<open>%q\<close> escapes nothing in a name of printable ASCII without quotes and backslashes, as addresses are.\<close>

definition quoted :: "byte list \<Rightarrow> string" where
  "quoted name = [CHR 0x22] @ map (\<lambda>b. char_of (unat b)) name @ [CHR 0x22]"

definition done_name :: "byte list \<Rightarrow> gateway \<Rightarrow> gateway" where
  "done_name name s = s\<lparr>g_ring := Done name (g_ring s)\<rparr>"

definition route :: "(fl \<Rightarrow> int) \<Rightarrow> byte list \<Rightarrow> gateway \<Rightarrow> (rpc_error + byte list) \<times> gateway" where
  "route impl key s =
     (case Pick impl key (g_ring s) of
        (Inl _, r) \<Rightarrow> (Inl (CodeUnavailable, ''no cache nodes configured''), s\<lparr>g_ring := r\<rparr>)
      | (Inr name, r) \<Rightarrow>
          let s = s\<lparr>g_ring := r\<rparr>
          in if name \<notin> set (g_nodes s)
             then (Inl (CodeInternal, ''ring returned unknown node '' @ quoted name), done_name name s)
             else (Inr name, s\<lparr>g_routed := g_routed s @ [name]\<rparr>))"

definition admit :: "ctx_end option \<Rightarrow> gateway \<Rightarrow> ((rpc_error + unit) \<times> gateway) option" where
  "admit gone s =
     (case gone of
        None \<Rightarrow> if g_inflight s < g_limit s then Some (Inr (), s\<lparr>g_inflight := g_inflight s + 1\<rparr>) else None
      | Some e \<Rightarrow>
          if e = CtxCanceled then Some (Inl (FromContextError e), s)
          else Some (Inl (CodeResourceExhausted, ''gateway at capacity''), s))"

definition release :: "gateway \<Rightarrow> gateway" where
  "release s = s\<lparr>g_inflight := g_inflight s - 1\<rparr>"

text \<open>The deferred calls run in reverse order: the node's load is released, then the slot.\<close>

definition forward :: "(fl \<Rightarrow> int) \<Rightarrow> (byte list \<Rightarrow> rpc_error + 'r) \<Rightarrow> ctx_end option \<Rightarrow> byte list \<Rightarrow> gateway \<Rightarrow>
    ((rpc_error + 'r) \<times> gateway) option" where
  "forward impl call gone key s =
     (if key = [] then Some (Inl key_empty, s)
      else case admit gone s of
        None \<Rightarrow> None
      | Some (Inl e, s) \<Rightarrow> Some (Inl e, s)
      | Some (Inr _, s) \<Rightarrow>
          (case route impl key s of
             (Inl e, s) \<Rightarrow> Some (Inl e, release s)
           | (Inr name, s) \<Rightarrow> Some (call name, release (done_name name s))))"

definition gw_get :: "(fl \<Rightarrow> int) \<Rightarrow> (byte list \<Rightarrow> rpc_error + get_response) \<Rightarrow> ctx_end option \<Rightarrow> byte list \<Rightarrow> gateway \<Rightarrow>
    ((rpc_error + get_response) \<times> gateway) option" where
  "gw_get = forward"

definition gw_put :: "(fl \<Rightarrow> int) \<Rightarrow> (byte list \<Rightarrow> rpc_error + put_response) \<Rightarrow> ctx_end option \<Rightarrow> byte list \<Rightarrow> gateway \<Rightarrow>
    ((rpc_error + put_response) \<times> gateway) option" where
  "gw_put = forward"

section \<open>Requests to every node\<close>

text \<open>
  The calls run in parallel; \<open>order\<close> is the order in which they finish. \<open>errgroup\<close> keeps the first failure;
  calls cancelled after it fail later. The answers are in the order of the names.
\<close>

definition failed :: "rpc_error + 'r \<Rightarrow> bool" where
  "failed r \<longleftrightarrow> (case r of Inl _ \<Rightarrow> True | Inr _ \<Rightarrow> False)"

definition node_error :: "string \<Rightarrow> byte list \<Rightarrow> rpc_error \<Rightarrow> rpc_error" where
  "node_error op name e =
     (fst e, op @ '' on '' @ map (\<lambda>b. char_of (unat b)) name @ '' failed: '' @ snd e)"

definition broadcast :: "string \<Rightarrow> (byte list \<Rightarrow> rpc_error + 'r) \<Rightarrow> byte list list \<Rightarrow> ctx_end option \<Rightarrow> gateway \<Rightarrow>
    ((rpc_error + 'r list) \<times> gateway) option" where
  "broadcast op call order gone s =
     (case admit gone s of
        None \<Rightarrow> None
      | Some (Inl e, s) \<Rightarrow> Some (Inl e, s)
      | Some (Inr _, s) \<Rightarrow>
          let names = sort (g_nodes s)
          in Some (case find (\<lambda>name. failed (call name)) order of
                     Some name \<Rightarrow> Inl (node_error op name (projl (call name)))
                   | None \<Rightarrow> Inr (map (\<lambda>name. projr (call name)) names),
                   release s))"

definition gw_delete :: "(byte list \<Rightarrow> rpc_error + bool) \<Rightarrow> byte list list \<Rightarrow> ctx_end option \<Rightarrow> byte list \<Rightarrow> gateway \<Rightarrow>
    ((rpc_error + bool) \<times> gateway) option" where
  "gw_delete call order gone key s =
     (if key = [] then Some (Inl key_empty, s)
      else case broadcast ''delete'' call order gone s of
        None \<Rightarrow> None
      | Some (Inl e, s) \<Rightarrow> Some (Inl e, s)
      | Some (Inr rs, s) \<Rightarrow> Some (Inr (fold (\<lambda>r existed. existed \<or> r) rs False), s))"

definition gateway_zero :: stats_response where
  "gateway_zero = stats.extend (zero_stats [])
     \<lparr>NodeId = ''gateway'', ModelVersion = [], TraceWritten = 0, TraceDropped = 0\<rparr>"

definition name_stats :: "nat \<Rightarrow> stats_response \<Rightarrow> stats_response \<Rightarrow> stats_response" where
  "name_stats i st out =
     (let out = (if i = 0 then out\<lparr>st_policy := st_policy st, ModelVersion := ModelVersion st\<rparr> else out);
          out = (if st_policy out \<noteq> st_policy st then out\<lparr>st_policy := ''mixed''\<rparr> else out)
      in if ModelVersion out \<noteq> ModelVersion st then out\<lparr>ModelVersion := ''mixed''\<rparr> else out)"

definition add_stats :: "stats_response \<Rightarrow> stats_response \<Rightarrow> stats_response" where
  "add_stats st out = out\<lparr>Hits := Hits out + Hits st, Misses := Misses out + Misses st,
     HitBytes := HitBytes out + HitBytes st, MissBytes := MissBytes out + MissBytes st,
     Admissions := Admissions out + Admissions st, Rejections := Rejections out + Rejections st,
     Evictions := Evictions out + Evictions st, Expirations := Expirations out + Expirations st,
     Objects := Objects out + Objects st, BytesUsed := BytesUsed out + BytesUsed st,
     BytesCapacity := BytesCapacity out + BytesCapacity st,
     TraceWritten := TraceWritten out + TraceWritten st, TraceDropped := TraceDropped out + TraceDropped st,
     EvictNS := EvictNS out + EvictNS st, EvictSample := EvictSample out + EvictSample st\<rparr>"

definition sum_stats :: "stats_response list \<Rightarrow> stats_response" where
  "sum_stats rs =
     (let out = fold (\<lambda>(i, st) out. add_stats st (name_stats i st out)) (enumerate 0 rs) gateway_zero
      in if 0 < EvictSample out then out\<lparr>EvictNSMean := EvictNS out div EvictSample out\<rparr> else out)"

definition gw_stats :: "(byte list \<Rightarrow> rpc_error + stats_response) \<Rightarrow> byte list list \<Rightarrow> ctx_end option \<Rightarrow> gateway \<Rightarrow>
    ((rpc_error + stats_response) \<times> gateway) option" where
  "gw_stats call order gone s =
     (case broadcast ''stats'' call order gone s of
        None \<Rightarrow> None
      | Some (Inl e, s) \<Rightarrow> Some (Inl e, s)
      | Some (Inr rs, s) \<Rightarrow> Some (Inr (sum_stats rs), s))"

section \<open>Start-up\<close>

datatype gw_fatal = NoNodes | BadReplicas int | BadFactor fl | BadInflight int | DialFailed string | NoToken

fun connect :: "(vnode list \<Rightarrow> vnode list) \<Rightarrow> (string \<Rightarrow> bool) \<Rightarrow> string list \<Rightarrow> gateway \<Rightarrow> gw_fatal + gateway" where
  "connect srt dial [] s = Inr s"
| "connect srt dial (addr # addrs) s =
     (if \<not> dial addr then Inl (DialFailed addr)
      else
        let name = bytes_of addr;
            s = s\<lparr>g_nodes := (if name \<in> set (g_nodes s) then g_nodes s else g_nodes s @ [name])\<rparr>
        in connect srt dial addrs (s\<lparr>g_ring := Add srt name (g_ring s)\<rparr>))"

text \<open>
  \<open>make\<close> panics on a channel too large for memory; the limit is taken as it is. The last check guards the
  HTTP interface; the other settings of that interface are read in \<open>Gateway_Http\<close>.
\<close>

definition start_gateway :: "env \<Rightarrow> (vnode list \<Rightarrow> vnode list) \<Rightarrow> (string \<Rightarrow> bool) \<Rightarrow> gw_fatal + gateway" where
  "start_gateway env srt dial =
     (let addrs = Strings env ''CACHE_NODES'' []
      in if addrs = [] then Inl NoNodes
         else
           let replicas = Int' env ''RING_REPLICAS'' 256;
               factor = Float env ''RING_LOAD_FACTOR'' (Fin (5 / 4));
               maxInflight = Int' env ''MAX_INFLIGHT'' 4096
           in if replicas < 1 then Inl (BadReplicas replicas)
              else if factor \<le> Fin 1 then Inl (BadFactor factor)
              else if maxInflight < 1 then Inl (BadInflight maxInflight)
              else case connect srt dial addrs
                     \<lparr>g_ring = NewHashring replicas factor, g_nodes = [], g_inflight = 0, g_limit = maxInflight,
                      g_routed = []\<rparr> of
                Inl e \<Rightarrow> Inl e
              | Inr s \<Rightarrow>
                  if String env ''HTTP_ADDR'' [] \<noteq> [] \<and> String env ''HTTP_AUTH_TOKEN'' [] = [] then Inl NoToken else Inr s)"

end
