(* ===== verification/Gateway_Steps.thy ===== *)
theory Gateway_Steps
  imports Gateway
begin

text \<open>
  The gateway under concurrent requests. Every request is at a stage of \<open>forward\<close> or \<open>broadcast\<close>; one step
  takes one request over one of the calls \<open>admit\<close>, \<open>route\<close>, \<open>done\<close> and \<open>release\<close>, in any interleaving. The
  invariant says that the semaphore and the ring's loads count exactly the requests that hold them.
\<close>

section \<open>Requests and steps\<close>

datatype task = Single "byte list" | Fan

datatype stage = Queued | Admitted | AtNode "byte list" | Finished | Over

record gsys =
  gs_gw :: gateway
  gs_reqs :: "(task \<times> stage) list"

definition move :: "nat \<Rightarrow> stage \<Rightarrow> gateway \<Rightarrow> gsys \<Rightarrow> gsys" where
  "move i st gw s = s\<lparr>gs_gw := gw, gs_reqs := (gs_reqs s)[i := (fst (gs_reqs s ! i), st)]\<rparr>"

inductive gate_step :: "(fl \<Rightarrow> int) \<Rightarrow> gsys \<Rightarrow> gsys \<Rightarrow> bool" for impl where
  arrive: "t \<noteq> Single [] \<Longrightarrow> gate_step impl s (s\<lparr>gs_reqs := gs_reqs s @ [(t, Queued)]\<rparr>)"
| admitted: "i < length (gs_reqs s) \<Longrightarrow> snd (gs_reqs s ! i) = Queued \<Longrightarrow> admit gone (gs_gw s) = Some (Inr (), gw) \<Longrightarrow>
    gate_step impl s (move i Admitted gw s)"
| refused: "i < length (gs_reqs s) \<Longrightarrow> snd (gs_reqs s ! i) = Queued \<Longrightarrow> admit gone (gs_gw s) = Some (Inl e, gw) \<Longrightarrow>
    gate_step impl s (move i Over gw s)"
| routed: "i < length (gs_reqs s) \<Longrightarrow> gs_reqs s ! i = (Single key, Admitted) \<Longrightarrow> route impl key (gs_gw s) = (Inr name, gw) \<Longrightarrow>
    gate_step impl s (move i (AtNode name) gw s)"
| unrouted: "i < length (gs_reqs s) \<Longrightarrow> gs_reqs s ! i = (Single key, Admitted) \<Longrightarrow> route impl key (gs_gw s) = (Inl e, gw) \<Longrightarrow>
    gate_step impl s (move i Finished gw s)"
| answered: "i < length (gs_reqs s) \<Longrightarrow> snd (gs_reqs s ! i) = AtNode name \<Longrightarrow>
    gate_step impl s (move i Finished (done_name name (gs_gw s)) s)"
| gathered: "i < length (gs_reqs s) \<Longrightarrow> gs_reqs s ! i = (Fan, Admitted) \<Longrightarrow>
    gate_step impl s (move i Finished (gs_gw s) s)"
| released: "i < length (gs_reqs s) \<Longrightarrow> snd (gs_reqs s ! i) = Finished \<Longrightarrow>
    gate_step impl s (move i Over (release (gs_gw s)) s)"

section \<open>Counting requests\<close>

definition occ :: "(stage \<Rightarrow> bool) \<Rightarrow> (task \<times> stage) list \<Rightarrow> int" where
  "occ P reqs = sum_list (map (\<lambda>r. of_bool (P (snd r))) reqs)"

definition holding :: "stage \<Rightarrow> bool" where
  "holding st \<longleftrightarrow> st \<noteq> Queued \<and> st \<noteq> Over"

definition at_node :: "stage \<Rightarrow> bool" where
  "at_node st \<longleftrightarrow> (case st of AtNode _ \<Rightarrow> True | _ \<Rightarrow> False)"

lemma holding_simps [simp]:
  "\<not> holding Queued" "holding Admitted" "holding (AtNode name)" "holding Finished" "\<not> holding Over"
  by (simp_all add: holding_def)

lemma at_node_simps [simp]:
  "\<not> at_node Queued" "\<not> at_node Admitted" "at_node (AtNode name)" "\<not> at_node Finished" "\<not> at_node Over"
  by (simp_all add: at_node_def)

lemma occ_snoc [simp]: "occ P (reqs @ [r]) = occ P reqs + of_bool (P (snd r))"
  by (simp add: occ_def)

lemma occ_Nil [simp]: "occ P [] = 0"
  by (simp add: occ_def)

lemma occ_update:
  "i < length reqs \<Longrightarrow> occ P (reqs[i := r]) = occ P reqs - of_bool (P (snd (reqs ! i))) + of_bool (P (snd r))"
  by (simp add: occ_def sum_list_update_nth)

lemma occ_mono: "(\<And>st. P st \<Longrightarrow> Q st) \<Longrightarrow> occ P reqs \<le> occ Q reqs"
  unfolding occ_def by (intro sum_list_mono) (auto simp: of_bool_def)

lemma occ_nonneg: "0 \<le> occ P reqs"
  unfolding occ_def by (intro sum_list_nonneg) auto

lemma occ_none: "(\<And>r. r \<in> set reqs \<Longrightarrow> \<not> P (snd r)) \<Longrightarrow> occ P reqs = 0"
  by (induction reqs) (auto simp: occ_def)

lemma occ_pos:
  assumes "i < length reqs" and "P (snd (reqs ! i))"
  shows "1 \<le> occ P reqs"
  using assms
proof (induction reqs arbitrary: i)
  case (Cons r reqs)
  have "0 \<le> occ P reqs" by (rule occ_nonneg)
  with Cons show ?case by (cases i) (auto simp: occ_def)
qed simp

section \<open>The invariant\<close>

definition gate_inv :: "gsys \<Rightarrow> bool" where
  "gate_inv s \<longleftrightarrow>
     hring_inv (g_ring (gs_gw s)) \<and> hnodes (g_ring (gs_gw s)) \<noteq> [] \<and>
     set (Members (g_ring (gs_gw s))) = set (g_nodes (gs_gw s)) \<and>
     g_limit (gs_gw s) < 2 ^ 62 \<and> g_inflight (gs_gw s) \<le> g_limit (gs_gw s) \<and>
     g_inflight (gs_gw s) = occ holding (gs_reqs s) \<and>
     total (g_ring (gs_gw s)) = occ at_node (gs_reqs s) \<and>
     (\<forall>n \<in> set (hnodes (g_ring (gs_gw s))). hn_load n = occ ((=) (AtNode (hn_name n))) (gs_reqs s)) \<and>
     (\<forall>t name. (t, AtNode name) \<in> set (gs_reqs s) \<longrightarrow> name \<in> set (Members (g_ring (gs_gw s))))"

lemma Pick_charges:
  assumes inv: "hring_inv r" and ne: "hnodes r \<noteq> []"
  shows "\<exists>m < length (hnodes r). Pick impl key r = (Inr (hn_name (hnodes r ! m)), charge m r)"
proof (cases "length (hnodes r) = 1")
  case True
  then show ?thesis by (intro exI[of _ 0]) (simp add: Pick_def)
next
  case False
  let ?c = "capacityLocked impl r" and ?s = "start_index r (Hash key)"
  have V: "vnode_at r i < length (hnodes r)" for i by (rule vnode_at_less(2)[OF inv ne])
  show ?thesis
  proof (cases "pick_walk r ?c ?s [0..<length (vnodes r)]")
    case None
    then show ?thesis using False ne V by (intro exI[of _ "vnode_at r ?s"]) (simp add: Pick_def Let_def)
  next
    case (Some n)
    then have "n < length (hnodes r)" using pick_walk_Some[OF Some] V by auto
    then show ?thesis using False ne Some by (intro exI[of _ n]) (simp add: Pick_def Let_def)
  qed
qed

lemma Members_nth: "name \<in> set (Members r) \<longleftrightarrow> (\<exists>m < length (hnodes r). hn_name (hnodes r ! m) = name)"
  unfolding Members_def in_set_conv_nth by auto

lemma add_load_Members [simp]: "set (Members (add_load d m r)) = set (Members r)"
proof (cases "m < length (hnodes r)")
  case True
  have "map hn_name ((hnodes r)[m := (hnodes r ! m)\<lparr>hn_load := l\<rparr>]) = map hn_name (hnodes r)" for l
    using True by (simp add: map_update) (metis length_map list_update_id nth_map)
  then show ?thesis by (simp add: Members_def add_load_def)
qed (simp add: Members_def add_load_def list_update_beyond)

text \<open>What a charge or a discharge of node \<open>m\<close> does to the loads by name.\<close>

lemma add_load_loads:
  assumes inv: "hring_inv r" and m: "m < length (hnodes r)" and n: "n \<in> set (hnodes (add_load d m r))"
  shows "\<exists>n0 \<in> set (hnodes r). hn_name n = hn_name n0 \<and> hn_load n = hn_load n0 + (if hn_name n0 = hn_name (hnodes r ! m) then d else 0)"
proof -
  from n obtain j where j: "j < length (hnodes r)" "n = (hnodes r)[m := (hnodes r ! m)\<lparr>hn_load := hn_load (hnodes r ! m) + d\<rparr>] ! j"
    by (auto simp: add_load_def in_set_conv_nth)
  have dist: "distinct (map hn_name (hnodes r))" using inv by (simp add: hring_inv_def names_ok_def)
  show ?thesis
  proof (cases "j = m")
    case True
    with j m show ?thesis by (intro bexI[of _ "hnodes r ! m"]) simp_all
  next
    case False
    then have "hn_name (hnodes r ! j) \<noteq> hn_name (hnodes r ! m)"
      using dist j(1) m nth_eq_iff_index_eq[OF dist, of j m] by simp
    with False j show ?thesis by (intro bexI[of _ "hnodes r ! j"]) simp_all
  qed
qed

lemma gate_invD:
  assumes "gate_inv s"
  shows "hring_inv (g_ring (gs_gw s))" and "hnodes (g_ring (gs_gw s)) \<noteq> []"
    and "set (Members (g_ring (gs_gw s))) = set (g_nodes (gs_gw s))" and "loads_ok (g_ring (gs_gw s))"
    and "total (g_ring (gs_gw s)) < 2 ^ 62"
    and "g_inflight (gs_gw s) = occ holding (gs_reqs s)"
proof -
  have "occ at_node (gs_reqs s) \<le> occ holding (gs_reqs s)"
    by (rule occ_mono) (auto simp: at_node_def split: stage.splits)
  with assms show "total (g_ring (gs_gw s)) < 2 ^ 62" by (simp add: gate_inv_def)
qed (use assms in \<open>simp_all add: gate_inv_def hring_inv_def\<close>)

text \<open>Routing never meets an empty ring or a node without a client.\<close>

lemma route_ok:
  assumes inv: "gate_inv s"
  shows "\<exists>m < length (hnodes (g_ring (gs_gw s))). route impl key (gs_gw s) =
    (Inr (hn_name (hnodes (g_ring (gs_gw s)) ! m)),
     (gs_gw s)\<lparr>g_ring := add_load 1 m (g_ring (gs_gw s)),
       g_routed := g_routed (gs_gw s) @ [hn_name (hnodes (g_ring (gs_gw s)) ! m)]\<rparr>)"
proof -
  note D = gate_invD[OF inv]
  from Pick_charges[OF D(1,2), of impl key] obtain m where
    m: "m < length (hnodes (g_ring (gs_gw s)))"
    and p: "Pick impl key (g_ring (gs_gw s)) = (Inr (hn_name (hnodes (g_ring (gs_gw s)) ! m)), charge m (g_ring (gs_gw s)))"
    by blast
  have "hn_name (hnodes (g_ring (gs_gw s)) ! m) \<in> set (g_nodes (gs_gw s))"
    using m D(3) Members_nth by blast
  with m p show ?thesis by (intro exI[of _ m]) (simp add: route_def Let_def charge_add[OF D(4) m D(5)])
qed

lemma done_ok:
  assumes inv: "gate_inv s" and mem: "name \<in> set (Members (g_ring (gs_gw s)))"
  shows "\<exists>m < length (hnodes (g_ring (gs_gw s))). hn_name (hnodes (g_ring (gs_gw s)) ! m) = name \<and>
    done_name name (gs_gw s) = (gs_gw s)\<lparr>g_ring := add_load (- 1) m (g_ring (gs_gw s))\<rparr>"
proof -
  note D = gate_invD[OF inv]
  from mem obtain m where m: "m < length (hnodes (g_ring (gs_gw s)))" "hn_name (hnodes (g_ring (gs_gw s)) ! m) = name"
    unfolding Members_nth by blast
  then have "map_of (byName (g_ring (gs_gw s))) name = Some m" using D(1) by (simp add: hring_inv_def names_ok_def)
  with m show ?thesis by (intro exI[of _ m]) (simp add: done_name_def Done_def discharge_add[OF D(4) m(1) D(5)])
qed

section \<open>Every step keeps it\<close>

lemma move_simps [simp]:
  "gs_gw (move i st gw s) = gw" "gs_reqs (move i st gw s) = (gs_reqs s)[i := (fst (gs_reqs s ! i), st)]"
  by (simp_all add: move_def)

lemma move_member: "(t, AtNode name) \<in> set ((gs_reqs s)[i := (u, st)]) \<Longrightarrow> st = AtNode name \<or> (t, AtNode name) \<in> set (gs_reqs s)"
  by (auto dest!: set_update_subset_insert[THEN subsetD])

text \<open>A step that leaves the ring alone.\<close>

lemma gate_inv_slot:
  assumes inv: "gate_inv s" and i: "i < length (gs_reqs s)"
    and st: "\<not> at_node (snd (gs_reqs s ! i))" "\<not> at_node st"
    and same: "g_ring gw = g_ring (gs_gw s)" "g_nodes gw = g_nodes (gs_gw s)" "g_limit gw = g_limit (gs_gw s)"
    and slot: "g_inflight gw = g_inflight (gs_gw s) - of_bool (holding (snd (gs_reqs s ! i))) + of_bool (holding st)"
      "g_inflight gw \<le> g_limit gw"
  shows "gate_inv (move i st gw s)"
proof -
  have no: "AtNode name \<noteq> st" "AtNode name \<noteq> snd (gs_reqs s ! i)" for name
    using st at_node_simps(3)[of name] by metis+
  have "\<forall>t name. (t, AtNode name) \<in> set ((gs_reqs s)[i := (fst (gs_reqs s ! i), st)]) \<longrightarrow> name \<in> set (Members (g_ring (gs_gw s)))"
    using move_member no inv unfolding gate_inv_def by metis
  moreover have "occ ((=) (AtNode name)) ((gs_reqs s)[i := (fst (gs_reqs s ! i), st)]) = occ ((=) (AtNode name)) (gs_reqs s)" for name
    using no by (simp add: occ_update[OF i])
  ultimately show ?thesis using inv same slot st unfolding gate_inv_def by (simp add: occ_update[OF i])
qed

text \<open>A step that charges or discharges node \<open>m\<close>, \<open>d\<close> being what it adds to the load.\<close>

lemma gate_inv_load:
  assumes inv: "gate_inv s" and i: "i < length (gs_reqs s)" and m: "m < length (hnodes (g_ring (gs_gw s)))"
    and st: "holding (snd (gs_reqs s ! i))" "holding st"
      "at_node (snd (gs_reqs s ! i)) \<longleftrightarrow> snd (gs_reqs s ! i) = AtNode name" "at_node st \<longleftrightarrow> st = AtNode name"
    and name: "name = hn_name (hnodes (g_ring (gs_gw s)) ! m)"
    and d: "d = of_bool (st = AtNode name) - of_bool (snd (gs_reqs s ! i) = AtNode name)"
  shows "gate_inv (move i st ((gs_gw s)\<lparr>g_ring := add_load d m (g_ring (gs_gw s)), g_routed := x\<rparr>) s)"
proof -
  let ?r = "g_ring (gs_gw s)" and ?reqs = "(gs_reqs s)[i := (fst (gs_reqs s ! i), st)]"
  note D = gate_invD[OF inv]
  have only: "AtNode n = st \<longleftrightarrow> n = name \<and> st = AtNode name"
    "AtNode n = snd (gs_reqs s ! i) \<longleftrightarrow> n = name \<and> snd (gs_reqs s ! i) = AtNode name" for n
    using st(3,4) by auto (metis at_node_simps(3) stage.inject)+
  have occ: "occ ((=) (AtNode n)) ?reqs = occ ((=) (AtNode n)) (gs_reqs s) + (if n = name then d else 0)" for n
    unfolding occ_update[OF i] d by (simp add: only)
  have load: "hn_load n = occ ((=) (AtNode (hn_name n))) (gs_reqs s)" if "n \<in> set (hnodes ?r)" for n
    using inv that by (simp add: gate_inv_def)
  have "hn_load (hnodes ?r ! m) + d = occ ((=) (AtNode name)) ?reqs" using load[of "hnodes ?r ! m"] m occ name by simp
  then have "hring_inv (add_load d m ?r)" using add_load_inv[OF D(1) m] occ_nonneg by metis
  moreover have "hnodes (add_load d m ?r) \<noteq> []" using D(2) by (simp add: add_load_def)
  moreover have "hn_load n = occ ((=) (AtNode (hn_name n))) ?reqs" if "n \<in> set (hnodes (add_load d m ?r))" for n
    using add_load_loads[OF D(1) m that] load occ name by auto
  moreover have "n \<in> set (Members ?r)" if "(t, AtNode n) \<in> set ?reqs" for t n
  proof (cases "st = AtNode n")
    case True
    then have "n = name" using only(1)[of n] by simp
    with m name show ?thesis using Members_nth by blast
  next
    case False
    with move_member[OF that] inv show ?thesis by (auto simp: gate_inv_def)
  qed
  moreover have "total (add_load d m ?r) = occ at_node ?reqs"
    using inv st(3,4) d by (simp add: gate_inv_def add_load_def occ_update[OF i])
  moreover have "occ holding ?reqs = occ holding (gs_reqs s)" using st(1,2) by (simp add: occ_update[OF i])
  ultimately show ?thesis using inv by (auto simp: gate_inv_def)
qed

lemma admit_cases:
  "admit gone gw = Some (Inr u, gw') \<Longrightarrow> g_inflight gw < g_limit gw \<and> gw' = gw\<lparr>g_inflight := g_inflight gw + 1\<rparr>"
  "admit gone gw = Some (Inl e, gw') \<Longrightarrow> gw' = gw"
  by (auto simp: admit_def split: option.splits if_splits)

lemma gate_step_inv:
  assumes "gate_step impl s s'" and "gate_inv s"
  shows "gate_inv s'"
  using assms
proof (induction rule: gate_step.induct)
  case (arrive t s)
  then show ?case by (auto simp: gate_inv_def)
next
  case (admitted i s gone gw)
  note A = admit_cases(1)[OF admitted(3)]
  show ?case by (rule gate_inv_slot[OF admitted(4,1)]) (use A admitted(2) in simp_all)
next
  case (refused i s gone e gw)
  note A = admit_cases(2)[OF refused(3)]
  show ?case by (rule gate_inv_slot[OF refused(4,1)]) (use A refused(2,4) in \<open>simp_all add: gate_inv_def\<close>)
next
  case (routed i s key name gw)
  from route_ok[OF routed(4), of impl key] routed(3) obtain m where
    m: "m < length (hnodes (g_ring (gs_gw s)))" "name = hn_name (hnodes (g_ring (gs_gw s)) ! m)"
      "gw = (gs_gw s)\<lparr>g_ring := add_load 1 m (g_ring (gs_gw s)), g_routed := g_routed (gs_gw s) @ [name]\<rparr>" by auto
  show ?case unfolding m(3) by (rule gate_inv_load[OF routed(4,1) m(1) _ _ _ _ m(2)]) (use routed(2) in simp_all)
next
  case (unrouted i s key e gw)
  then show ?case using route_ok[OF unrouted(4), of impl key] by auto
next
  case (answered i s name)
  have "name \<in> set (Members (g_ring (gs_gw s)))"
    using answered by (auto simp: gate_inv_def) (metis nth_mem prod.collapse)+
  from done_ok[OF answered(3) this] obtain m where
    m: "m < length (hnodes (g_ring (gs_gw s)))" "name = hn_name (hnodes (g_ring (gs_gw s)) ! m)"
      "done_name name (gs_gw s) = (gs_gw s)\<lparr>g_ring := add_load (- 1) m (g_ring (gs_gw s))\<rparr>" by auto
  have "gate_inv (move i Finished ((gs_gw s)\<lparr>g_ring := add_load (- 1) m (g_ring (gs_gw s)), g_routed := g_routed (gs_gw s)\<rparr>) s)"
    by (rule gate_inv_load[OF answered(3,1) m(1) _ _ _ _ m(2)]) (use answered(2) in simp_all)
  then show ?case by (simp add: m(3))
next
  case (gathered i s)
  show ?case by (rule gate_inv_slot[OF gathered(3,1)]) (use gathered(2,3) in \<open>simp_all add: gate_inv_def\<close>)
next
  case (released i s)
  show ?case by (rule gate_inv_slot[OF released(3,1)]) (use released(2,3) in \<open>simp_all add: gate_inv_def release_def\<close>)
qed

section \<open>A gateway that starts\<close>

lemma Add_members:
  "names_ok r \<Longrightarrow> set (Members (Add srt name r)) = insert name (set (Members r))"
proof (cases "map_of (byName r) name")
  case None
  then show ?thesis by (simp add: Add_new Members_def)
next
  case (Some i)
  assume "names_ok r"
  with Some have "i < length (hnodes r)" "hn_name (hnodes r ! i) = name" by (auto simp: names_ok_def)
  then have "name \<in> set (Members r)" unfolding Members_nth by blast
  with Some show ?thesis by (auto simp: Add_def)
qed

lemma Add_loads:
  "length (hnodes (Add srt name r)) \<le> Suc (length (hnodes r)) \<and> hring.total (Add srt name r) = hring.total r \<and>
    hn_load ` set (hnodes (Add srt name r)) \<subseteq> insert 0 (hn_load ` set (hnodes r))"
  by (cases "map_of (byName r) name") (auto simp: Add_new, auto simp: Add_def)

text \<open>The ring of a gateway with no request: every load is zero.\<close>

definition idle_ring :: "nat \<Rightarrow> gateway \<Rightarrow> bool" where
  "idle_ring n s \<longleftrightarrow> hring_inv (g_ring s) \<and> length (hnodes (g_ring s)) \<le> n \<and> total (g_ring s) = 0 \<and>
     (\<forall>x \<in> set (hnodes (g_ring s)). hn_load x = 0) \<and> set (Members (g_ring s)) = set (g_nodes s)"

lemma connect_idle:
  assumes "connect srt dial addrs s = Inr s'" and "idle_ring n s" and "is_sort srt" and "n + length addrs < 2 ^ 31"
  shows "idle_ring (n + length addrs) s' \<and> set (Members (g_ring s')) = set (Members (g_ring s)) \<union> bytes_of ` set addrs \<and>
    g_inflight s' = g_inflight s \<and> g_limit s' = g_limit s \<and> g_routed s' = g_routed s"
  using assms
proof (induction addrs arbitrary: s n)
  case (Cons addr addrs)
  let ?nodes = "if bytes_of addr \<in> set (g_nodes s) then g_nodes s else g_nodes s @ [bytes_of addr]"
  let ?s = "s\<lparr>g_nodes := ?nodes, g_ring := Add srt (bytes_of addr) (g_ring s)\<rparr>"
  have c: "connect srt dial addrs ?s = Inr s'" using Cons.prems(1) by (auto simp: Let_def split: if_splits)
  have inv: "hring_inv (Add srt (bytes_of addr) (g_ring s))"
    by (rule Add_inv) (use Cons.prems(2-4) in \<open>auto simp: idle_ring_def\<close>)
  have mem: "set (Members (Add srt (bytes_of addr) (g_ring s))) = insert (bytes_of addr) (set (Members (g_ring s)))"
    by (rule Add_members) (use Cons.prems(2) in \<open>simp add: idle_ring_def hring_inv_def\<close>)
  have "idle_ring (Suc n) ?s"
    using Cons.prems(2) inv mem Add_loads[of srt "bytes_of addr" "g_ring s"] by (auto simp: idle_ring_def)
  from Cons.IH[OF c this Cons.prems(3)] Cons.prems(4) mem show ?case by auto
qed simp

text \<open>The started gateway before its first request, and what the start-up checks leave.\<close>

definition at_rest :: "gateway \<Rightarrow> gsys" where
  "at_rest g = \<lparr>gs_gw = g, gs_reqs = []\<rparr>"

lemma start_gateway_ok:
  assumes start: "start_gateway env srt dial = Inr g" and srt: "is_sort srt"
    and few: "length (Strings env ''CACHE_NODES'' []) < 2 ^ 31" and lim: "Int' env ''MAX_INFLIGHT'' 4096 < 2 ^ 62"
  shows "gate_inv (at_rest g)" and "set (Members (g_ring g)) = bytes_of ` set (Strings env ''CACHE_NODES'' [])"
    and "g_limit g = Int' env ''MAX_INFLIGHT'' 4096"
proof -
  let ?addrs = "Strings env ''CACHE_NODES'' []"
  let ?g0 = "\<lparr>g_ring = NewHashring (Int' env ''RING_REPLICAS'' 256) (Float env ''RING_LOAD_FACTOR'' (Fin (5 / 4))), g_nodes = [],
    g_inflight = 0, g_limit = Int' env ''MAX_INFLIGHT'' 4096, g_routed = []\<rparr>"
  have ne: "?addrs \<noteq> []" and pos: "1 \<le> Int' env ''MAX_INFLIGHT'' 4096" and c: "connect srt dial ?addrs ?g0 = Inr g"
    using start by (auto simp: start_gateway_def Let_def split: if_splits sum.splits)
  have "idle_ring 0 ?g0" using NewHashring_inv by (simp add: idle_ring_def Members_def) (simp add: NewHashring_def Let_def)
  from connect_idle[OF c this srt] few have
    g: "idle_ring (length ?addrs) g" "set (Members (g_ring g)) = bytes_of ` set ?addrs" "g_inflight g = 0"
      "g_limit g = Int' env ''MAX_INFLIGHT'' 4096"
    by (auto simp: Members_def NewHashring_def Let_def)
  have "hnodes (g_ring g) \<noteq> []" using g(2) ne by (auto simp: Members_def)
  then show "gate_inv (at_rest g)" using g pos lim by (simp add: gate_inv_def at_rest_def idle_ring_def)
  show "set (Members (g_ring g)) = bytes_of ` set ?addrs" "g_limit g = Int' env ''MAX_INFLIGHT'' 4096" using g by simp_all
qed

lemma reachable_inv:
  assumes "(gate_step impl)\<^sup>*\<^sup>* s s'" and "gate_inv s"
  shows "gate_inv s'"
  using assms by (induction rule: rtranclp_induct) (auto intro: gate_step_inv)

text \<open>What no step changes.\<close>

lemma gate_step_fixed:
  assumes "gate_step impl s s'" and "gate_inv s"
  shows "g_limit (gs_gw s') = g_limit (gs_gw s) \<and> set (Members (g_ring (gs_gw s'))) = set (Members (g_ring (gs_gw s)))"
  using assms
proof (cases rule: gate_step.cases)
  case (routed i key name gw)
  with route_ok[OF assms(2), of impl key] show ?thesis by auto
next
  case (unrouted i key e gw)
  with route_ok[OF assms(2), of impl key] show ?thesis by auto
next
  case (answered i name)
  have "name \<in> set (Members (g_ring (gs_gw s)))"
    using answered assms(2) by (auto simp: gate_inv_def) (metis nth_mem prod.collapse)+
  from done_ok[OF assms(2) this] show ?thesis using answered by auto
qed (auto dest!: admit_cases simp: release_def)

lemma reachable_fixed:
  assumes "(gate_step impl)\<^sup>*\<^sup>* s s'" and "gate_inv s"
  shows "g_limit (gs_gw s') = g_limit (gs_gw s) \<and> set (Members (g_ring (gs_gw s'))) = set (Members (g_ring (gs_gw s)))"
  using assms
proof (induction rule: rtranclp_induct)
  case (step y z)
  from gate_step_fixed[OF step(2) reachable_inv[OF step(1) step(4)]] step(3,4) show ?case by simp
qed simp

section \<open>No request is stuck\<close>

text \<open>How many steps a request is from its end.\<close>

fun rank :: "stage \<Rightarrow> nat" where
  "rank Admitted = 3"
| "rank (AtNode name) = 2"
| "rank Finished = 1"
| "rank _ = 0"

definition work :: "gsys \<Rightarrow> nat" where
  "work s = sum_list (map (\<lambda>r. rank (snd r)) (gs_reqs s))"

lemma holding_rank: "holding st \<longleftrightarrow> 0 < rank st"
  by (cases st) simp_all

lemma work_0_idle: "work s = 0 \<Longrightarrow> \<not> holding (snd r)" if "r \<in> set (gs_reqs s)"
  using that by (auto simp: work_def holding_rank)

text \<open>Whatever the other requests do, a request that holds a slot has a step of its own, towards its end.\<close>

lemma holding_steps:
  assumes inv: "gate_inv s" and i: "i < length (gs_reqs s)" and h: "holding (snd (gs_reqs s ! i))"
  shows "\<exists>st gw. gate_step impl s (move i st gw s) \<and> rank st < rank (snd (gs_reqs s ! i))"
proof (cases "snd (gs_reqs s ! i)")
  case Admitted
  show ?thesis
  proof (cases "fst (gs_reqs s ! i)")
    case (Single key)
    with Admitted have r: "gs_reqs s ! i = (Single key, Admitted)" by (cases "gs_reqs s ! i") simp
    from route_ok[OF inv, of impl key] obtain name gw where "route impl key (gs_gw s) = (Inr name, gw)" by auto
    from gate_step.routed[OF i r this] show ?thesis using Admitted by (intro exI[of _ "AtNode name"] exI[of _ gw]) simp
  next
    case Fan
    with Admitted have r: "gs_reqs s ! i = (Fan, Admitted)" by (cases "gs_reqs s ! i") simp
    from gate_step.gathered[OF i r] show ?thesis using Admitted by (intro exI[of _ Finished] exI) simp
  qed
next
  case (AtNode name)
  from gate_step.answered[OF i AtNode] show ?thesis using AtNode by (intro exI[of _ Finished] exI) simp
next
  case Finished
  from gate_step.released[OF i Finished] show ?thesis using Finished by (intro exI[of _ Over] exI) simp
qed (use h in simp_all)

lemma work_move:
  assumes "i < length (gs_reqs s)" and "rank st < rank (snd (gs_reqs s ! i))"
  shows "work (move i st gw s) < work s"
proof -
  have "map (\<lambda>r. rank (snd r)) ((gs_reqs s)[i := (t, st)]) = (map (\<lambda>r. rank (snd r)) (gs_reqs s))[i := rank st]" for t
    by (simp add: map_update)
  moreover have "rank (snd (gs_reqs s ! i)) \<le> sum_list (map (\<lambda>r. rank (snd r)) (gs_reqs s))"
    using assms(1) by (intro member_le_sum_list) auto
  ultimately show ?thesis using assms by (simp add: work_def sum_list_update)
qed

text \<open>From every state of the invariant the requests in flight can end, and then nothing is held.\<close>

lemma drains:
  assumes "gate_inv s"
  shows "\<exists>s'. (gate_step impl)\<^sup>*\<^sup>* s s' \<and> gate_inv s' \<and> work s' = 0"
  using assms
proof (induction "work s" arbitrary: s rule: less_induct)
  case less
  show ?case
  proof (cases "work s = 0")
    case True
    with less.prems show ?thesis by blast
  next
    case False
    then obtain r where "r \<in> set (gs_reqs s)" "holding (snd r)" by (auto simp: work_def holding_rank)
    then obtain i where i: "i < length (gs_reqs s)" "holding (snd (gs_reqs s ! i))" by (auto simp: in_set_conv_nth)
    from holding_steps[OF less.prems i, of impl] obtain st gw where
      st: "gate_step impl s (move i st gw s)" "rank st < rank (snd (gs_reqs s ! i))" by blast
    from less.hyps[OF work_move[OF i(1) st(2)] gate_step_inv[OF st(1) less.prems]] obtain s' where
      "(gate_step impl)\<^sup>*\<^sup>* (move i st gw s) s'" "gate_inv s'" "work s' = 0" by blast
    with st(1) show ?thesis by (meson converse_rtranclp_into_rtranclp)
  qed
qed

lemma idle_gateway:
  assumes "gate_inv s" and "work s = 0"
  shows "g_inflight (gs_gw s) = 0" and "total (g_ring (gs_gw s)) = 0"
    and "n \<in> set (hnodes (g_ring (gs_gw s))) \<Longrightarrow> hn_load n = 0"
proof -
  have none: "occ P (gs_reqs s) = 0" if "\<And>st. P st \<Longrightarrow> holding st" for P
    using work_0_idle[OF _ assms(2)] that by (intro occ_none) blast
  show "g_inflight (gs_gw s) = 0" "total (g_ring (gs_gw s)) = 0"
    using assms(1) none[of holding] none[of at_node] by (auto simp: gate_inv_def at_node_def split: stage.splits)
  show "hn_load n = 0" if "n \<in> set (hnodes (g_ring (gs_gw s)))"
    using assms(1) that none[of "(=) (AtNode (hn_name n))"] by (auto simp: gate_inv_def)
qed

section \<open>A request by itself\<close>

lemma Done_undoes_charge:
  assumes inv: "hring_inv r" and m: "m < length (hnodes r)" and T: "total r + 1 < 2 ^ 62"
  shows "Done (hn_name (hnodes r ! m)) (add_load 1 m r) = r"
proof -
  let ?r = "add_load 1 m r"
  have "loads_ok r" using inv by (simp add: hring_inv_def)
  then have l: "loads_ok ?r" using add_load_inv[OF inv m, of 1] load_le_total(1)[of r m] m by (simp add: hring_inv_def)
  have "map_of (byName r) (hn_name (hnodes r ! m)) = Some m" using inv m by (simp add: hring_inv_def names_ok_def)
  then have "map_of (byName ?r) (hn_name (hnodes r ! m)) = Some m" by (simp add: add_load_def)
  moreover have "discharge m ?r = add_load (- 1) m ?r"
    by (rule discharge_add[OF l]) (use m T in \<open>simp_all add: add_load_def\<close>)
  moreover have "add_load (- 1) m ?r = r" using m by (simp add: add_load_def)
  ultimately show ?thesis by (simp add: Done_def)
qed

text \<open>Up to the metric, a gateway is as it was.\<close>

definition same_gateway :: "gateway \<Rightarrow> gateway \<Rightarrow> bool" where
  "same_gateway g g' \<longleftrightarrow> g'\<lparr>g_routed := g_routed g\<rparr> = g"

lemma same_gateway_refl [simp]: "same_gateway g g"
  by (simp add: same_gateway_def)

lemma same_gatewayD:
  assumes "same_gateway g g'"
  shows "g_ring g' = g_ring g" and "g_nodes g' = g_nodes g" and "g_inflight g' = g_inflight g" and "g_limit g' = g_limit g"
  using arg_cong[OF assms[unfolded same_gateway_def], of g_ring] arg_cong[OF assms[unfolded same_gateway_def], of g_nodes]
    arg_cong[OF assms[unfolded same_gateway_def], of g_inflight] arg_cong[OF assms[unfolded same_gateway_def], of g_limit]
  by simp_all

lemma same_gateway_inv: "same_gateway (gs_gw s) g' \<Longrightarrow> gate_inv s \<Longrightarrow> gate_inv (s\<lparr>gs_gw := g'\<rparr>)"
  by (frule same_gatewayD(1); frule same_gatewayD(2); frule same_gatewayD(3); frule same_gatewayD(4)) (unfold gate_inv_def, simp, metis)

text \<open>What the wait for a slot can answer when the context ends first.\<close>

definition gone_error :: "ctx_end \<Rightarrow> rpc_error" where
  "gone_error e =
     (case e of CtxCanceled \<Rightarrow> FromContextError CtxCanceled
      | CtxDeadlineExceeded \<Rightarrow> (CodeResourceExhausted, ''gateway at capacity''))"

lemma admit_result:
  "admit (Some e) g = Some (Inl (gone_error e), g)"
  "g_inflight g < g_limit g \<Longrightarrow> admit None g = Some (Inr (), g\<lparr>g_inflight := g_inflight g + 1\<rparr>)"
  "g_limit g \<le> g_inflight g \<Longrightarrow> admit None g = None"
  by (cases e) (auto simp: admit_def gone_error_def)

lemma forward_result:
  assumes inv: "gate_inv s" and g: "gs_gw s = g"
  shows "key = [] \<Longrightarrow> forward impl call gone key g = Some (Inl key_empty, g)"
    and "key \<noteq> [] \<Longrightarrow> forward impl call (Some e) key g = Some (Inl (gone_error e), g)"
    and "key \<noteq> [] \<Longrightarrow> g_inflight g < g_limit g \<Longrightarrow>
      \<exists>name \<in> set (g_nodes g). \<exists>g'. forward impl call None key g = Some (call name, g') \<and> same_gateway g g'"
proof -
  show "key = [] \<Longrightarrow> forward impl call gone key g = Some (Inl key_empty, g)" by (simp add: forward_def)
  show "key \<noteq> [] \<Longrightarrow> forward impl call (Some e) key g = Some (Inl (gone_error e), g)" by (simp add: forward_def admit_result)
  assume key: "key \<noteq> []" and room: "g_inflight g < g_limit g"
  let ?g1 = "g\<lparr>g_inflight := g_inflight g + 1\<rparr>"
  have lim: "g_limit g < 2 ^ 62" "total (g_ring g) \<le> g_inflight g"
    using inv g occ_mono[of at_node holding "gs_reqs s"] by (auto simp: gate_inv_def at_node_def split: stage.splits)
  have T: "total (g_ring g) + 1 < 2 ^ 62" using lim room by linarith
  from route_ok[OF inv, of impl key] g obtain m where m: "m < length (hnodes (g_ring g))"
    and r: "route impl key g = (Inr (hn_name (hnodes (g_ring g) ! m)),
      g\<lparr>g_ring := add_load 1 m (g_ring g), g_routed := g_routed g @ [hn_name (hnodes (g_ring g) ! m)]\<rparr>)" by blast
  have "route impl key ?g1 = (fst (route impl key g), (snd (route impl key g))\<lparr>g_inflight := g_inflight g + 1\<rparr>)"
    by (simp add: route_def Let_def done_name_def split: prod.splits sum.splits)
  then have "forward impl call None key g = Some (call (hn_name (hnodes (g_ring g) ! m)),
      g\<lparr>g_routed := g_routed g @ [hn_name (hnodes (g_ring g) ! m)]\<rparr>)"
    using key room gate_invD(1)[OF inv] g m T r
    by (simp add: forward_def admit_result release_def done_name_def Done_undoes_charge)
  moreover have "hn_name (hnodes (g_ring g) ! m) \<in> set (g_nodes g)" using m gate_invD(3)[OF inv] g Members_nth by blast
  ultimately show "\<exists>name \<in> set (g_nodes g). \<exists>g'. forward impl call None key g = Some (call name, g') \<and> same_gateway g g'"
    by (intro bexI exI conjI) (auto simp: same_gateway_def)
qed

text \<open>A request to every node, \<open>order\<close> holding the nodes in the order in which their calls finish.\<close>

lemma broadcast_result:
  assumes "set order = set (g_nodes g)" and "g_inflight g < g_limit g"
  shows "(\<exists>name \<in> set (g_nodes g). \<exists>e. call name = Inl e \<and> broadcast op call order None g = Some (Inl (node_error op name e), g)) \<or>
    (\<forall>name \<in> set (g_nodes g). \<exists>r. call name = Inr r) \<and>
      broadcast op call order None g = Some (Inr (map (\<lambda>name. projr (call name)) (sort (g_nodes g))), g)"
proof (cases "find (\<lambda>name. failed (call name)) order")
  case None
  then have "\<exists>r. call name = Inr r" if "name \<in> set (g_nodes g)" for name
    using that assms(1) by (cases "call name") (auto simp: find_None_iff failed_def)
  with None show ?thesis using assms(2) by (simp add: broadcast_def admit_result release_def Let_def)
next
  case (Some name)
  then have n: "name \<in> set (g_nodes g)" "failed (call name)" using assms(1) by (auto simp: find_Some_iff)
  then obtain e where e: "call name = Inl e" unfolding failed_def by (cases "call name") simp_all
  have "broadcast op call order None g = Some (Inl (node_error op name e), g)"
    using Some e assms(2) by (simp add: broadcast_def admit_result release_def Let_def)
  with n(1) e show ?thesis by blast
qed

lemma any_existed: "fold (\<lambda>r existed. existed \<or> r) rs b \<longleftrightarrow> b \<or> True \<in> set rs"
  by (induction rs arbitrary: b) auto

lemma delete_result:
  assumes "set order = set (g_nodes g)" and "g_inflight g < g_limit g" and "key \<noteq> []"
  shows "(\<exists>name \<in> set (g_nodes g). \<exists>e. call name = Inl e \<and> gw_delete call order None key g = Some (Inl (node_error ''delete'' name e), g)) \<or>
    (\<forall>name \<in> set (g_nodes g). \<exists>r. call name = Inr r) \<and>
      gw_delete call order None key g = Some (Inr (\<exists>name \<in> set (g_nodes g). call name = Inr True), g)"
  using broadcast_result[OF assms(1,2), of call "''delete''"]
proof
  assume "\<exists>name \<in> set (g_nodes g). \<exists>e. call name = Inl e \<and> broadcast ''delete'' call order None g = Some (Inl (node_error ''delete'' name e), g)"
  then obtain name e where "name \<in> set (g_nodes g)" "call name = Inl e"
    "broadcast ''delete'' call order None g = Some (Inl (node_error ''delete'' name e), g)" by blast
  moreover from this(3) have "gw_delete call order None key g = Some (Inl (node_error ''delete'' name e), g)"
    using assms(3) by (simp add: gw_delete_def)
  ultimately show ?thesis by blast
next
  assume ok: "(\<forall>name \<in> set (g_nodes g). \<exists>r. call name = Inr r) \<and>
      broadcast ''delete'' call order None g = Some (Inr (map (\<lambda>name. projr (call name)) (sort (g_nodes g))), g)"
  then have "True \<in> (\<lambda>name. projr (call name)) ` set (g_nodes g) \<longleftrightarrow> (\<exists>name \<in> set (g_nodes g). call name = Inr True)"
    by (force simp: image_iff)
  with ok show ?thesis using assms(3) by (simp add: gw_delete_def any_existed)
qed

section \<open>Sums of statistics\<close>

definition stats_fold :: "nat \<Rightarrow> stats_response list \<Rightarrow> stats_response \<Rightarrow> stats_response" where
  "stats_fold n rs out = fold (\<lambda>(i, st) out. add_stats st (name_stats i st out)) (enumerate n rs) out"

lemma stats_fold_simps:
  "stats_fold n [] out = out"
  "stats_fold n (st # rs) out = stats_fold (Suc n) rs (add_stats st (name_stats n st out))"
  by (simp_all add: stats_fold_def)

lemma name_stats_more [simp]:
  "Hits (name_stats i st out) = Hits out" "Misses (name_stats i st out) = Misses out"
  "HitBytes (name_stats i st out) = HitBytes out" "MissBytes (name_stats i st out) = MissBytes out"
  "Objects (name_stats i st out) = Objects out" "BytesUsed (name_stats i st out) = BytesUsed out"
  "BytesCapacity (name_stats i st out) = BytesCapacity out"
  "EvictNS (name_stats i st out) = EvictNS out" "EvictSample (name_stats i st out) = EvictSample out"
  "EvictNSMean (name_stats i st out) = EvictNSMean out"
  by (simp_all add: name_stats_def Let_def)

lemma add_stats_fields [simp]:
  "Hits (add_stats st out) = Hits out + Hits st" "Misses (add_stats st out) = Misses out + Misses st"
  "HitBytes (add_stats st out) = HitBytes out + HitBytes st" "MissBytes (add_stats st out) = MissBytes out + MissBytes st"
  "Objects (add_stats st out) = Objects out + Objects st" "BytesUsed (add_stats st out) = BytesUsed out + BytesUsed st"
  "BytesCapacity (add_stats st out) = BytesCapacity out + BytesCapacity st"
  "EvictNS (add_stats st out) = EvictNS out + EvictNS st" "EvictSample (add_stats st out) = EvictSample out + EvictSample st"
  "EvictNSMean (add_stats st out) = EvictNSMean out"
  "st_policy (add_stats st out) = st_policy out" "ModelVersion (add_stats st out) = ModelVersion out"
  by (simp_all add: add_stats_def)

lemma stats_fold_sums:
  "Hits (stats_fold n rs out) = Hits out + sum_list (map Hits rs)"
  "Misses (stats_fold n rs out) = Misses out + sum_list (map Misses rs)"
  "HitBytes (stats_fold n rs out) = HitBytes out + sum_list (map HitBytes rs)"
  "MissBytes (stats_fold n rs out) = MissBytes out + sum_list (map MissBytes rs)"
  "Objects (stats_fold n rs out) = Objects out + sum_list (map Objects rs)"
  "BytesUsed (stats_fold n rs out) = BytesUsed out + sum_list (map BytesUsed rs)"
  "BytesCapacity (stats_fold n rs out) = BytesCapacity out + sum_list (map BytesCapacity rs)"
  "EvictNS (stats_fold n rs out) = EvictNS out + sum_list (map EvictNS rs)"
  "EvictSample (stats_fold n rs out) = EvictSample out + sum_list (map EvictSample rs)"
  "EvictNSMean (stats_fold n rs out) = EvictNSMean out"
  by (induction rs arbitrary: n out) (simp_all add: stats_fold_simps add.assoc)

text \<open>A name stays as long as all nodes report it, and is \<open>mixed\<close> from the first that does not.\<close>

lemma stats_fold_names:
  assumes "0 < n"
  shows "st_policy (stats_fold n rs out) = (if \<forall>st \<in> set rs. st_policy st = st_policy out then st_policy out else ''mixed'')"
    and "ModelVersion (stats_fold n rs out) = (if \<forall>st \<in> set rs. ModelVersion st = ModelVersion out then ModelVersion out else ''mixed'')"
  using assms by (induction rs arbitrary: n out) (auto simp: stats_fold_simps name_stats_def Let_def)

lemma sum_stats_fields:
  assumes "rs \<noteq> []"
  shows "st_policy (sum_stats rs) = (if \<forall>st \<in> set rs. st_policy st = st_policy (hd rs) then st_policy (hd rs) else ''mixed'')"
    and "ModelVersion (sum_stats rs) = (if \<forall>st \<in> set rs. ModelVersion st = ModelVersion (hd rs) then ModelVersion (hd rs) else ''mixed'')"
    and "Hits (sum_stats rs) = sum_list (map Hits rs)" and "Misses (sum_stats rs) = sum_list (map Misses rs)"
    and "HitBytes (sum_stats rs) = sum_list (map HitBytes rs)" and "MissBytes (sum_stats rs) = sum_list (map MissBytes rs)"
    and "Objects (sum_stats rs) = sum_list (map Objects rs)" and "BytesUsed (sum_stats rs) = sum_list (map BytesUsed rs)"
    and "BytesCapacity (sum_stats rs) = sum_list (map BytesCapacity rs)"
    and "EvictNSMean (sum_stats rs) = sum_list (map EvictNS rs) div sum_list (map EvictSample rs)"
proof -
  obtain st rest where rs: "rs = st # rest" using assms by (cases rs) auto
  let ?first = "add_stats st (name_stats 0 st gateway_zero)"
  have z: "Hits gateway_zero = 0" "Misses gateway_zero = 0" "HitBytes gateway_zero = 0" "MissBytes gateway_zero = 0"
    "Objects gateway_zero = 0" "BytesUsed gateway_zero = 0" "BytesCapacity gateway_zero = 0"
    "EvictNS gateway_zero = 0" "EvictSample gateway_zero = 0" "EvictNSMean gateway_zero = 0"
    by (simp_all add: gateway_zero_def zero_stats_def stats.extend_def)
  have n: "st_policy (name_stats 0 st gateway_zero) = st_policy st" "ModelVersion (name_stats 0 st gateway_zero) = ModelVersion st" by (simp_all add: name_stats_def Let_def)
  have f: "sum_stats rs = (let out = stats_fold 1 rest ?first
    in if 0 < EvictSample out then out\<lparr>EvictNSMean := EvictNS out div EvictSample out\<rparr> else out)"
    unfolding sum_stats_def stats_fold_def[symmetric] rs stats_fold_simps by simp
  show "st_policy (sum_stats rs) = (if \<forall>st \<in> set rs. st_policy st = st_policy (hd rs) then st_policy (hd rs) else ''mixed'')"
    "ModelVersion (sum_stats rs) = (if \<forall>st \<in> set rs. ModelVersion st = ModelVersion (hd rs) then ModelVersion (hd rs) else ''mixed'')"
    by (simp_all add: f[unfolded rs] rs Let_def stats_fold_names n)
  show "Hits (sum_stats rs) = sum_list (map Hits rs)" "Misses (sum_stats rs) = sum_list (map Misses rs)"
    "HitBytes (sum_stats rs) = sum_list (map HitBytes rs)" "MissBytes (sum_stats rs) = sum_list (map MissBytes rs)"
    "Objects (sum_stats rs) = sum_list (map Objects rs)" "BytesUsed (sum_stats rs) = sum_list (map BytesUsed rs)"
    "BytesCapacity (sum_stats rs) = sum_list (map BytesCapacity rs)"
    by (simp_all add: f[unfolded rs] rs Let_def stats_fold_sums z)
  show "EvictNSMean (sum_stats rs) = sum_list (map EvictNS rs) div sum_list (map EvictSample rs)"
    by (simp add: f[unfolded rs] rs Let_def stats_fold_sums z word_gt_0)
qed

end
