(* ===== verification/Gateway_Http.thy ===== *)
theory Gateway_Http
  imports Gateway_Steps
begin

text \<open>
  \<^verbatim>\<open>cmd/gateway/http.go\<close>: the REST interface over the gateway's own methods. The library's multiplexer,
  which matches a request with one of the four patterns or answers it by itself, is an input, as are the
  bytes of the body and whether reading them fails. A JSON body is its fields; encoding them is the
  library's.
\<close>

section \<open>Requests and responses\<close>

datatype json = JStr string | JBool bool | JNum u64 | JFloat fl

datatype payload = Raw "byte list" | Json "(string \<times> json) list"

record http_response =
  http_code :: int
  http_headers :: "(string \<times> string) list"
  http_payload :: payload

datatype endpoint =
    GetKey "byte list"
  | PutKey "byte list"
  | DeleteKey "byte list"
  | GetStats
  | MuxAnswer http_response

record http_request =
  rq_endpoint :: endpoint
  rq_auth :: string
  rq_ttl :: string
  rq_body :: "byte list"
  rq_broken :: bool

text \<open>The calls on the nodes, as gRPC messages: of a get, a put, a delete and a request for statistics.\<close>

record node_calls =
  call_get :: "byte list \<Rightarrow> byte list \<Rightarrow> rpc_error + get_response"
  call_put :: "byte list \<Rightarrow> byte list \<Rightarrow> u32 \<Rightarrow> byte list \<Rightarrow> rpc_error + put_response"
  call_delete :: "byte list \<Rightarrow> byte list \<Rightarrow> rpc_error + bool"
  call_stats :: "byte list \<Rightarrow> rpc_error + stats_response"

definition writeJSON :: "int \<Rightarrow> (string \<times> json) list \<Rightarrow> http_response" where
  "writeJSON code body =
     \<lparr>http_code = code, http_headers = [(''Content-Type'', ''application/json'')], http_payload = Json body\<rparr>"

definition writeError :: "int \<Rightarrow> string \<Rightarrow> http_response" where
  "writeError code msg = writeJSON code [(''error'', JStr msg)]"

definition statusClientClosed :: int where
  "statusClientClosed = 499"

definition http_status :: "code \<Rightarrow> int" where
  "http_status c =
     (case c of
        CodeInvalidArgument \<Rightarrow> 400
      | CodeNotFound \<Rightarrow> 404
      | CodeResourceExhausted \<Rightarrow> 429
      | CodeUnavailable \<Rightarrow> 503
      | CodeDeadlineExceeded \<Rightarrow> 504
      | CodeCanceled \<Rightarrow> statusClientClosed
      | _ \<Rightarrow> 500)"

definition writeStatus :: "rpc_error \<Rightarrow> http_response" where
  "writeStatus e = writeError (http_status (fst e)) (snd e)"

definition sourceName :: "source \<Rightarrow> string" where
  "sourceName s = (case s of SOURCE_CACHE \<Rightarrow> ''cache'' | SOURCE_ORIGIN \<Rightarrow> ''origin'' | _ \<Rightarrow> ''unknown'')"

definition http_ratio :: "u64 \<Rightarrow> u64 \<Rightarrow> fl" where
  "http_ratio num den = (if den = 0 then Fin 0 else fdiv F64 (f_of_int F64 (uint num)) (f_of_int F64 (uint den)))"

section \<open>The token\<close>

text \<open>
  \<open>strings.EqualFold\<close> on a prefix of seven bytes: no letter of \<^verbatim>\<open>Bearer\<close> folds with a rune outside ASCII,
  so it compares the bytes without regard to ASCII case. \<open>ConstantTimeCompare\<close> is \<open>1\<close> on equal bytes only.
\<close>

definition authorized :: "string \<Rightarrow> string \<Rightarrow> bool" where
  "authorized token got =
     (let prefix = ''Bearer ''
      in \<not> (length got \<le> length prefix \<or> map lower_char (take (length prefix) got) \<noteq> map lower_char prefix \<or>
            drop (length prefix) got \<noteq> token))"

definition unauthorized :: http_response where
  "unauthorized = (let r = writeError 401 ''unauthorized''
     in r\<lparr>http_headers := (''WWW-Authenticate'', ''Bearer realm='' @ [CHR 0x22] @ ''belady'' @ [CHR 0x22]) # http_headers r\<rparr>)"

section \<open>The handlers\<close>

definition http_get :: "(fl \<Rightarrow> int) \<Rightarrow> node_calls \<Rightarrow> ctx_end option \<Rightarrow> byte list \<Rightarrow> gateway \<Rightarrow> (http_response \<times> gateway) option" where
  "http_get impl calls gone key g =
     (if key = [] then Some (writeError 400 ''key must not be empty'', g)
      else case gw_get impl (call_get calls key) gone key g of
        None \<Rightarrow> None
      | Some (Inl e, g) \<Rightarrow> Some (writeStatus e, g)
      | Some (Inr r, g) \<Rightarrow>
          if \<not> gr_found r then Some (writeError 404 ''not found'', g)
          else Some (\<lparr>http_code = 200, http_headers = [(''Content-Type'', ''application/octet-stream''),
             (''X-Belady-Node'', gr_served_by r), (''X-Belady-Source'', sourceName (gr_source r))],
             http_payload = Raw (gr_value r)\<rparr>, g))"

definition second :: int where
  "second = 1000000000"

definition ttl_seconds :: "string \<Rightarrow> string + u32" where
  "ttl_seconds raw =
     (if raw = [] then Inr 0
      else case ParseDuration raw of
        None \<Rightarrow> Inl ''ttl must be a duration such as 30s or 5m''
      | Some d \<Rightarrow>
          if d < second \<or> 2 ^ 32 - 1 < go_div d second then Inl ''ttl must be between 1s and 2^32-1 seconds''
          else Inr (word_of_int (go_div d second)))"

definition MaxRecvBytes :: nat where
  "MaxRecvBytes = 8 * 2 ^ 20"

text \<open>\<open>MaxBytesReader\<close> fails on the first byte past the limit, before an error that comes later.\<close>

definition read_body :: "byte list \<Rightarrow> bool \<Rightarrow> http_response + byte list" where
  "read_body body broken =
     (if MaxRecvBytes < length body then Inl (writeError 413 ''value exceeds the maximum message size'')
      else if broken then Inl (writeError 400 ''could not read the request body'')
      else Inr body)"

definition http_put :: "(fl \<Rightarrow> int) \<Rightarrow> node_calls \<Rightarrow> ctx_end option \<Rightarrow> byte list \<Rightarrow> string \<Rightarrow> byte list \<Rightarrow> bool \<Rightarrow> gateway \<Rightarrow>
    (http_response \<times> gateway) option" where
  "http_put impl calls gone key ttl body broken g =
     (if key = [] then Some (writeError 400 ''key must not be empty'', g)
      else case ttl_seconds ttl of
        Inl msg \<Rightarrow> Some (writeError 400 msg, g)
      | Inr secs \<Rightarrow>
          (case read_body body broken of
             Inl r \<Rightarrow> Some (r, g)
           | Inr val \<Rightarrow>
               (case gw_put impl (call_put calls key val secs) gone key g of
                  None \<Rightarrow> None
                | Some (Inl e, g) \<Rightarrow> Some (writeStatus e, g)
                | Some (Inr r, g) \<Rightarrow>
                    Some (writeJSON 200 [(''admitted'', JBool (pr_admitted r)), (''node'', JStr (pr_served_by r))], g))))"

definition http_delete :: "node_calls \<Rightarrow> byte list list \<Rightarrow> ctx_end option \<Rightarrow> byte list \<Rightarrow> gateway \<Rightarrow> (http_response \<times> gateway) option" where
  "http_delete calls order gone key g =
     (if key = [] then Some (writeError 400 ''key must not be empty'', g)
      else case gw_delete (call_delete calls key) order gone key g of
        None \<Rightarrow> None
      | Some (Inl e, g) \<Rightarrow> Some (writeStatus e, g)
      | Some (Inr b, g) \<Rightarrow> Some (writeJSON 200 [(''existed'', JBool b)], g))"

definition stats_json :: "stats_response \<Rightarrow> (string \<times> json) list" where
  "stats_json st =
     [(''policy'', JStr (st_policy st)), (''model_version'', JStr (ModelVersion st)),
      (''hits'', JNum (Hits st)), (''misses'', JNum (Misses st)),
      (''object_hit_ratio'', JFloat (http_ratio (Hits st) (Hits st + Misses st))),
      (''byte_hit_ratio'', JFloat (http_ratio (HitBytes st) (HitBytes st + MissBytes st))),
      (''objects'', JNum (Objects st)), (''bytes_used'', JNum (BytesUsed st)),
      (''bytes_capacity'', JNum (BytesCapacity st)), (''evictions'', JNum (Evictions st)),
      (''expirations'', JNum (Expirations st)), (''rejections'', JNum (Rejections st)),
      (''evict_ns_mean'', JNum (EvictNSMean st)), (''evict_ns'', JNum (EvictNS st)),
      (''evict_sample'', JNum (EvictSample st))]"

definition http_stats :: "node_calls \<Rightarrow> byte list list \<Rightarrow> ctx_end option \<Rightarrow> gateway \<Rightarrow> (http_response \<times> gateway) option" where
  "http_stats calls order gone g =
     (case gw_stats (call_stats calls) order gone g of
        None \<Rightarrow> None
      | Some (Inl e, g) \<Rightarrow> Some (writeStatus e, g)
      | Some (Inr st, g) \<Rightarrow> Some (writeJSON 200 (stats_json st), g))"

definition http_mux :: "(fl \<Rightarrow> int) \<Rightarrow> node_calls \<Rightarrow> byte list list \<Rightarrow> ctx_end option \<Rightarrow> http_request \<Rightarrow> gateway \<Rightarrow>
    (http_response \<times> gateway) option" where
  "http_mux impl calls order gone r g =
     (case rq_endpoint r of
        GetKey key \<Rightarrow> http_get impl calls gone key g
      | PutKey key \<Rightarrow> http_put impl calls gone key (rq_ttl r) (rq_body r) (rq_broken r) g
      | DeleteKey key \<Rightarrow> http_delete calls order gone key g
      | GetStats \<Rightarrow> http_stats calls order gone g
      | MuxAnswer a \<Rightarrow> Some (a, g))"

definition http_handler :: "string \<Rightarrow> (fl \<Rightarrow> int) \<Rightarrow> node_calls \<Rightarrow> byte list list \<Rightarrow> ctx_end option \<Rightarrow> http_request \<Rightarrow> gateway \<Rightarrow>
    (http_response \<times> gateway) option" where
  "http_handler token impl calls order gone r g =
     (if \<not> authorized token (rq_auth r) then Some (unauthorized, g)
      else http_mux impl calls order gone r g)"

section \<open>Server timeouts\<close>

text \<open>
  \<open>obs.ServeHTTP\<close> in \<^verbatim>\<open>internal/obs/obs.go\<close> replaces every timeout left at zero; the REST server sets the
  write timeout only.
\<close>

record http_timeouts =
  ReadHeaderTimeout :: int
  ReadTimeout :: int
  WriteTimeout :: int
  IdleTimeout :: int

definition default_timeouts :: "http_timeouts \<Rightarrow> http_timeouts" where
  "default_timeouts t =
     (let t = (if ReadHeaderTimeout t = 0 then t\<lparr>ReadHeaderTimeout := 5 * second\<rparr> else t);
          t = (if ReadTimeout t = 0 then t\<lparr>ReadTimeout := 30 * second\<rparr> else t);
          t = (if WriteTimeout t = 0 then t\<lparr>WriteTimeout := 60 * second\<rparr> else t)
      in if IdleTimeout t = 0 then t\<lparr>IdleTimeout := 120 * second\<rparr> else t)"

definition serve_timeouts :: "int \<Rightarrow> http_timeouts" where
  "serve_timeouts timeout = default_timeouts
     \<lparr>ReadHeaderTimeout = 0, ReadTimeout = 0, WriteTimeout = wrap64 (2 * timeout + 5 * second), IdleTimeout = 0\<rparr>"

section \<open>What a token admits\<close>

lemma authorized_iff:
  "authorized token got \<longleftrightarrow> token \<noteq> [] \<and> (\<exists>scheme. map lower_char scheme = ''bearer '' \<and> got = scheme @ token)"
proof -
  have seven: "length ''Bearer '' = 7" by simp
  have low: "map lower_char ''Bearer '' = ''bearer ''" by code_simp
  have "length scheme = 7" if "map lower_char scheme = ''bearer ''" for scheme
    using arg_cong[OF that, of length] by simp
  note len = this
  show ?thesis
  proof
    assume a: "authorized token got"
    then have "map lower_char (take 7 got) = ''bearer ''" "drop 7 got = token" "7 < length got"
      unfolding authorized_def Let_def low seven by simp_all
    moreover have "token \<noteq> []" using calculation(2,3) by auto
    moreover have "got = take 7 got @ token" using calculation(2) by (metis append_take_drop_id)
    ultimately show "token \<noteq> [] \<and> (\<exists>scheme. map lower_char scheme = ''bearer '' \<and> got = scheme @ token)"
      by (intro conjI exI[of _ "take 7 got"])
  next
    assume "token \<noteq> [] \<and> (\<exists>scheme. map lower_char scheme = ''bearer '' \<and> got = scheme @ token)"
    then show "authorized token got"
    proof (elim conjE exE)
      fix scheme
      assume "token \<noteq> []" "map lower_char scheme = ''bearer ''" "got = scheme @ token"
      moreover from this(2) have "length scheme = 7" by (rule len)
      ultimately show ?thesis unfolding authorized_def Let_def low seven by simp
    qed
  qed
qed

section \<open>Time to live\<close>

lemma ttl_seconds_ok:
  assumes "ttl_seconds raw = Inr secs" and "raw \<noteq> []"
  shows "\<exists>d. ParseDuration raw = Some d \<and> 1 \<le> unat secs \<and> int (unat secs) * second \<le> d \<and> d < (int (unat secs) + 1) * second"
proof -
  from assms obtain d where d: "ParseDuration raw = Some d" "\<not> d < second" "\<not> 2 ^ 32 - 1 < go_div d second"
    "secs = word_of_int (go_div d second)"
    by (auto simp: ttl_seconds_def split: option.splits if_splits)
  have q: "go_div d second = d div second" using d(2) by (simp add: second_def)
  have "1 \<le> d div second" using d(2) by (simp add: second_def)
  moreover have "d div second < 2 ^ 32" using d(3) q by simp
  ultimately have secs: "int (unat secs) = d div second"
    using d(4) q by (simp add: uint_word_of_int_eq take_bit_eq_mod)
  have "second * (d div second) \<le> d" "d < second * (d div second) + second"
    using mult_div_mod_eq[of second d] pos_mod_sign[of second d] pos_mod_bound[of second d] by (simp_all add: second_def)
  moreover have "1 \<le> unat secs" using secs \<open>1 \<le> d div second\<close> by linarith
  ultimately show ?thesis using d(1) secs by (intro exI[of _ d]) (simp add: algebra_simps)
qed

text \<open>The node's arithmetic on such a number of seconds does not wrap.\<close>

lemma ttl_no_wrap: "wrap64 (int (unat (secs :: u32)) * second) = int (unat secs) * second"
proof -
  have "wrap64 (x * second) = x * second" if "0 \<le> x" "x < 2 ^ 32" for x
    using that by (intro wrap64_id) (simp add: second_def)
  moreover have "int (unat secs) < 2 ^ 32" using uint_lt2p[of secs] by simp
  ultimately show ?thesis by simp
qed

end
