(* ===== verification/Cluster.thy ===== *)
theory Cluster
  imports Gateway_Http Node_Service
begin

text \<open>
  A gateway in front of cache nodes: the gateway's \<open>forward\<close> and \<open>broadcast\<close> with the nodes' own handlers as
  the calls. What the gateway relies on is the locale \<open>backend\<close>, a server that keeps a good state and tells
  the client what it may be told; a cache node with its origin is an interpretation. Requests run one
  after another; \<open>Gateway_Steps\<close> has their interleavings.
\<close>

section \<open>Requests through the gateway\<close>

text \<open>The handler of the server of each name, and the state of a cluster of such servers.\<close>

type_synonym 's handler = "byte list \<Rightarrow> node_request \<Rightarrow> 's \<Rightarrow> (node_reply \<times> 's) option"

record 's cluster =
  cl_gw :: gateway
  cl_nodes :: "byte list \<Rightarrow> 's"

type_synonym 's called = "(node_reply \<times> (byte list \<Rightarrow> 's)) option"

text \<open>A call on node \<open>m\<close>: its reply, and the nodes after it.\<close>

definition call_node :: "'s handler \<Rightarrow> node_request \<Rightarrow> (byte list \<Rightarrow> 's) \<Rightarrow> byte list \<Rightarrow> 's called" where
  "call_node srv q srvs m = map_option (\<lambda>(r, s). (r, srvs(m := s))) (srv m q (srvs m))"

fun refusal :: "node_request \<Rightarrow> rpc_error \<Rightarrow> node_reply" where
  "refusal (AskGet key now fl gone) e = GotReply (Inl e)"
| "refusal (AskPut key v ttl now) e = PutReply (Inl e)"
| "refusal (AskDelete key) e = DeleteReply (Inl e)"

definition delete_answer :: "'s called \<Rightarrow> rpc_error + bool" where
  "delete_answer r = (case r of Some (DeleteReply a, _) \<Rightarrow> a | _ \<Rightarrow> Inl (CodeUnknown, []))"

definition deleted_nodes :: "'s handler \<Rightarrow> node_request \<Rightarrow> byte list list \<Rightarrow> (byte list \<Rightarrow> 's) \<Rightarrow> byte list \<Rightarrow> 's" where
  "deleted_nodes srv q names srvs =
     fold (\<lambda>m ns. case call_node srv q ns m of None \<Rightarrow> ns | Some (_, ns) \<Rightarrow> ns) names srvs"

text \<open>
  One request: a read or a write goes to one node, a deletion to all of them. A deletion refused by the
  gateway reaches none. \<open>None\<close> is a request that does not return.
\<close>

definition cluster_step :: "'s handler \<Rightarrow> (fl \<Rightarrow> int) \<Rightarrow> ctx_end option \<Rightarrow> node_request \<Rightarrow> 's cluster \<Rightarrow>
    (node_reply \<times> 's cluster) option" where
  "cluster_step srv impl gone q c =
     (case q of
        AskDelete key \<Rightarrow>
          (case gw_delete (\<lambda>m. delete_answer (call_node srv q (cl_nodes c) m)) (g_nodes (cl_gw c)) gone key (cl_gw c) of
             None \<Rightarrow> None
           | Some (a, g) \<Rightarrow> Some (DeleteReply a, c\<lparr>cl_gw := g, cl_nodes :=
               (if key = [] \<or> gone \<noteq> None then cl_nodes c
                else deleted_nodes srv q (g_nodes (cl_gw c)) (cl_nodes c))\<rparr>))
      | _ \<Rightarrow>
          (case forward impl (\<lambda>m. Inr (call_node srv q (cl_nodes c) m)) gone (asked q) (cl_gw c) of
             None \<Rightarrow> None
           | Some (Inl e, g) \<Rightarrow> Some (refusal q e, c\<lparr>cl_gw := g\<rparr>)
           | Some (Inr None, g) \<Rightarrow> None
           | Some (Inr (Some (r, srvs)), g) \<Rightarrow> Some (r, c\<lparr>cl_gw := g, cl_nodes := srvs\<rparr>)))"

fun cluster_run :: "(nat \<Rightarrow> 's handler) \<Rightarrow> (fl \<Rightarrow> int) \<Rightarrow> nat \<Rightarrow> (ctx_end option \<times> node_request) list \<Rightarrow>
    's cluster \<Rightarrow> (node_reply list \<times> 's cluster) option" where
  "cluster_run srvf impl n [] c = Some ([], c)"
| "cluster_run srvf impl n ((gone, q) # qs) c =
     (case cluster_step (srvf n) impl gone q c of None \<Rightarrow> None
      | Some (r, c) \<Rightarrow> map_option (map_prod ((#) r) id) (cluster_run srvf impl (Suc n) qs c))"

lemma cluster_step_single:
  "\<forall>key. q \<noteq> AskDelete key \<Longrightarrow> cluster_step srv impl gone q c =
     (case forward impl (\<lambda>m. Inr (call_node srv q (cl_nodes c) m)) gone (asked q) (cl_gw c) of
        None \<Rightarrow> None
      | Some (Inl e, g) \<Rightarrow> Some (refusal q e, c\<lparr>cl_gw := g\<rparr>)
      | Some (Inr None, g) \<Rightarrow> None
      | Some (Inr (Some (r, srvs)), g) \<Rightarrow> Some (r, c\<lparr>cl_gw := g, cl_nodes := srvs\<rparr>))"
  by (induction q) (simp_all add: cluster_step_def)

lemma at_rest_gw [simp]: "gs_gw (at_rest g) = g"
  by (simp add: at_rest_def)

lemma at_rest_same: "same_gateway g g' \<Longrightarrow> gate_inv (at_rest g) \<Longrightarrow> gate_inv (at_rest g')"
  using same_gateway_inv[of "at_rest g" g'] by (simp add: at_rest_def)

section \<open>What the gateway relies on\<close>

text \<open>
  \<open>good\<close> is a state of a server, \<open>asks\<close> a request it may be sent, \<open>told\<close> what the client may be told of a
  request. An empty key is refused, and a deletion may end in any other way.
\<close>

locale backend =
  fixes srv :: "'s handler"
    and good :: "'s \<Rightarrow> bool"
    and asks :: "node_request \<Rightarrow> bool"
    and told :: "node_request \<Rightarrow> node_reply \<Rightarrow> bool"
  assumes answers: "good s \<Longrightarrow> asks q \<Longrightarrow> \<exists>r s'. srv m q s = Some (r, s') \<and> good s' \<and> told q r"
    and empty_refused: "asked q = [] \<Longrightarrow> told q (refusal q key_empty)"
    and deletion_told: "key \<noteq> [] \<Longrightarrow> a \<noteq> Inl key_empty \<Longrightarrow> told (AskDelete key) (DeleteReply a)"
begin

definition all_good :: "'s cluster \<Rightarrow> bool" where
  "all_good c \<longleftrightarrow> (\<forall>m \<in> set (g_nodes (cl_gw c)). good (cl_nodes c m))"

definition cluster_good :: "'s cluster \<Rightarrow> bool" where
  "cluster_good c \<longleftrightarrow> gate_inv (at_rest (cl_gw c)) \<and> g_inflight (cl_gw c) = 0 \<and> 0 < g_limit (cl_gw c) \<and> all_good c"

text \<open>The client is told what a server may tell, or that its context ended while it waited for a slot.\<close>

definition client_told :: "ctx_end option \<Rightarrow> node_request \<Rightarrow> node_reply \<Rightarrow> bool" where
  "client_told gone q r \<longleftrightarrow> told q r \<or> (\<exists>e. gone = Some e \<and> r = refusal q (gone_error e))"

lemma cluster_good_same:
  assumes "cluster_good c" and "same_gateway (cl_gw c) g" and "all_good (c\<lparr>cl_nodes := srvs\<rparr>)"
  shows "cluster_good (c\<lparr>cl_gw := g, cl_nodes := srvs\<rparr>)"
  using assms same_gatewayD[OF assms(2)] at_rest_same[OF assms(2)] by (simp add: cluster_good_def all_good_def)

lemma call_node_ok:
  assumes "all_good c" and "m \<in> set (g_nodes (cl_gw c))" and "asks q"
  shows "\<exists>r srvs. call_node srv q (cl_nodes c) m = Some (r, srvs) \<and> told q r \<and> all_good (c\<lparr>cl_nodes := srvs\<rparr>)"
proof -
  have "good (cl_nodes c m)" using assms(1,2) by (simp add: all_good_def)
  from answers[OF this assms(3), of m] obtain r s where s: "srv m q (cl_nodes c m) = Some (r, s)" "good s" "told q r" by blast
  have "all_good (c\<lparr>cl_nodes := (cl_nodes c)(m := s)\<rparr>)" using assms(1) s(2) by (simp add: all_good_def)
  moreover have "call_node srv q (cl_nodes c) m = Some (r, (cl_nodes c)(m := s))" using s(1) by (simp add: call_node_def)
  ultimately show ?thesis using s(3) by blast
qed

lemma deleted_nodes_good:
  assumes "all_good c" and "set names \<subseteq> set (g_nodes (cl_gw c))" and "asks q"
  shows "all_good (c\<lparr>cl_nodes := deleted_nodes srv q names (cl_nodes c)\<rparr>)"
  using assms(1,2)
proof (induction names arbitrary: c)
  case Nil
  then show ?case by (simp add: deleted_nodes_def)
next
  case (Cons m names)
  have "m \<in> set (g_nodes (cl_gw c))" using Cons.prems(2) by simp
  from call_node_ok[OF Cons.prems(1) this assms(3)] obtain r srvs where
    n: "call_node srv q (cl_nodes c) m = Some (r, srvs)" "all_good (c\<lparr>cl_nodes := srvs\<rparr>)" by blast
  from Cons.IH[OF n(2)] Cons.prems(2) n(1) show ?case by (simp add: deleted_nodes_def)
qed

lemma deletion_ok:
  assumes ok: "cluster_good c" and asks: "asks (AskDelete key)"
  shows "\<exists>r c'. cluster_step srv impl gone (AskDelete key) c = Some (r, c') \<and> cluster_good c' \<and> client_told gone (AskDelete key) r"
proof -
  let ?g = "cl_gw c" and ?q = "AskDelete key"
  have room: "g_inflight ?g < g_limit ?g" and ns: "all_good c" using ok by (simp_all add: cluster_good_def)
  consider "key = []" | e where "key \<noteq> []" "gone = Some e" | "key \<noteq> []" "gone = None" by (cases gone) auto
  then show ?thesis
  proof cases
    case 1
    then show ?thesis using ok empty_refused[of ?q] by (simp add: cluster_step_def gw_delete_def client_told_def)
  next
    case (2 e)
    then show ?thesis using ok by (simp add: cluster_step_def gw_delete_def broadcast_def admit_result client_told_def)
  next
    case 3
    from delete_result[OF refl room 3(1), of "\<lambda>m. delete_answer (call_node srv ?q (cl_nodes c) m)"] obtain a where
      a: "gw_delete (\<lambda>m. delete_answer (call_node srv ?q (cl_nodes c) m)) (g_nodes ?g) None key ?g = Some (a, ?g)" "a \<noteq> Inl key_empty"
      by (auto simp: node_error_def key_empty_def)
    have "all_good (c\<lparr>cl_nodes := deleted_nodes srv ?q (g_nodes ?g) (cl_nodes c)\<rparr>)"
      by (rule deleted_nodes_good[OF ns subset_refl asks])
    from cluster_good_same[OF ok same_gateway_refl this] a 3 deletion_told[OF 3(1) a(2)] show ?thesis
      by (simp add: cluster_step_def client_told_def)
  qed
qed

lemma single_ok:
  assumes ok: "cluster_good c" and asks: "asks q" and single: "\<forall>key. q \<noteq> AskDelete key"
  shows "\<exists>r c'. cluster_step srv impl gone q c = Some (r, c') \<and> cluster_good c' \<and> client_told gone q r"
proof -
  let ?g = "cl_gw c"
  have inv: "gate_inv (at_rest ?g)" and room: "g_inflight ?g < g_limit ?g" and ns: "all_good c"
    using ok by (simp_all add: cluster_good_def)
  note step = cluster_step_single[OF single, of srv impl gone c]
  note fw = forward_result[OF inv at_rest_gw, where impl = impl and key = "asked q"
    and call = "\<lambda>m. Inr (call_node srv q (cl_nodes c) m)"]
  consider "asked q = []" | e where "asked q \<noteq> []" "gone = Some e" | "asked q \<noteq> []" "gone = None" by (cases gone) auto
  then show ?thesis
  proof cases
    case 1
    then show ?thesis using ok fw(1) empty_refused by (simp add: step client_told_def)
  next
    case (2 e)
    have "cluster_step srv impl gone q c = Some (refusal q (gone_error e), c\<lparr>cl_gw := ?g\<rparr>)"
      unfolding step unfolding 2(2) by (simp add: fw(2)[OF 2(1)])
    then show ?thesis using ok 2(2) by (simp add: client_told_def)
  next
    case 3
    from fw(3)[OF 3(1) room] obtain m g where m: "m \<in> set (g_nodes ?g)"
      "forward impl (\<lambda>m. Inr (call_node srv q (cl_nodes c) m)) None (asked q) ?g = Some (Inr (call_node srv q (cl_nodes c) m), g)"
      "same_gateway ?g g" by blast
    from call_node_ok[OF ns m(1) asks] obtain r srvs where n: "call_node srv q (cl_nodes c) m = Some (r, srvs)" "told q r"
      "all_good (c\<lparr>cl_nodes := srvs\<rparr>)" by blast
    have "cluster_step srv impl gone q c = Some (r, c\<lparr>cl_gw := g, cl_nodes := srvs\<rparr>)"
      unfolding step unfolding 3(2) by (simp add: m(2) n(1))
    with cluster_good_same[OF ok m(3) n(3)] n(2) show ?thesis by (simp add: client_told_def)
  qed
qed

text \<open>Through the gateway every request returns, and the client is told what it may be told.\<close>

lemma step_ok:
  assumes "cluster_good c" and "asks q"
  shows "\<exists>r c'. cluster_step srv impl gone q c = Some (r, c') \<and> cluster_good c' \<and> client_told gone q r"
proof (cases "\<exists>key. q = AskDelete key")
  case True
  then obtain key where q: "q = AskDelete key" by blast
  from deletion_ok[OF assms(1) assms(2)[unfolded q]] show ?thesis unfolding q .
next
  case False
  with single_ok[OF assms] show ?thesis by blast
qed

end

section \<open>Cache nodes with one origin\<close>

text \<open>Each node under its own policy; \<open>ev\<close> holds the clocks and the model of the step.\<close>

definition node_handler :: "(byte list \<Rightarrow> string) \<Rightarrow> (nat \<Rightarrow> ev_env) \<Rightarrow> node_server handler" where
  "node_handler pol ev m q s = node_step (node_ops (pol m)) ev q s"

definition node_good :: "(byte list \<Rightarrow> byte list option) \<Rightarrow> byte list set \<Rightarrow> bool \<Rightarrow> node_server \<Rightarrow> bool" where
  "node_good f K backed s \<longleftrightarrow> served f K (n_cache s) \<and> (backed \<longrightarrow> n_origin s)"

definition node_asks :: "(byte list \<Rightarrow> byte list option) \<Rightarrow> byte list set \<Rightarrow> (nat \<Rightarrow> ev_env) \<Rightarrow> node_request \<Rightarrow> bool" where
  "node_asks f K ev q \<longleftrightarrow>
     asked q \<in> K \<and> truthful f q \<and> inj_on Hash K \<and> short_values f \<and> (\<forall>i. lrb_env_ok (ev i))"

lemma honest_weaker: "honest b f q r \<Longrightarrow> (backed \<longrightarrow> b) \<Longrightarrow> honest backed f q r"
  by (cases "(b, f, q, r)" rule: honest.cases) auto

lemma node_answers:
  assumes "node_good f K backed s" and "node_asks f K ev q"
  shows "\<exists>r s'. node_handler pol ev m q s = Some (r, s') \<and> node_good f K backed s' \<and> honest backed f q r"
proof -
  have s: "served f K (n_cache s)" "backed \<longrightarrow> n_origin s" using assms(1) by (simp_all add: node_good_def)
  have q: "lrb_env_ok (ev i)" "inj_on Hash K" "asked q \<in> K" "truthful f q" "short_values f" for i
    using assms(2) by (simp_all add: node_asks_def)
  from node_step_honest[where ev = ev and name = "pol m", OF s(1) q] obtain r s' where
    r: "node_step (node_ops (pol m)) ev q s = Some (r, s')" "served f K (n_cache s')" "n_origin s' = n_origin s"
      "honest (n_origin s) f q r" by blast
  then show ?thesis using s(2) honest_weaker[OF r(4) s(2)] by (simp add: node_handler_def node_good_def)
qed

interpretation nodes: backend "node_handler pol ev" "node_good f K backed" "node_asks f K ev" "honest backed f"
  for pol ev f K backed
proof
  show "\<exists>r s'. node_handler pol ev m q s = Some (r, s') \<and> node_good f K backed s' \<and> honest backed f q r"
    if "node_good f K backed s" "node_asks f K ev q" for s q m by (rule node_answers[OF that])
  show "honest backed f q (refusal q key_empty)" if "asked q = []" for q
    using that by (cases q) (simp_all add: key_empty_def)
qed simp

text \<open>What a client of the cluster may be told of a request.\<close>

definition cluster_honest :: "bool \<Rightarrow> (byte list \<Rightarrow> byte list option) \<Rightarrow> ctx_end option \<times> node_request \<Rightarrow> node_reply \<Rightarrow> bool" where
  "cluster_honest backed f gq r \<longleftrightarrow>
     honest backed f (snd gq) r \<or> (\<exists>e. fst gq = Some e \<and> r = refusal (snd gq) (gone_error e))"

definition cluster_ok :: "(byte list \<Rightarrow> byte list option) \<Rightarrow> byte list set \<Rightarrow> bool \<Rightarrow> node_server cluster \<Rightarrow> bool" where
  "cluster_ok f K backed c \<longleftrightarrow> gate_inv (at_rest (cl_gw c)) \<and> g_inflight (cl_gw c) = 0 \<and> 0 < g_limit (cl_gw c) \<and>
     (\<forall>m \<in> set (g_nodes (cl_gw c)). node_good f K backed (cl_nodes c m))"

lemma cluster_good_iff: "nodes.cluster_good f K backed c = cluster_ok f K backed c"
  by (simp add: cluster_ok_def nodes.cluster_good_def nodes.all_good_def)

lemma cluster_run_honest:
  assumes "cluster_ok f K backed c" and "\<And>i j. lrb_env_ok (evs i j)" and "inj_on Hash K" and "short_values f"
    and "\<forall>(gone, q) \<in> set qs. asked q \<in> K \<and> truthful f q"
  shows "\<exists>rs c'. cluster_run (\<lambda>n. node_handler pol (evs n)) impl n qs c = Some (rs, c') \<and> list_all2 (cluster_honest backed f) qs rs"
  using assms(1,5)
proof (induction qs arbitrary: n c)
  case (Cons gq qs)
  obtain gone q where gq: "gq = (gone, q)" by (cases gq)
  then have "node_asks f K (evs n) q" using Cons.prems(2) assms(2-4) by (simp add: node_asks_def)
  from nodes.step_ok[OF _ this, of backed c pol impl gone] Cons.prems(1) obtain r c1 where
    st: "cluster_step (node_handler pol (evs n)) impl gone q c = Some (r, c1)" "cluster_ok f K backed c1"
      "cluster_honest backed f (gone, q) r"
    by (auto simp: cluster_good_iff cluster_honest_def nodes.client_told_def)
  from Cons.IH[OF st(2), of "Suc n"] Cons.prems(2) st gq show ?case by auto
qed simp

end
