(* ===== verification/Gateway_Properties.thy ===== *)
theory Gateway_Properties
  imports Cluster Hashring_Properties
begin

text \<open>
  The claims about the gateway, its REST interface, and a gateway in front of cache nodes. The witnesses
  use a gateway of two nodes, sorted by insertion, started from an environment that names them.
\<close>

section \<open>A concrete gateway\<close>

definition demo_gw_env :: env where
  "demo_gw_env = [''CACHE_NODES'' \<mapsto> ''a:1,b:1'']"

lemma demo_gw_settings [simp]:
  "Strings demo_gw_env ''CACHE_NODES'' [] = [''a:1'', ''b:1'']" "Int' demo_gw_env ''RING_REPLICAS'' n = n"
  "Float demo_gw_env ''RING_LOAD_FACTOR'' x = x" "Int' demo_gw_env ''MAX_INFLIGHT'' n = n"
  "String demo_gw_env ''HTTP_ADDR'' d = d"
proof -
  have "filter (\<lambda>p. p \<noteq> []) (map TrimSpace (split_on (CHR '','') ''a:1,b:1'')) = [''a:1'', ''b:1'']"
    "TrimSpace ''a:1,b:1'' \<noteq> []" by code_simp+
  then show "Strings demo_gw_env ''CACHE_NODES'' [] = [''a:1'', ''b:1'']"
    by (simp add: Strings_def demo_gw_env_def Let_def)
qed (simp_all add: demo_gw_env_def String_def Int'_def Float_def parse_def)

lemma connect_dials: "\<forall>addr \<in> set addrs. dial addr \<Longrightarrow> \<exists>s'. connect srt dial addrs s = Inr s'"
  by (induction addrs arbitrary: s) (auto simp: Let_def)

definition demo_gw :: gateway where
  "demo_gw = projr (start_gateway demo_gw_env demo_srt (\<lambda>_. True))"

lemma demo_gw_starts: "start_gateway demo_gw_env demo_srt (\<lambda>_. True) = Inr demo_gw"
proof -
  have "\<exists>g. start_gateway demo_gw_env demo_srt (\<lambda>_. True) = Inr g"
    using connect_dials[of "[''a:1'', ''b:1'']" "\<lambda>_. True" demo_srt]
    by (auto simp: start_gateway_def Let_def split: sum.splits)
  then show ?thesis by (auto simp: demo_gw_def)
qed

lemma demo_gw_ok:
  "gate_inv (at_rest demo_gw)" "set (g_nodes demo_gw) = {bytes_of ''a:1'', bytes_of ''b:1''}" "g_limit demo_gw = 4096"
  "g_inflight demo_gw = 0"
proof -
  note ok = start_gateway_ok[OF demo_gw_starts demo_sort]
  show inv: "gate_inv (at_rest demo_gw)" and "g_limit demo_gw = 4096" using ok by simp_all
  then show "set (g_nodes demo_gw) = {bytes_of ''a:1'', bytes_of ''b:1''}" "g_inflight demo_gw = 0"
    using ok by (simp_all add: gate_inv_def at_rest_def)
qed

section \<open>Admission and load\<close>

text \<open>
  C6. However the stages of concurrent requests interleave, the gateway's count of requests in flight is
  exactly the number of requests that hold a slot and never exceeds \<open>MAX_INFLIGHT\<close>, and the load of each node
  is exactly the number of requests at it: no path, failed ones included, leaks a slot or a load.
\<close>

theorem gateway_accounting:
  assumes "start_gateway env srt dial = Inr g" and "is_sort srt" and "length (Strings env ''CACHE_NODES'' []) < 2 ^ 31"
    and "Int' env ''MAX_INFLIGHT'' 4096 < 2 ^ 62" and "(gate_step impl)\<^sup>*\<^sup>* (at_rest g) s"
  shows "g_inflight (gs_gw s) = occ holding (gs_reqs s) \<and> g_inflight (gs_gw s) \<le> Int' env ''MAX_INFLIGHT'' 4096 \<and>
    (\<forall>n \<in> set (hnodes (g_ring (gs_gw s))). hn_load n = occ ((=) (AtNode (hn_name n))) (gs_reqs s)) \<and>
    total (g_ring (gs_gw s)) = occ at_node (gs_reqs s)"
  using reachable_inv[OF assms(5) start_gateway_ok(1)[OF assms(1-4)]]
    reachable_fixed[OF assms(5) start_gateway_ok(1)[OF assms(1-4)]] start_gateway_ok(3)[OF assms(1-4)]
  by (simp add: gate_inv_def at_rest_def)

lemma gateway_accounting_witness:
  "\<exists>s. (gate_step (\<lambda>_. 0))\<^sup>*\<^sup>* (at_rest demo_gw) s \<and> length (gs_reqs s) = 1 \<and> g_inflight (gs_gw s) = occ holding (gs_reqs s)"
proof -
  let ?s = "(at_rest demo_gw)\<lparr>gs_reqs := gs_reqs (at_rest demo_gw) @ [(Single [7], Queued)]\<rparr>"
  have r: "(gate_step (\<lambda>_. 0))\<^sup>*\<^sup>* (at_rest demo_gw) ?s" by (intro r_into_rtranclp gate_step.arrive) simp
  from gateway_accounting[OF demo_gw_starts demo_sort _ _ this] r show ?thesis
    by (intro exI[of _ ?s]) (simp add: at_rest_def)
qed

text \<open>
  C16. A gateway that starts can always place a key: in every reachable state routing answers a node that
  \<open>CACHE_NODES\<close> names, never \<^verbatim>\<open>no cache nodes configured\<close> or \<^verbatim>\<open>ring returned unknown node\<close>.
\<close>

theorem routing_never_fails:
  assumes "start_gateway env srt dial = Inr g" and "is_sort srt" and "length (Strings env ''CACHE_NODES'' []) < 2 ^ 31"
    and "Int' env ''MAX_INFLIGHT'' 4096 < 2 ^ 62" and "(gate_step impl)\<^sup>*\<^sup>* (at_rest g) s"
  shows "\<exists>addr \<in> set (Strings env ''CACHE_NODES'' []). fst (route impl key (gs_gw s)) = Inr (bytes_of addr)"
proof -
  note start = start_gateway_ok[OF assms(1-4)]
  have "set (Members (g_ring (gs_gw s))) = bytes_of ` set (Strings env ''CACHE_NODES'' [])"
    using reachable_fixed[OF assms(5) start(1)] start(2) by (simp add: at_rest_def)
  moreover from route_ok[OF reachable_inv[OF assms(5) start(1)], of impl key] obtain m where
    "m < length (hnodes (g_ring (gs_gw s)))" "fst (route impl key (gs_gw s)) = Inr (hn_name (hnodes (g_ring (gs_gw s)) ! m))" by auto
  ultimately show ?thesis using Members_nth[of "hn_name (hnodes (g_ring (gs_gw s)) ! m)" "g_ring (gs_gw s)"] by auto
qed

lemma routing_never_fails_witness:
  "fst (route (\<lambda>_. 0) [7] demo_gw) \<in> Inr ` {bytes_of ''a:1'', bytes_of ''b:1''}"
  using routing_never_fails[OF demo_gw_starts demo_sort _ _ rtranclp.rtrancl_refl, of "\<lambda>_. 0" "[7]"] by (auto simp: at_rest_def)

text \<open>
  C15. No interleaving leaves the gateway stuck: from every reachable state the requests in flight can run
  to their end, and then no slot is taken, every node's load and the total are zero, and the next request
  that waits is admitted at once.
\<close>

theorem gateway_drains:
  assumes "start_gateway env srt dial = Inr g" and "is_sort srt" and "length (Strings env ''CACHE_NODES'' []) < 2 ^ 31"
    and "Int' env ''MAX_INFLIGHT'' 4096 < 2 ^ 62" and "(gate_step impl)\<^sup>*\<^sup>* (at_rest g) s"
  shows "\<exists>s' g'. (gate_step impl)\<^sup>*\<^sup>* s s' \<and> g_inflight (gs_gw s') = 0 \<and> total (g_ring (gs_gw s')) = 0 \<and>
    (\<forall>n \<in> set (hnodes (g_ring (gs_gw s'))). hn_load n = 0) \<and> admit None (gs_gw s') = Some (Inr (), g')"
proof -
  note start = start_gateway_ok[OF assms(1-4)]
  note inv = reachable_inv[OF assms(5) start(1)]
  from drains[OF inv, of impl] obtain s' where s': "(gate_step impl)\<^sup>*\<^sup>* s s'" "gate_inv s'" "work s' = 0" by blast
  note idle = idle_gateway[OF s'(2,3)]
  have "0 < g_limit g" using assms(1) start(3) by (auto simp: start_gateway_def Let_def split: if_splits)
  moreover have "g_limit (gs_gw s') = g_limit g"
    using reachable_fixed[OF s'(1) inv] reachable_fixed[OF assms(5) start(1)] by (simp add: at_rest_def)
  ultimately have "admit None (gs_gw s') = Some (Inr (), (gs_gw s')\<lparr>g_inflight := g_inflight (gs_gw s') + 1\<rparr>)"
    using idle(1) by (intro admit_result(2)) simp
  with s'(1) idle show ?thesis by blast
qed

lemma gateway_drains_witness:
  "\<exists>s s'. (gate_step (\<lambda>_. 0))\<^sup>*\<^sup>* (at_rest demo_gw) s \<and> length (gs_reqs s) = 1 \<and>
    (gate_step (\<lambda>_. 0))\<^sup>*\<^sup>* s s' \<and> g_inflight (gs_gw s') = 0"
proof -
  let ?s = "(at_rest demo_gw)\<lparr>gs_reqs := gs_reqs (at_rest demo_gw) @ [(Single [7], Queued)]\<rparr>"
  have r: "(gate_step (\<lambda>_. 0))\<^sup>*\<^sup>* (at_rest demo_gw) ?s" by (intro r_into_rtranclp gate_step.arrive) simp
  from gateway_drains[OF demo_gw_starts demo_sort _ _ this] obtain s' where
    "(gate_step (\<lambda>_. 0))\<^sup>*\<^sup>* ?s s'" "g_inflight (gs_gw s') = 0" by auto
  with r show ?thesis by (intro exI[of _ ?s] exI[of _ s']) (simp add: at_rest_def)
qed

text \<open>
  The check on \<open>RING_LOAD_FACTOR\<close>, and the default of the ring, are comparisons that a NaN passes: such a
  gateway starts, and its loads are bounded by a conversion that Go leaves to the implementation.
\<close>

lemma connect_factor: "connect srt dial addrs s = Inr s' \<Longrightarrow> factor (g_ring s') = factor (g_ring s)"
  by (induction addrs arbitrary: s) (force simp: Let_def Add_def split: if_splits)+

lemma nan_factor_starts:
  assumes "Strings env ''CACHE_NODES'' [] \<noteq> []" and "1 \<le> Int' env ''RING_REPLICAS'' 256"
    and "Float env ''RING_LOAD_FACTOR'' (Fin (5 / 4)) = NaN" and "1 \<le> Int' env ''MAX_INFLIGHT'' 4096"
    and "String env ''HTTP_ADDR'' [] = []"
  shows "\<exists>g. start_gateway env srt (\<lambda>_. True) = Inr g \<and> factor (g_ring g) = NaN"
proof -
  let ?g0 = "\<lparr>g_ring = NewHashring (Int' env ''RING_REPLICAS'' 256) NaN, g_nodes = [], g_inflight = 0,
    g_limit = Int' env ''MAX_INFLIGHT'' 4096, g_routed = []\<rparr>"
  obtain g where g: "connect srt (\<lambda>_. True) (Strings env ''CACHE_NODES'' []) ?g0 = Inr g"
    using connect_dials[of "Strings env ''CACHE_NODES'' []" "\<lambda>_. True" srt ?g0] by blast
  have "factor (g_ring g) = NaN" using connect_factor[OF g] by (simp add: NewHashring_def Let_def)
  then show ?thesis using assms g by (simp add: start_gateway_def Let_def)
qed

section \<open>Deletions and statistics\<close>

text \<open>
  C29. A deletion succeeds only if every node carried it out, and reports that the key existed exactly if
  some node had it; otherwise its error names a node that failed and keeps that node's code. Either way
  the gateway is as before.
\<close>

theorem delete_reaches_every_node:
  assumes "set order = set (g_nodes g)" and "g_inflight g < g_limit g" and "key \<noteq> []"
  shows "\<exists>a. gw_delete call order None key g = Some (a, g) \<and>
    (\<forall>b. a = Inr b \<longrightarrow> (\<forall>name \<in> set (g_nodes g). \<exists>r. call name = Inr r) \<and> (b \<longleftrightarrow> (\<exists>name \<in> set (g_nodes g). call name = Inr True))) \<and>
    (\<forall>e. a = Inl e \<longrightarrow> (\<exists>name \<in> set (g_nodes g). \<exists>e'. call name = Inl e' \<and> e = node_error ''delete'' name e'))"
  using delete_result[OF assms, of call]
proof
  assume "\<exists>name \<in> set (g_nodes g). \<exists>e. call name = Inl e \<and> gw_delete call order None key g = Some (Inl (node_error ''delete'' name e), g)"
  then obtain name e where "name \<in> set (g_nodes g)" "call name = Inl e"
    "gw_delete call order None key g = Some (Inl (node_error ''delete'' name e), g)" by blast
  then show ?thesis by (intro exI[of _ "Inl (node_error ''delete'' name e)"]) blast
qed auto

lemma delete_reaches_every_node_witness:
  "\<exists>e. gw_delete (\<lambda>name. if name = bytes_of ''b:1'' then Inl (CodeUnavailable, ''down'') else Inr True)
    [bytes_of ''b:1'', bytes_of ''a:1''] None [7] demo_gw = Some (Inl e, demo_gw)"
proof -
  let ?call = "\<lambda>name. if name = bytes_of ''b:1'' then Inl (CodeUnavailable, ''down'') else Inr True"
  have "set [bytes_of ''b:1'', bytes_of ''a:1''] = set (g_nodes demo_gw)" "g_inflight demo_gw < g_limit demo_gw"
    using demo_gw_ok by auto
  from delete_reaches_every_node[OF this, of "[7]" ?call] obtain a where
    "gw_delete ?call [bytes_of ''b:1'', bytes_of ''a:1''] None [7] demo_gw = Some (a, demo_gw)"
    "\<forall>b. a = Inr b \<longrightarrow> (\<forall>name \<in> set (g_nodes demo_gw). \<exists>r. ?call name = Inr r)" by auto
  then show ?thesis using demo_gw_ok(2) by (cases a) (auto split: if_splits)
qed

text \<open>
  The cluster's statistics are the sums of the nodes' counters, the mean cost of an eviction is the
  quotient of the sums, and a policy or a model version is reported only if every node reports it.
\<close>

lemma cluster_stats_are_sums:
  assumes "rs \<noteq> []"
  shows "st_policy (sum_stats rs) = (if \<forall>st \<in> set rs. st_policy st = st_policy (hd rs) then st_policy (hd rs) else ''mixed'') \<and>
    ModelVersion (sum_stats rs) = (if \<forall>st \<in> set rs. ModelVersion st = ModelVersion (hd rs) then ModelVersion (hd rs) else ''mixed'') \<and>
    Hits (sum_stats rs) = sum_list (map Hits rs) \<and> Misses (sum_stats rs) = sum_list (map Misses rs) \<and>
    BytesUsed (sum_stats rs) = sum_list (map BytesUsed rs) \<and> BytesCapacity (sum_stats rs) = sum_list (map BytesCapacity rs) \<and>
    EvictNSMean (sum_stats rs) = sum_list (map EvictNS rs) div sum_list (map EvictSample rs)"
  using sum_stats_fields[OF assms] by simp

section \<open>The REST interface\<close>

text \<open>
  C31. A request is let through exactly if its header is the scheme \<open>Bearer\<close> in any case, a blank, and the
  configured token, and no empty token lets one through. Any other request is answered 401, calls no node
  and leaves the gateway as it was.
\<close>

theorem http_needs_token:
  "http_handler token impl calls order gone r g =
    (if token \<noteq> [] \<and> (\<exists>scheme. map lower_char scheme = ''bearer '' \<and> rq_auth r = scheme @ token)
     then http_mux impl calls order gone r g
     else Some (unauthorized, g))"
  unfolding authorized_iff[symmetric] by (simp add: http_handler_def)


text \<open>Reading the duration of the witness.\<close>

lemma read_90s: "ParseDuration ''90s'' = Some 90000000000"
proof -
  have dv: "digit_val (CHR ''9'') = Some 9" "digit_val (CHR ''0'') = Some 0" "digit_val (CHR ''s'') = None"
    by (simp_all add: digit_val_def)
  have li: "leadingInt 0 ''90s'' = Some (90, ''s'')" by (simp add: dv)
  have "map_of duration_units ''s'' = Some 1000000000" by (simp add: duration_units_def)
  then have dp: "duration_part ''90s'' = Some (90000000000, [])" unfolding duration_part_def li by (simp add: dv)
  have sign: "split_sign ''90s'' = (False, ''90s'')" by (simp add: split_sign_def)
  have loop: "duration_loop (length ''90s'') 0 ''90s'' = Some 90000000000" by (simp add: dp)
  show ?thesis unfolding ParseDuration_def sign prod.case loop by simp
qed


section \<open>A gateway and its nodes\<close>



end
