(* ===== verification/Loadgen.thy ===== *)
theory Loadgen
  imports Rpc Config Belady_MIN Hashring
begin

text \<open>
  \<^verbatim>\<open>cmd/loadgen\<close>: the benchmark. The trace is drawn up front, replayed by strided workers, and scored against
  the offline optimum. The random draws, the gateway's answers with their latencies and the two statistics
  are parameters; an access out of range, which panics, is \<open>None\<close>. The text report is not modelled.
\<close>

section \<open>Options\<close>

record lg_options =
  lo_target :: string
  lo_requests :: int
  lo_keyspace :: int
  lo_concurrency :: int
  lo_warmup :: int
  lo_zipfS :: fl
  lo_timeout :: int
  lo_minHit :: fl
  lo_maxP99 :: int

definition read_options :: "env \<Rightarrow> lg_options" where
  "read_options env =
     \<lparr>lo_target = String env ''TARGET_ADDR'' ''localhost:8080'', lo_requests = Int' env ''REQUESTS'' 200000,
      lo_keyspace = Int' env ''KEYSPACE'' 100000, lo_concurrency = Int' env ''CONCURRENCY'' 64,
      lo_warmup = Int' env ''WARMUP'' 20000, lo_zipfS = Float env ''ZIPF_S'' (fround F64 (11 / 10)),
      lo_timeout = Duration env ''RPC_TIMEOUT'' 5000000000,
      lo_minHit = Float env ''MIN_OBJECT_HIT'' (Fin 0), lo_maxP99 = Duration env ''MAX_P99'' 0\<rparr>"

definition check_options :: "lg_options \<Rightarrow> string + lg_options" where
  "check_options o' =
     (if lo_zipfS o' \<le> Fin 1 then Inl ''ZIPF_S must be greater than 1''
      else if lo_requests o' < 0 then Inl ''REQUESTS must not be negative''
      else if lo_warmup o' < 0 then Inl ''WARMUP must not be negative''
      else if lo_keyspace o' < 1 then Inl ''KEYSPACE must be at least 1''
      else if lo_concurrency o' < 1 then Inl ''CONCURRENCY must be at least 1''
      else if lo_timeout o' \<le> 0 then Inl ''RPC_TIMEOUT must be positive''
      else Inr o')"

section \<open>The workload\<close>

definition generateTrace :: "(nat \<Rightarrow> u64) \<Rightarrow> lg_options \<Rightarrow> string list" where
  "generateTrace zipf o' = map (\<lambda>i. ''key-'' @ itoa (unat (zipf i))) [0..<nat (lo_requests o')]"

definition hashTrace :: "string list \<Rightarrow> u64 list" where
  "hashTrace trace = map (\<lambda>k. Hash (bytes_of k)) trace"

section \<open>The replay\<close>

record lg_sample =
  sp_latency :: int
  sp_bytes :: int
  sp_cached :: bool

record lg_results =
  latencies :: "int list"
  n_served :: int
  n_cached :: int
  n_bytes :: int
  hitNS :: int
  missNS :: int

text \<open>The indices one worker of \<open>c\<close> takes; a worker exists only if \<open>c\<close> is positive.\<close>

function strided :: "nat \<Rightarrow> nat \<Rightarrow> nat \<Rightarrow> nat list" where
  "strided n c w = (if w < n \<and> 0 < c then w # strided n c (w + c) else [])"
  by auto
termination by (relation "measure (\<lambda>(n, c, w). n - w)") auto

declare strided.simps [simp del]

text \<open>\<open>ask i\<close> is the answer to the request for the \<open>i\<close>-th key, with its latency.\<close>

fun worker :: "(nat \<Rightarrow> string + lg_sample) \<Rightarrow> nat list \<Rightarrow> string + lg_sample list" where
  "worker ask [] = Inr []"
| "worker ask (i # is) =
     (case ask i of Inl e \<Rightarrow> Inl e
      | Inr s \<Rightarrow> (case worker ask is of Inl e \<Rightarrow> Inl e | Inr ss \<Rightarrow> Inr (s # ss)))"

definition add_sample :: "lg_sample \<Rightarrow> lg_results \<Rightarrow> lg_results" where
  "add_sample smp r =
     (let r = r\<lparr>latencies := latencies r @ [sp_latency smp], n_served := wrap64 (n_served r + 1), n_bytes := wrap64 (n_bytes r + sp_bytes smp)\<rparr>
      in if sp_cached smp then r\<lparr>n_cached := wrap64 (n_cached r + 1), hitNS := wrap64 (hitNS r + sp_latency smp)\<rparr>
         else r\<lparr>missNS := wrap64 (missNS r + sp_latency smp)\<rparr>)"

definition no_results :: lg_results where
  "no_results = \<lparr>latencies = [], n_served = 0, n_cached = 0, n_bytes = 0, hitNS = 0, missNS = 0\<rparr>"

text \<open>Of the workers that fail the group keeps one, the first in \<open>order\<close>.\<close>

definition replay :: "(nat \<Rightarrow> string + lg_sample) \<Rightarrow> nat list \<Rightarrow> nat \<Rightarrow> nat \<Rightarrow> string + lg_results" where
  "replay ask order n concurrency =
     (let out = (\<lambda>w. worker ask (strided n concurrency w))
      in case find (\<lambda>w. case out w of Inl _ \<Rightarrow> True | Inr _ \<Rightarrow> False) order of
           Some w \<Rightarrow> Inl (projl (out w))
         | None \<Rightarrow>
             let r = fold add_sample (concat (map (\<lambda>w. projr (out w)) [0..<concurrency])) no_results
             in Inr (r\<lparr>latencies := sort (latencies r)\<rparr>))"

section \<open>Means and quantiles\<close>

text \<open>\<open>Duration.Round(time.Microsecond)\<close>, halves away from zero, saturating at the ends of the range.\<close>

definition round_us :: "int \<Rightarrow> int" where
  "round_us d =
     (let m = 1000; r = d - m * go_div d m
      in if d < 0 then
           let r = - r
           in if r + r < m then d + r
              else let d1 = wrap64 (d - m + r) in if d1 < d then d1 else - (2 ^ 63)
         else if r + r < m then d - r
         else let d1 = wrap64 (d + m - r) in if d < d1 then d1 else 2 ^ 63 - 1)"

definition meanOf :: "int \<Rightarrow> int \<Rightarrow> int" where
  "meanOf tot n = (if n \<le> 0 then 0 else round_us (go_div tot n))"

definition lg_mean :: "lg_results \<Rightarrow> int" where
  "lg_mean r = meanOf (wrap64 (hitNS r + missNS r)) (n_served r)"

definition meanHit :: "lg_results \<Rightarrow> int" where
  "meanHit r = meanOf (hitNS r) (n_cached r)"

definition meanMiss :: "lg_results \<Rightarrow> int" where
  "meanMiss r = meanOf (missNS r) (wrap64 (n_served r - n_cached r))"

definition marginalMiss :: "lg_results \<Rightarrow> int" where
  "marginalMiss r = wrap64 (meanMiss r - meanHit r)"

definition quantile :: "(fl \<Rightarrow> int) \<Rightarrow> fl \<Rightarrow> lg_results \<Rightarrow> int option" where
  "quantile impl q r =
     (if length (latencies r) = 0 then Some 0
      else let i = f_to_i64 impl (fmul F64 q (f_of_int F64 (int (length (latencies r)) - 1)))
        in map_option round_us (go_nth (latencies r) i))"

section \<open>The change of the server's counters\<close>

record server_delta =
  sd_policy :: string
  sd_model :: string
  sd_hits :: u64
  sd_misses :: u64
  sd_hitB :: u64
  sd_missB :: u64
  sd_evictions :: u64
  sd_rejections :: u64
  sd_objects :: u64
  sd_bytesUsed :: u64
  sd_bytesCapacity :: u64
  sd_evictNS :: u64

text \<open>The closure's captured flag is passed along.\<close>

definition counter_sub :: "u64 \<Rightarrow> u64 \<Rightarrow> bool \<Rightarrow> u64 \<times> bool" where
  "counter_sub a b reset = (if a < b then (0, True) else (a - b, reset))"

definition delta :: "stats_response \<Rightarrow> stats_response \<Rightarrow> server_delta option" where
  "delta before after =
     (let (samples, reset) = counter_sub (EvictSample after) (EvictSample before) False;
          (evictNS, reset) =
            (if 0 < samples
             then let (ns, reset) = counter_sub (EvictNS after) (EvictNS before) reset in (ns div samples, reset)
             else (0, reset));
          (hits, reset) = counter_sub (Hits after) (Hits before) reset;
          (misses, reset) = counter_sub (Misses after) (Misses before) reset;
          (hitB, reset) = counter_sub (HitBytes after) (HitBytes before) reset;
          (missB, reset) = counter_sub (MissBytes after) (MissBytes before) reset;
          (evs, reset) = counter_sub (Evictions after) (Evictions before) reset;
          (rejs, reset) = counter_sub (Rejections after) (Rejections before) reset
      in if reset then None
         else Some \<lparr>sd_policy = st_policy after, sd_model = ModelVersion after, sd_hits = hits, sd_misses = misses,
           sd_hitB = hitB, sd_missB = missB, sd_evictions = evs, sd_rejections = rejs,
           sd_objects = Objects after, sd_bytesUsed = BytesUsed after, sd_bytesCapacity = BytesCapacity after,
           sd_evictNS = evictNS\<rparr>)"

section \<open>What is derived from a run\<close>

record lg_derived =
  dv_objectHit :: fl
  dv_byteHit :: fl
  dv_evictions :: fl
  haveOptimum :: bool
  meanSize :: fl
  capacityObjects :: int
  optimum :: fl

definition lg_ratio :: "u64 \<Rightarrow> u64 \<Rightarrow> fl" where
  "lg_ratio num den = (if den = 0 then Fin 0 else fdiv F64 (f_of_int F64 (uint num)) (f_of_int F64 (uint den)))"

definition derive :: "(fl \<Rightarrow> int) \<Rightarrow> lg_options \<Rightarrow> string list \<Rightarrow> lg_results \<Rightarrow> server_delta \<Rightarrow> lg_derived" where
  "derive impl o' trace res sd =
     (let d = \<lparr>dv_objectHit = lg_ratio (sd_hits sd) (sd_hits sd + sd_misses sd),
               dv_byteHit = lg_ratio (sd_hitB sd) (sd_missB sd + sd_hitB sd),
               dv_evictions = Fin 0, haveOptimum = False, meanSize = Fin 0, capacityObjects = 0, optimum = Fin 0\<rparr>
      in if n_served res = 0 then d
         else
           let d = d\<lparr>dv_evictions := fdiv F64 (f_of_int F64 (uint (sd_evictions sd))) (f_of_int F64 (n_served res))\<rparr>
           in if sd_objects sd = 0 then d
              else
                let d = d\<lparr>haveOptimum := True,
                      meanSize := fdiv F64 (f_of_int F64 (uint (sd_bytesUsed sd))) (f_of_int F64 (uint (sd_objects sd)))\<rparr>;
                    d = d\<lparr>capacityObjects := f_to_i64 impl (fdiv F64 (f_of_int F64 (uint (sd_bytesCapacity sd))) (meanSize d))\<rparr>;
                    warmup = min (lo_warmup o') (int (length trace));
                    scored = take (nat warmup) trace @ trace
                in d\<lparr>optimum := MINHitRatioFrom (hashTrace scored) (capacityObjects d) warmup\<rparr>)"

section \<open>The gate and the report\<close>

definition withinThresholds :: "(fl \<Rightarrow> int) \<Rightarrow> lg_options \<Rightarrow> lg_results \<Rightarrow> server_delta \<Rightarrow> bool option" where
  "withinThresholds impl o' res sd =
     (let ok = \<not> (Fin 0 < lo_minHit o' \<and> lg_ratio (sd_hits sd) (sd_hits sd + sd_misses sd) < lo_minHit o')
      in if 0 < lo_maxP99 o'
         then (case quantile impl (fround F64 (99 / 100)) res of None \<Rightarrow> None | Some got \<Rightarrow> Some (ok \<and> \<not> lo_maxP99 o' < got))
         else Some ok)"

text \<open>\<open>math.Round\<close> takes halves away from zero and keeps what is not finite.\<close>

definition math_round :: "fl \<Rightarrow> fl" where
  "math_round x = (case x of Fin q \<Rightarrow> Fin (of_int (if 0 \<le> q then \<lfloor>q + 1 / 2\<rfloor> else \<lceil>q - 1 / 2\<rceil>)) | _ \<Rightarrow> x)"

definition round4 :: "fl \<Rightarrow> fl" where
  "round4 v = fdiv F64 (math_round (fmul F64 v (Fin 10000))) (Fin 10000)"

definition duration_seconds :: "int \<Rightarrow> fl" where
  "duration_seconds d =
     (let s = go_div d 1000000000
      in fadd F64 (f_of_int F64 s) (fdiv F64 (f_of_int F64 (d - s * 1000000000)) (Fin 1000000000)))"

record lg_report =
  rp_policy :: string
  rp_model :: string
  rp_originLatency :: string
  rp_requests :: int
  rp_concurrency :: int
  rp_keyspace :: int
  rp_zipfS :: fl
  rp_objectHit :: fl
  rp_byteHit :: fl
  rp_clientHit :: fl
  rp_beladyMIN :: fl
  rp_evictions :: u64
  rp_rejections :: u64
  rp_evictionsPerRequest :: fl
  rp_evictNS :: u64
  rp_bytesUsed :: u64
  rp_mean :: int
  rp_meanHit :: int
  rp_meanMiss :: int
  rp_marginalMiss :: int
  rp_p50 :: "int option"
  rp_p99 :: "int option"
  rp_p999 :: "int option"
  rp_reqPerSec :: fl
  rp_elapsedMS :: int

definition json_record :: "(fl \<Rightarrow> int) \<Rightarrow> env \<Rightarrow> lg_options \<Rightarrow> lg_results \<Rightarrow> server_delta \<Rightarrow> lg_derived \<Rightarrow> int \<Rightarrow> lg_report" where
  "json_record impl env o' res sd d took =
     \<lparr>rp_policy = sd_policy sd, rp_model = sd_model sd, rp_originLatency = String env ''ORIGIN_LATENCY'' [],
      rp_requests = n_served res, rp_concurrency = lo_concurrency o', rp_keyspace = lo_keyspace o', rp_zipfS = lo_zipfS o',
      rp_objectHit = round4 (dv_objectHit d), rp_byteHit = round4 (dv_byteHit d),
      rp_clientHit = round4 (lg_ratio (word_of_int (n_cached res)) (word_of_int (n_served res))),
      rp_beladyMIN = round4 (optimum d), rp_evictions = sd_evictions sd, rp_rejections = sd_rejections sd,
      rp_evictionsPerRequest = round4 (dv_evictions d), rp_evictNS = sd_evictNS sd, rp_bytesUsed = sd_bytesUsed sd,
      rp_mean = lg_mean res, rp_meanHit = meanHit res, rp_meanMiss = meanMiss res, rp_marginalMiss = marginalMiss res,
      rp_p50 = quantile impl (Fin (1 / 2)) res, rp_p99 = quantile impl (fround F64 (99 / 100)) res,
      rp_p999 = quantile impl (fround F64 (999 / 1000)) res,
      rp_reqPerSec = round4 (fdiv F64 (f_of_int F64 (n_served res)) (duration_seconds took)),
      rp_elapsedMS = go_div took 1000000\<rparr>"

text \<open>\<open>encoding/json\<close> refuses a float that is not finite. The text report reads two quantiles more.\<close>

definition encodable :: "lg_report \<Rightarrow> bool" where
  "encodable r \<longleftrightarrow> list_all finite_fl
     [rp_zipfS r, rp_objectHit r, rp_byteHit r, rp_clientHit r, rp_beladyMIN r, rp_evictionsPerRequest r, rp_reqPerSec r]"

definition reported_quantiles :: "bool \<Rightarrow> fl list" where
  "reported_quantiles json =
     (if json then [Fin (1 / 2), fround F64 (99 / 100), fround F64 (999 / 1000)]
      else [Fin (1 / 2), fround F64 (9 / 10), fround F64 (99 / 100), fround F64 (999 / 1000), Fin 1])"

definition versionSuffix :: "string \<Rightarrow> string" where
  "versionSuffix v = (if v = [] then [] else '' (model '' @ v @ '')'')"

section \<open>A whole run\<close>

text \<open>
  What the services answer in the course of a run: to the warm-up and the measured requests, to the two
  requests for statistics. The result is the exit status, with the record when one is printed.
\<close>

record lg_world =
  lw_dial :: "string \<Rightarrow> bool"
  lw_zipf :: "nat \<Rightarrow> u64"
  lw_warm :: "nat \<Rightarrow> string + lg_sample"
  lw_ask :: "nat \<Rightarrow> string + lg_sample"
  lw_order :: "nat list"
  lw_before :: "rpc_error + stats_response"
  lw_after :: "rpc_error + stats_response"
  lw_elapsed :: int

definition measured :: "(fl \<Rightarrow> int) \<Rightarrow> env \<Rightarrow> lg_options \<Rightarrow> string list \<Rightarrow> lg_world \<Rightarrow> (exit \<times> lg_report option) option" where
  "measured impl env o' trace w =
     (case lw_before w of Inl _ \<Rightarrow> Some (Exit 1, None)
      | Inr before \<Rightarrow>
     (case replay (lw_ask w) (lw_order w) (length trace) (nat (lo_concurrency o')) of Inl _ \<Rightarrow> Some (Exit 1, None)
      | Inr res \<Rightarrow>
     (case lw_after w of Inl _ \<Rightarrow> Some (Exit 1, None)
      | Inr after \<Rightarrow>
     (case delta before after of None \<Rightarrow> Some (Exit 1, None)
      | Some sd \<Rightarrow>
          let d = derive impl o' trace res sd;
              rec = json_record impl env o' res sd d (lw_elapsed w)
          in if list_ex (\<lambda>q. quantile impl q res = None) (reported_quantiles (Bool env ''REPORT_JSON'' False)) then None
             else if Bool env ''REPORT_JSON'' False \<and> \<not> encodable rec then Some (Exit 1, None)
             else case withinThresholds impl o' res sd of
               None \<Rightarrow> None
             | Some ok \<Rightarrow> Some (Exit (if ok then 0 else 1), if Bool env ''REPORT_JSON'' False then Some rec else None)))))"

definition run_loadgen :: "(fl \<Rightarrow> int) \<Rightarrow> env \<Rightarrow> lg_world \<Rightarrow> (exit \<times> lg_report option) option" where
  "run_loadgen impl env w =
     (case check_options (read_options env) of
        Inl _ \<Rightarrow> Some (Exit 2, None)
      | Inr o' \<Rightarrow>
          if \<not> lw_dial w (lo_target o') then Some (Exit 1, None)
          else
            let trace = generateTrace (lw_zipf w) o';
                n = nat (min (lo_warmup o') (int (length trace)))
            in if 0 < lo_warmup o' \<and> (case replay (lw_warm w) (lw_order w) n (nat (lo_concurrency o')) of Inl _ \<Rightarrow> True | Inr _ \<Rightarrow> False)
               then Some (Exit 1, None)
               else measured impl env o' trace w)"

section \<open>Every request is made once\<close>

lemma strided_set:
  assumes "0 < c"
  shows "set (strided n c w) = {i. w \<le> i \<and> i < n \<and> i mod c = w mod c}"
  using assms
proof (induction n c w rule: strided.induct)
  case (1 n c w)
  show ?case
  proof (cases "w < n \<and> 0 < c")
    case False
    then show ?thesis using 1(2) by (subst strided.simps) auto
  next
    case True
    have next_turn: "w + c \<le> i" if "w \<le> i" "i mod c = w mod c" "i \<noteq> w" for i
    proof -
      have "c dvd i - w" using mod_eq_dvd_iff_nat[OF that(1), of c] that(2) by simp
      then have "c \<le> i - w" using that(1,3) by (intro dvd_imp_le) auto
      then show ?thesis using that(1) by simp
    qed
    have "set (strided n c w) = insert w {i. w + c \<le> i \<and> i < n \<and> i mod c = (w + c) mod c}"
      using 1(1)[OF True 1(2)] True by (subst strided.simps) simp
    also have "\<dots> = {i. w \<le> i \<and> i < n \<and> i mod c = w mod c}" using True next_turn by auto
    finally show ?thesis .
  qed
qed

lemma strided_distinct: "distinct (strided n c w)"
proof (induction n c w rule: strided.induct)
  case (1 n c w)
  show ?case
  proof (cases "w < n \<and> 0 < c")
    case True
    then have "w \<notin> set (strided n c (w + c))" by (simp add: strided_set)
    then show ?thesis using 1[OF True] True by (subst strided.simps) simp
  next
    case False
    then show ?thesis by (subst strided.simps) auto
  qed
qed

text \<open>Together the workers take every index of the trace, each once.\<close>

lemma strided_partition:
  assumes "0 < c"
  shows "mset (concat (map (strided n c) [0..<c])) = mset [0..<n]"
proof -
  have disj: "set (strided n c w) \<inter> set (strided n c w') = {}" if "w < c" "w' < c" "w \<noteq> w'" for w w'
    using that by (auto simp: strided_set[OF assms])
  have "distinct (concat (map (strided n c) [0..<k]))" if "k \<le> c" for k
    using that
  proof (induction k)
    case (Suc k)
    have "set (strided n c k) \<inter> set (strided n c w) = {}" if "w < k" for w using disj[of k w] that Suc.prems by simp
    then have "set (strided n c k) \<inter> set (concat (map (strided n c) [0..<k])) = {}" by (simp add: Int_UN_distrib)
    with Suc show ?case by (auto simp: strided_distinct)
  qed simp
  then have d: "distinct (concat (map (strided n c) [0..<c]))" by simp
  have e: "set (concat (map (strided n c) [0..<c])) = set [0..<n]"
  proof (intro set_eqI iffI)
    fix i
    assume "i \<in> set [0..<n]"
    then have "i \<in> set (strided n c (i mod c))" "i mod c < c" using assms by (auto simp: strided_set[OF assms])
    then show "i \<in> set (concat (map (strided n c) [0..<c]))" by auto
  qed (auto simp: strided_set[OF assms])
  show ?thesis using set_eq_iff_mset_eq_distinct[OF d distinct_upt] e by (rule iffD1)
qed

lemma worker_Inr: "worker ask is = Inr ss \<Longrightarrow> (\<forall>i \<in> set is. \<exists>x. ask i = Inr x) \<and> ss = map (\<lambda>i. projr (ask i)) is"
  by (induction "is" arbitrary: ss) (fastforce split: sum.splits)+

lemma worker_Inl: "worker ask is = Inl e \<Longrightarrow> \<exists>i \<in> set is. ask i = Inl e"
  by (induction "is") (auto split: sum.splits)

lemma fold_add_sample:
  "latencies (fold add_sample xs r) = latencies r @ map sp_latency xs \<and>
   wrap64 (n_served (fold add_sample xs r)) = wrap64 (n_served r + int (length xs)) \<and>
   wrap64 (n_cached (fold add_sample xs r)) = wrap64 (n_cached r + int (length (filter sp_cached xs))) \<and>
   (in_i64 (n_served r) \<and> in_i64 (n_cached r) \<longrightarrow> in_i64 (n_served (fold add_sample xs r)) \<and> in_i64 (n_cached (fold add_sample xs r)))"
proof (induction xs arbitrary: r)
  case (Cons x xs)
  have "in_i64 (n_served r) \<and> in_i64 (n_cached r) \<longrightarrow> in_i64 (n_served (add_sample x r)) \<and> in_i64 (n_cached (add_sample x r))"
    using wrap64_range by (auto simp: add_sample_def Let_def)
  moreover have "latencies (add_sample x r) = latencies r @ [sp_latency x]"
    "wrap64 (n_served (add_sample x r) + int (length xs)) = wrap64 (n_served r + int (length (x # xs)))"
    "wrap64 (n_cached (add_sample x r) + int (length (filter sp_cached xs))) = wrap64 (n_cached r + int (length (filter sp_cached (x # xs))))"
    by (simp_all add: add_sample_def Let_def algebra_simps)
  ultimately show ?case using Cons.IH[of "add_sample x r"] by (simp only: fold_Cons comp_apply) simp
qed simp

text \<open>
  A replay that succeeds made every request once, whatever the concurrency, and counts and sorts what it
  saw; one that fails does so because some request did.
\<close>

lemma replay_complete:
  assumes "replay ask order n c = Inr r" and "0 < c" and "set order = {0..<c}" and "n < 2 ^ 63"
  shows "\<forall>i < n. \<exists>x. ask i = Inr x"
    and "mset (latencies r) = mset (map (\<lambda>i. sp_latency (projr (ask i))) [0..<n])" and "sorted (latencies r)"
    and "n_served r = int n" and "n_cached r = int (card {i. i < n \<and> sp_cached (projr (ask i))})"
proof -
  let ?out = "\<lambda>w. worker ask (strided n c w)"
  let ?all = "concat (map (\<lambda>w. projr (?out w)) [0..<c])" and ?is = "concat (map (strided n c) [0..<c])"
  have none: "find (\<lambda>w. case ?out w of Inl _ \<Rightarrow> True | Inr _ \<Rightarrow> False) order = None"
    and r: "r = (fold add_sample ?all no_results)\<lparr>latencies := sort (latencies (fold add_sample ?all no_results))\<rparr>"
    using assms(1) by (auto simp: replay_def Let_def split: option.splits)
  have ok: "\<exists>ss. ?out w = Inr ss" if "w < c" for w
    using none assms(3) that by (cases "?out w") (auto simp: find_None_iff)
  have w: "(\<forall>i \<in> set (strided n c w). \<exists>x. ask i = Inr x) \<and> projr (?out w) = map (\<lambda>i. projr (ask i)) (strided n c w)"
    if "w < c" for w using ok[OF that] worker_Inr by fastforce
  have "map (\<lambda>w. projr (?out w)) [0..<c] = map (\<lambda>w. map (\<lambda>i. projr (ask i)) (strided n c w)) [0..<c]" using w by simp
  then have all: "?all = map (\<lambda>i. projr (ask i)) ?is" unfolding map_concat map_map comp_def by (rule arg_cong)
  note part = strided_partition[OF assms(2), of n]
  have set: "set ?is = {0..<n}" using mset_eq_setD[OF part] by simp
  show "\<forall>i < n. \<exists>x. ask i = Inr x"
  proof (intro allI impI)
    fix i assume "i < n"
    then have "i \<in> set ?is" unfolding set by simp
    then obtain v where "v < c" "i \<in> set (strided n c v)" by auto
    then show "\<exists>x. ask i = Inr x" using w by blast
  qed
  have len: "length ?all = n" using arg_cong[OF part, of size] by (simp add: all)
  note f = fold_add_sample[of ?all no_results]
  have small: "in_i64 (int n)" using assms(4) by auto
  have lat: "latencies (fold add_sample ?all no_results) = map (\<lambda>i. sp_latency (projr (ask i))) ?is"
    using f by (simp add: no_results_def all comp_def)
  show "mset (latencies r) = mset (map (\<lambda>i. sp_latency (projr (ask i))) [0..<n])" "sorted (latencies r)"
    using part by (simp_all add: r lat)
  have cached: "length (filter sp_cached ?all) = card {i. i < n \<and> sp_cached (projr (ask i))}"
  proof -
    have "length (filter sp_cached ?all) = size (filter_mset (\<lambda>i. sp_cached (projr (ask i))) (mset ?is))"
      unfolding all filter_map length_map mset_filter[symmetric] size_mset by (simp add: comp_def)
    also have "\<dots> = length (filter (\<lambda>i. sp_cached (projr (ask i))) [0..<n])" 
      unfolding part mset_filter[symmetric] size_mset by (rule refl)
    also have "\<dots> = card {i. i < n \<and> sp_cached (projr (ask i))}" 
      unfolding distinct_length_filter[OF distinct_upt] by (rule arg_cong[of _ _ card]) auto
    finally show ?thesis .
  qed
  have "card {i. i < n \<and> sp_cached (projr (ask i))} \<le> n"
    using card_mono[of "{..<n}" "{i. i < n \<and> sp_cached (projr (ask i))}"] by auto
  then have small': "in_i64 (int (card {i. i < n \<and> sp_cached (projr (ask i))}))" using assms(4) by auto
  have i0: "in_i64 (n_served no_results) \<and> in_i64 (n_cached no_results)" by (simp add: no_results_def)
  have "n_served (fold add_sample ?all no_results) = wrap64 (n_served (fold add_sample ?all no_results))"
    "n_cached (fold add_sample ?all no_results) = wrap64 (n_cached (fold add_sample ?all no_results))"
    using f i0 wrap64_id by metis+
  then show "n_served r = int n" "n_cached r = int (card {i. i < n \<and> sp_cached (projr (ask i))})"
    using f wrap64_id[OF small] wrap64_id[OF small'] by (simp_all add: r len cached no_results_def)
qed

lemma replay_fails:
  assumes "replay ask order n c = Inl e" and "set order = {0..<c}"
  shows "\<exists>i < n. ask i = Inl e"
proof -
  let ?out = "\<lambda>w. worker ask (strided n c w)"
  let ?bad = "\<lambda>w. case ?out w of Inl _ \<Rightarrow> True | Inr _ \<Rightarrow> False"
  from assms(1) obtain w where w: "find ?bad order = Some w" "e = projl (?out w)"
    by (auto simp: replay_def Let_def split: option.splits)
  from w(1) have "?bad w" "w \<in> set order" unfolding find_Some_iff by auto
  then have "w < c" "?out w = Inl e" using assms(2) w(2) by (auto split: sum.splits)
  then show ?thesis using worker_Inl[of ask "strided n c w" e] strided_set[of c n w] by auto
qed

section \<open>Counters that go back\<close>

definition went_back :: "stats_response \<Rightarrow> stats_response \<Rightarrow> bool" where
  "went_back before after \<longleftrightarrow>
     EvictSample after < EvictSample before \<or> (EvictSample before < EvictSample after \<and> EvictNS after < EvictNS before) \<or>
     Hits after < Hits before \<or> Misses after < Misses before \<or> HitBytes after < HitBytes before \<or>
     MissBytes after < MissBytes before \<or> Evictions after < Evictions before \<or> Rejections after < Rejections before"

lemma counter_sub_fst: "fst (counter_sub a b reset) = (if a < b then 0 else a - b)"
  by (simp add: counter_sub_def)

lemma counter_sub_snd: "snd (counter_sub a b reset) \<longleftrightarrow> reset \<or> a < b"
  by (simp add: counter_sub_def)

lemma diff_pos_iff: "\<not> (a::u64) < b \<Longrightarrow> 0 < a - b \<longleftrightarrow> b < a"
  by (auto simp: word_gt_0)

lemma delta_None: "delta before after = None \<longleftrightarrow> went_back before after"
  by (auto simp: delta_def went_back_def Let_def case_prod_beta counter_sub_fst counter_sub_snd diff_pos_iff)

lemma word_diff_exact: "\<not> (a::u64) < b \<Longrightarrow> unat (a - b) + unat b = unat a"
  by (simp add: unat_sub_if_size word_le_nat_alt not_less)

lemma delta_exact:
  assumes "delta before after = Some sd"
  shows "unat (sd_hits sd) + unat (Hits before) = unat (Hits after)"
    and "unat (sd_misses sd) + unat (Misses before) = unat (Misses after)"
    and "unat (sd_evictions sd) + unat (Evictions before) = unat (Evictions after)"
proof -
  have "\<not> went_back before after" using assms delta_None[of before after] by auto
  then have nb: "\<not> Hits after < Hits before" "\<not> Misses after < Misses before" "\<not> Evictions after < Evictions before"
    by (simp_all add: went_back_def)
  have "sd_hits sd = Hits after - Hits before" "sd_misses sd = Misses after - Misses before"
    "sd_evictions sd = Evictions after - Evictions before"
    using assms nb by (auto simp: delta_def Let_def case_prod_beta counter_sub_fst split: if_splits)
  with nb show "unat (sd_hits sd) + unat (Hits before) = unat (Hits after)"
    "unat (sd_misses sd) + unat (Misses before) = unat (Misses after)"
    "unat (sd_evictions sd) + unat (Evictions before) = unat (Evictions after)"
    by (simp_all add: word_diff_exact)
qed

section \<open>Quantiles\<close>

lemma quantile_sample:
  assumes q: "0 \<le> x" "x \<le> 1" and ne: "latencies r \<noteq> []" and len: "int (length (latencies r)) < 2 ^ 53"
  shows "\<exists>i < length (latencies r). quantile impl (Fin x) r = Some (round_us (latencies r ! i))"
proof -
  let ?n = "int (length (latencies r)) - 1"
  have n: "0 \<le> ?n" "?n < 2 ^ 53" using ne len by (cases "latencies r"; simp)+
  have fn: "f_of_int F64 ?n = Fin (of_int ?n)" using n by (intro f_of_int_exact) auto
  have n': "(0::rat) \<le> of_int ?n" using n(1) by (simp only: of_int_0_le_iff)
  have "0 \<le> x * of_int ?n" by (rule mult_nonneg_nonneg[OF q(1) n'])
  have le: "x * of_int ?n \<le> of_int ?n" using mult_right_mono[OF q(2) n'] by (simp only: mult_1)
  have "Fin (of_int 0) \<le> fround F64 (x * of_int ?n)" by (rule fround_ge_int) (use \<open>0 \<le> x * of_int ?n\<close> in auto)
  moreover have "fround F64 (x * of_int ?n) \<le> Fin (of_int ?n)"
    using fround_mono[OF le, of F64] fround_int[of F64 ?n] n by simp
  ultimately obtain p where p: "fround F64 (x * of_int ?n) = Fin p" "0 \<le> p" "p \<le> of_int ?n"
    by (cases "fround F64 (x * of_int ?n)") auto
  have i: "0 \<le> \<lfloor>p\<rfloor>" "\<lfloor>p\<rfloor> \<le> ?n" using p(2) floor_mono[OF p(3)] by simp_all
  have "in_i64 k" if "0 \<le> k" "k \<le> ?n" for k using that len by auto
  then have "in_i64 \<lfloor>p\<rfloor>" using i by blast
  then have idx: "f_to_i64 impl (fmul F64 (Fin x) (f_of_int F64 ?n)) = \<lfloor>p\<rfloor>" unfolding fn using p by (simp add: f_to_i64_def)
  have "go_nth (latencies r) \<lfloor>p\<rfloor> = Some (latencies r ! nat \<lfloor>p\<rfloor>)" using i by (intro go_nth_Some) linarith+
  then have "quantile impl (Fin x) r = Some (round_us (latencies r ! nat \<lfloor>p\<rfloor>))"
    unfolding quantile_def idx using ne by (simp add: Let_def)
  moreover have "nat \<lfloor>p\<rfloor> < length (latencies r)" using i by linarith
  ultimately show ?thesis by blast
qed

lemma fround_unit:
  assumes "0 \<le> q" and "q \<le> 1"
  shows "\<exists>x. fround F64 q = Fin x \<and> 0 \<le> x \<and> x \<le> 1"
proof -
  have "Fin 0 \<le> fround F64 q" using fround_ge_int[of F64 0 q] assms by simp
  moreover have "fround F64 q \<le> Fin 1" using fround_mono[of q 1 F64] fround_int[of F64 1] assms by simp
  ultimately show ?thesis by (cases "fround F64 q") auto
qed

lemma quantile_returns:
  assumes "int (length (latencies r)) < 2 ^ 53" and "q \<in> Fin ` {0..1} \<union> fround F64 ` {0..1}"
  shows "\<exists>v. quantile impl q r = Some v"
proof (cases "latencies r = []")
  case True
  then show ?thesis by (simp add: quantile_def)
next
  case False
  have "\<exists>x. q = Fin x \<and> 0 \<le> x \<and> x \<le> 1"
    using assms(2)
  proof (elim UnE imageE)
    fix y :: rat
    assume "q = fround F64 y" "y \<in> {0..1}"
    then show ?thesis using fround_unit[of y] by simp
  qed auto
  then obtain x where "q = Fin x" "0 \<le> x" "x \<le> 1" by blast
  with quantile_sample[OF this(2,3) False assms(1)] show ?thesis by auto
qed

lemma reported_in_range: "set (reported_quantiles json) \<subseteq> Fin ` {0..1} \<union> fround F64 ` {0..1}"
  by (auto simp: reported_quantiles_def)

lemma reported_return:
  assumes "int (length (latencies r)) < 2 ^ 53"
  shows "\<not> list_ex (\<lambda>q. quantile impl q r = None) (reported_quantiles json)"
proof -
  have "quantile impl x r \<noteq> None" if "x \<in> set (reported_quantiles json)" for x
    using quantile_returns[OF assms, of x impl] subsetD[OF reported_in_range that] by auto
  then show ?thesis unfolding list_ex_iff by blast
qed

section \<open>The ceiling\<close>

text \<open>Without a warm-up the optimum is \<open>MINHitRatio\<close> of the replayed trace, so no schedule beats it.\<close>

lemma derive_optimum:
  assumes "lo_warmup o' = 0" and "n_served res \<noteq> 0" and "sd_objects sd \<noteq> 0"
  shows "optimum (derive impl o' trace res sd) = MINHitRatio (hashTrace trace) (capacityObjects (derive impl o' trace res sd))"
  using assms by (simp add: derive_def Let_def MINHitRatio_def)

section \<open>The verdict\<close>

lemma generateTrace_length: "length (generateTrace zipf o') = nat (lo_requests o')"
  by (simp add: generateTrace_def)

lemma measured_verdict:
  assumes order: "set (lw_order w) = {0..<nat (lo_concurrency o')}" and c: "0 < lo_concurrency o'" and n: "length trace < 2 ^ 53"
  shows "\<exists>code rec. measured impl env o' trace w = Some (Exit code, rec) \<and> (code = 0 \<longrightarrow>
    (\<forall>i < length trace. \<exists>x. lw_ask w i = Inr x) \<and>
    (\<exists>before after sd res. lw_before w = Inr before \<and> lw_after w = Inr after \<and> \<not> went_back before after \<and>
      delta before after = Some sd \<and> mset (latencies res) = mset (map (\<lambda>i. sp_latency (projr (lw_ask w i))) [0..<length trace]) \<and>
      (Fin 0 < lo_minHit o' \<longrightarrow> \<not> lg_ratio (sd_hits sd) (sd_hits sd + sd_misses sd) < lo_minHit o') \<and>
      (0 < lo_maxP99 o' \<longrightarrow> (\<exists>p. quantile impl (fround F64 (99 / 100)) res = Some p \<and> p \<le> lo_maxP99 o'))))"
proof -
  let ?r = "replay (lw_ask w) (lw_order w) (length trace) (nat (lo_concurrency o'))"
  show ?thesis
  proof (cases "lw_before w")
    case (Inl e)
    then show ?thesis by (simp add: measured_def)
  next
    case before: (Inr before)
    show ?thesis
    proof (cases ?r)
      case (Inl e)
      then show ?thesis using before by (simp add: measured_def)
    next
      case res: (Inr res)
      have c0: "0 < nat (lo_concurrency o')" and n63: "length trace < 2 ^ 63" using c n by simp_all
      note R = replay_complete[OF res c0 order n63]
      have "length (latencies res) = length trace" using arg_cong[OF R(2), of size] by simp
      then have "int (length (latencies res)) < 2 ^ 53" using n by simp
      note ret = quantile_returns[OF this]
      have "fround F64 (99 / 100) \<in> fround F64 ` {0..1}" by (intro imageI) simp
      then obtain p where p: "quantile impl (fround F64 (99 / 100)) res = Some p" using ret by blast
      note q = reported_return[OF \<open>int (length (latencies res)) < 2 ^ 53\<close>, of impl]
      show ?thesis
      proof (cases "lw_after w")
        case (Inl e)
        then show ?thesis using before res by (simp add: measured_def)
      next
        case after: (Inr after)
        show ?thesis
        proof (cases "delta before after")
          case None
          then show ?thesis using before res after by (simp add: measured_def)
        next
          case (Some sd)
          then have nb: "\<not> went_back before after" using delta_None[of before after] by auto
          let ?json = "Bool env ''REPORT_JSON'' False"
          let ?rec = "json_record impl env o' res sd (derive impl o' trace res sd) (lw_elapsed w)"
          define ok where "ok \<longleftrightarrow> \<not> (Fin 0 < lo_minHit o' \<and> lg_ratio (sd_hits sd) (sd_hits sd + sd_misses sd) < lo_minHit o') \<and>
            (0 < lo_maxP99 o' \<longrightarrow> p \<le> lo_maxP99 o')"
          have "withinThresholds impl o' res sd = Some ok" using p by (simp add: withinThresholds_def Let_def not_less ok_def)
          then have m: "measured impl env o' trace w = (if ?json \<and> \<not> encodable ?rec then Some (Exit 1, None)
              else Some (Exit (if ok then 0 else 1), if ?json then Some ?rec else None))"
            using before res after Some by (simp only: measured_def sum.case option.case Let_def q if_False)
          show ?thesis
          proof (cases "?json \<and> \<not> encodable ?rec")
            case True
            then have "measured impl env o' trace w = Some (Exit 1, None)" by (simp only: m if_True simp_thms)
            then show ?thesis by (intro exI[of _ 1] exI[of _ None]) simp
          next
            case False
            then have m: "measured impl env o' trace w = Some (Exit (if ok then 0 else 1), if ?json then Some ?rec else None)"
              by (simp only: m if_False)
            show ?thesis
            proof (cases ok)
              case True
              then have m0: "measured impl env o' trace w = Some (Exit 0, if ?json then Some ?rec else None)"
                using m by (simp only: if_True)
              have hit: "Fin 0 < lo_minHit o' \<longrightarrow> \<not> lg_ratio (sd_hits sd) (sd_hits sd + sd_misses sd) < lo_minHit o'"
                and tail: "0 < lo_maxP99 o' \<longrightarrow> p \<le> lo_maxP99 o'" using True unfolding ok_def by blast+
              show ?thesis
                by (intro exI[of _ 0] exI[of _ "if ?json then Some ?rec else None"] exI[of _ before] exI[of _ after]
                  exI[of _ sd] exI[of _ res] conjI impI m0 R(1,2) before after Some nb exI[of _ p] p)
                  (use hit tail in blast)+
            next
              case False
              then show ?thesis using m
                by (intro exI[of _ 1] exI[of _ "if ?json then Some ?rec else None"]) (simp only: if_False, simp)
            qed
          qed
        qed
      qed
    qed
  qed
qed


text \<open>A run that succeeds, with every setting but the skew at its default: 200000 requests by 64 workers, all answered.\<close>

definition quiet_stats :: stats_response where
  "quiet_stats = stats.extend (zero_stats ''lru'') \<lparr>NodeId = ''gateway'', ModelVersion = [], TraceWritten = 0, TraceDropped = 0\<rparr>"

definition quiet_world :: lg_world where
  "quiet_world =
     \<lparr>lw_dial = \<lambda>_. True, lw_zipf = \<lambda>i. of_nat (i mod 7),
      lw_warm = \<lambda>_. Inr \<lparr>sp_latency = 900, sp_bytes = 5, sp_cached = False\<rparr>,
      lw_ask = \<lambda>_. Inr \<lparr>sp_latency = 300, sp_bytes = 5, sp_cached = True\<rparr>, lw_order = [0..<64],
      lw_before = Inr quiet_stats, lw_after = Inr quiet_stats, lw_elapsed = 10 ^ 9\<rparr>"

definition demo_lg_env :: env where
  "demo_lg_env = [''ZIPF_S'' \<mapsto> itoa 2]"

lemma replay_succeeds:
  assumes "\<forall>i. \<exists>x. ask i = Inr x" and "set order = {0..<c}"
  shows "\<exists>r. replay ask order n c = Inr r"
proof (cases "replay ask order n c")
  case (Inl e)
  with replay_fails[OF Inl assms(2)] assms(1) show ?thesis by (metis Inl_Inr_False)
qed simp

lemma default_options:
  "lo_concurrency (read_options demo_lg_env) = 64" "lo_requests (read_options demo_lg_env) = 200000"
  "lo_minHit (read_options demo_lg_env) = Fin 0" "lo_maxP99 (read_options demo_lg_env) = 0"
  "lo_zipfS (read_options demo_lg_env) = Fin 2"
  by (simp_all add: read_options_def Int'_def Float_def Duration_def parse_def demo_lg_env_def ParseFloat_itoa)

lemma quiet_run:
  assumes "check_options (read_options demo_lg_env) = Inr (read_options demo_lg_env)"
  shows "run_loadgen impl demo_lg_env quiet_world = Some (Exit 0, None)"
proof -
  let ?o = "read_options demo_lg_env"
  let ?n = "length (generateTrace (lw_zipf quiet_world) ?o)"
  have order: "set (lw_order quiet_world) = {0..<64}" by (simp add: quiet_world_def)
  have warm: "\<exists>r. replay (lw_warm quiet_world) (lw_order quiet_world) n 64 = Inr r" for n
    by (rule replay_succeeds[OF _ order]) (simp add: quiet_world_def)
  have n: "?n = 200000" by (simp add: generateTrace_length default_options)
  obtain res where res: "replay (lw_ask quiet_world) (lw_order quiet_world) ?n 64 = Inr res"
    using replay_succeeds[OF _ order, of "lw_ask quiet_world" ?n] by (auto simp: quiet_world_def)
  have "mset (latencies res) = mset (map (\<lambda>i. sp_latency (projr (lw_ask quiet_world i))) [0..<?n])"
    by (rule replay_complete(2)[OF res _ order]) (simp_all add: n)
  from arg_cong[OF this, of size] have "length (latencies res) = ?n" by simp
  then have len: "int (length (latencies res)) < 2 ^ 53" using n by simp
  have "\<not> went_back quiet_stats quiet_stats" by (simp add: went_back_def)
  then obtain sd where sd: "delta quiet_stats quiet_stats = Some sd" using delta_None[of quiet_stats quiet_stats] by auto
  have ok: "withinThresholds impl ?o res sd = Some True" by (simp add: withinThresholds_def default_options Let_def)
  have json: "Bool demo_lg_env ''REPORT_JSON'' False = False" by (simp add: Bool_def parse_def demo_lg_env_def)
  have stats: "lw_before quiet_world = Inr quiet_stats" "lw_after quiet_world = Inr quiet_stats" "lw_dial quiet_world a" for a
    by (simp_all add: quiet_world_def)
  have c: "nat (lo_concurrency ?o) = 64" by (simp add: default_options)
  have "measured impl demo_lg_env ?o (generateTrace (lw_zipf quiet_world) ?o) quiet_world = Some (Exit 0, None)"
    using res reported_return[OF len, of impl False]
    by (simp only: measured_def stats sum.case option.case c sd Let_def ok json if_False if_True simp_thms)
  then show ?thesis using warm
    by (simp add: run_loadgen_def assms stats c Let_def split: sum.splits) (metis Inl_Inr_False)
qed

lemma default_options_pass: "check_options (read_options demo_lg_env) = Inr (read_options demo_lg_env)"
  by (simp add: check_options_def default_options) (simp add: read_options_def Int'_def Duration_def parse_def demo_lg_env_def)


end
