(* ===== verification/Origin.thy ===== *)
theory Origin
  imports Node_Service Hashring
begin

text \<open>
  \<^verbatim>\<open>cmd/origin/main.go\<close>: the stand-in for what the cache fronts, whose delays and values are functions of
  the key. \<open>math.Pow\<close> is the argument \<open>pow\<close>. The last section checks the origin against the contract a cache
  node relies on.
\<close>

record origin =
  latency :: int
  jitter :: int
  minSize :: int
  maxSize :: int
  alpha :: fl

definition origin_delay :: "origin \<Rightarrow> byte list \<Rightarrow> int" where
  "origin_delay s key =
     (if jitter s \<le> 0 then latency s
      else
        let h = Hash (key @ bytes_of ''#latency'')
        in wrap64 (latency s + wrap64 (uint (h mod word_of_int (jitter s)))))"

definition value_size :: "(fl \<Rightarrow> fl \<Rightarrow> fl) \<Rightarrow> (fl \<Rightarrow> int) \<Rightarrow> origin \<Rightarrow> u64 \<Rightarrow> int" where
  "value_size pow impl s h =
     (let u = fdiv F64 (fadd F64 (f_of_int F64 (uint (drop_bit 11 h))) (Fin 1)) (f_of_int F64 (2 ^ 53));
          size = fmul F64 (f_of_int F64 (minSize s)) (pow (fdiv F64 (Fin 1) u) (fdiv F64 (Fin 1) (alpha s)))
      in if f_of_int F64 (maxSize s) \<le> size then maxSize s
         else if f_of_int F64 (minSize s) < size then f_to_i64 impl size
         else minSize s)"

definition origin_value :: "(fl \<Rightarrow> fl \<Rightarrow> fl) \<Rightarrow> (fl \<Rightarrow> int) \<Rightarrow> origin \<Rightarrow> byte list \<Rightarrow> byte list" where
  "origin_value pow impl s key =
     (let h = Hash (key @ bytes_of ''#size'') in replicate (nat (value_size pow impl s h)) (ucast h))"

text \<open>The context's own error reaches the caller as the status the server makes of it.\<close>

definition Fetch :: "(fl \<Rightarrow> fl \<Rightarrow> fl) \<Rightarrow> (fl \<Rightarrow> int) \<Rightarrow> ctx_end option \<Rightarrow> origin \<Rightarrow> byte list \<Rightarrow> rpc_error + (bool \<times> byte list)" where
  "Fetch pow impl gone s key =
     (case gone of
        Some e \<Rightarrow> if 0 < origin_delay s key then Inl (FromContextError e) else Inr (True, origin_value pow impl s key)
      | None \<Rightarrow> Inr (True, origin_value pow impl s key))"

datatype origin_fatal = NegativeMin int | MaxBelowMin int int | BadAlpha fl

definition start_origin :: "env \<Rightarrow> origin_fatal + origin" where
  "start_origin env =
     (let s = \<lparr>latency = Duration env ''ORIGIN_LATENCY'' 2000000, jitter = Duration env ''ORIGIN_JITTER'' 1000000,
               minSize = Int' env ''ORIGIN_MIN_SIZE'' 512, maxSize = Int' env ''ORIGIN_MAX_SIZE'' (64 * 2 ^ 10),
               alpha = Float env ''ORIGIN_SIZE_ALPHA'' (Fin (3 / 2))\<rparr>
      in if minSize s < 0 then Inl (NegativeMin (minSize s))
         else if maxSize s < minSize s then Inl (MaxBelowMin (minSize s) (maxSize s))
         else if \<not> Fin 0 < alpha s then Inl (BadAlpha (alpha s))
         else Inr s)"

section \<open>Sizes\<close>

lemma start_origin_ok:
  "start_origin env = Inr s \<Longrightarrow> 0 \<le> minSize s \<and> minSize s \<le> maxSize s \<and> Fin 0 < alpha s"
  by (auto simp: start_origin_def Let_def split: if_splits)

text \<open>Whatever \<open>math.Pow\<close> returns, infinities and NaN included, the size stays in its range.\<close>

lemma value_size_range:
  assumes "0 \<le> minSize s" and "minSize s \<le> maxSize s" and "maxSize s < 2 ^ 53"
  shows "minSize s \<le> value_size pow impl s h \<and> value_size pow impl s h \<le> maxSize s"
proof -
  have mn: "f_of_int F64 (minSize s) = Fin (of_int (minSize s))" and mx: "f_of_int F64 (maxSize s) = Fin (of_int (maxSize s))"
    using assms by (auto intro!: f_of_int_exact)
  define size where "size = fmul F64 (f_of_int F64 (minSize s))
    (pow (fdiv F64 (Fin 1) (fdiv F64 (fadd F64 (f_of_int F64 (uint (drop_bit 11 h))) (Fin 1)) (f_of_int F64 (2 ^ 53))))
      (fdiv F64 (Fin 1) (alpha s)))"
  have v: "value_size pow impl s h = (if f_of_int F64 (maxSize s) \<le> size then maxSize s
      else if f_of_int F64 (minSize s) < size then f_to_i64 impl size else minSize s)"
    by (simp add: value_size_def size_def Let_def)
  have "minSize s \<le> f_to_i64 impl size \<and> f_to_i64 impl size \<le> maxSize s"
    if c: "\<not> f_of_int F64 (maxSize s) \<le> size" "f_of_int F64 (minSize s) < size"
  proof -
    from c mn mx obtain q where q: "size = Fin q" "of_int (minSize s) < q" "q < of_int (maxSize s)" by (cases size) auto
    have "0 \<le> q" using q(2) assms(1) by (metis of_int_0_le_iff less_imp_le order_trans)
    moreover have "minSize s \<le> \<lfloor>q\<rfloor>" using q(2) by (simp add: le_floor_iff)
    moreover have "\<lfloor>q\<rfloor> \<le> maxSize s" using q(3) by (simp add: floor_le_iff less_le_trans)
    moreover have "in_i64 x" if "0 \<le> x" "x < 2 ^ 53" for x using that by auto
    then have "in_i64 \<lfloor>q\<rfloor>"
      using order_trans[OF assms(1) calculation(2)] le_less_trans[OF calculation(3) assms(3)] by blast
    ultimately show ?thesis using q(1) by (simp add: f_to_i64_def)
  qed
  then show ?thesis using assms(2) v by auto
qed

lemma origin_value_size:
  assumes "start_origin env = Inr s" and "maxSize s < 2 ^ 31"
  shows "minSize s \<le> int (length (origin_value pow impl s key)) \<and> int (length (origin_value pow impl s key)) \<le> maxSize s"
  using value_size_range[of s pow impl "Hash (key @ bytes_of ''#size'')"] start_origin_ok[OF assms(1)] assms(2)
  by (simp add: origin_value_def Let_def)

section \<open>Delays\<close>

lemma origin_delay_range:
  assumes "0 \<le> latency s" and "latency s + jitter s < 2 ^ 63"
  shows "latency s \<le> origin_delay s key \<and> origin_delay s key \<le> latency s + max 0 (jitter s - 1)"
proof (cases "jitter s \<le> 0")
  case False
  let ?r = "uint (Hash (key @ bytes_of ''#latency'') mod word_of_int (jitter s))"
  have "uint (word_of_int (jitter s) :: u64) = jitter s"
    using False assms by (simp add: uint_word_of_int_eq take_bit_int_eq_self)
  then have r: "?r = uint (Hash (key @ bytes_of ''#latency'')) mod jitter s" by (simp add: uint_mod)
  then have range: "0 \<le> ?r" "?r < jitter s" using False by simp_all
  have "wrap64 x = x \<and> wrap64 (latency s + x) = latency s + x" if "0 \<le> x" "x < jitter s" for x
    using that assms by (auto intro!: wrap64_id)
  with range have "wrap64 ?r = ?r" "wrap64 (latency s + ?r) = latency s + ?r" by blast+
  with range show ?thesis using False by (simp add: origin_delay_def Let_def)
qed (simp add: origin_delay_def)

section \<open>The contract of an origin\<close>

text \<open>A reply as the cache node's client decodes it: an empty byte field arrives as nil.\<close>

definition fetch_reply_of :: "rpc_error + (bool \<times> byte list) \<Rightarrow> fetch_reply" where
  "fetch_reply_of r = (case r of Inl e \<Rightarrow> Inl e | Inr (fnd, v) \<Rightarrow> Inr (fnd, if v = [] then None else Some v))"

lemma origin_contract:
  assumes "start_origin env = Inr s" and "maxSize s < 2 ^ 31"
  shows "short_values (\<lambda>key. Some (origin_value pow impl s key))"
    and "origin_says (\<lambda>key. Some (origin_value pow impl s key)) key (Leads now (fetch_reply_of (Fetch pow impl gone s key)))"
proof -
  show "short_values (\<lambda>key. Some (origin_value pow impl s key))"
    using origin_value_size[OF assms, of pow impl] assms(2) unfolding short_values_def
    by (metis le_less_trans of_nat_less_numeral_power_cancel_iff option.inject)
  show "origin_says (\<lambda>key. Some (origin_value pow impl s key)) key (Leads now (fetch_reply_of (Fetch pow impl gone s key)))"
    by (auto simp: origin_says_def fetch_reply_of_def Fetch_def split: option.splits)
qed

section \<open>A node in front of this origin\<close>

text \<open>A read whose fetch, if there is one, is answered by the origin: its key, when the node's clock reads
  and the fetch happen, and how the contexts of the read and of the fetch end.\<close>

type_synonym origin_read = "byte list \<times> int \<times> int \<times> ctx_end option \<times> ctx_end option"

definition read_key :: "origin_read \<Rightarrow> byte list" where
  "read_key rd = fst rd"

definition ask_origin :: "(fl \<Rightarrow> fl \<Rightarrow> fl) \<Rightarrow> (fl \<Rightarrow> int) \<Rightarrow> origin \<Rightarrow> origin_read \<Rightarrow> node_request" where
  "ask_origin pow impl s rd =
     (case rd of (key, now, later, gone, fetch_gone) \<Rightarrow>
        AskGet key now (Leads later (fetch_reply_of (Fetch pow impl fetch_gone s key))) gone)"

text \<open>A successful answer is the origin's value for the key.\<close>

definition answers_value :: "(fl \<Rightarrow> fl \<Rightarrow> fl) \<Rightarrow> (fl \<Rightarrow> int) \<Rightarrow> origin \<Rightarrow> origin_read \<Rightarrow> node_reply \<Rightarrow> bool" where
  "answers_value pow impl s rd r \<longleftrightarrow>
     (\<forall>g. r = GotReply (Inr g) \<longrightarrow> gr_found g \<and> gr_value g = origin_value pow impl s (read_key rd) \<and>
       minSize s \<le> int (length (gr_value g)) \<and> int (length (gr_value g)) \<le> maxSize s)"

lemma honest_answers:
  assumes "start_origin env = Inr s" and "maxSize s < 2 ^ 31"
    and "honest True (\<lambda>key. Some (origin_value pow impl s key)) (ask_origin pow impl s rd) r"
  shows "answers_value pow impl s rd r"
  using assms(3) origin_value_size[OF assms(1,2), of pow impl "read_key rd"]
  by (cases rd; cases r) (auto simp: ask_origin_def answers_value_def read_key_def split: sum.splits)


lemma demo_origin_starts:
  "start_origin Map.empty = Inr \<lparr>latency = 2000000, jitter = 1000000, minSize = 512, maxSize = 65536, alpha = Fin (3 / 2)\<rparr>"
  by (simp add: start_origin_def Duration_def Int'_def Float_def parse_def)


end
