(* ===== verification/Spec2Isabelle.thy ===== *)
theory Spec2Isabelle
  imports Trace_Properties Registry_Properties Model_Properties Hashring_Properties Cache_Properties Node_Service Gateway_Properties Loadgen Origin
begin

text \<open>
  \<^bold>\<open>Belady\<close>, a distributed cache whose eviction policy can learn from its own access trace.

  A cache node (\<^verbatim>\<open>cmd/cachenode\<close>) keeps objects in a sharded store (\<^verbatim>\<open>internal/cache\<close>) and reads through
  to an origin. Each shard evicts by one of four policies; the learned one scores entries on features of
  their access history (\<^verbatim>\<open>internal/features\<close>) with a gradient-boosted model (\<^verbatim>\<open>internal/model\<close>). Shards write
  their accesses into rings, a recorder drains the rings into segment files (\<^verbatim>\<open>internal/trace\<close>), a trainer
  outside this repository's Go code learns from them, and the registry (\<^verbatim>\<open>internal/registry\<close>) stores the
  models and streams them to the nodes' watchers, which install them. A gateway (\<^verbatim>\<open>cmd/gateway\<close>) places keys
  on nodes by consistent hashing with bounded loads (\<^verbatim>\<open>internal/hashring\<close>); \<^verbatim>\<open>internal/belady\<close> computes the
  offline optimum that \<^verbatim>\<open>cmd/loadgen\<close> compares the cache with.

  \<^bold>\<open>Theories and the code they model.\<close>
  \<^item> \<open>Prelude\<close>, \<open>Floats\<close>, \<open>Go_Text\<close>, \<open>Files\<close>: the language and its library. Words are Go's unsigned
    integers, \<open>int\<close> with \<open>wrap64\<close> and \<open>wrap32\<close> its signed ones; \<open>fl\<close> is IEEE arithmetic rounded to even over
    the rationals, with infinities and NaN; the text functions and number parsers are written out; \<open>Files\<close>
    is a directory whose every call can fail, at a point and in a way the fault list chooses.
  \<^item> \<open>Features\<close>, \<open>Entry\<close>, \<open>Trace_Ring\<close>, \<open>Model_Eval\<close>, \<open>Model_Parse\<close>: \<^verbatim>\<open>features.go\<close>, \<^verbatim>\<open>entry.go\<close>, \<^verbatim>\<open>ring.go\<close> and
    \<^verbatim>\<open>model.go\<close>, evaluation and loading. The locale \<open>bounded_queue\<close> is the ring's interface.
  \<^item> \<open>Policy\<close>, \<open>S3fifo\<close>, \<open>Lrb\<close>, \<open>Shard\<close>, \<open>Cache_Store\<close>: \<^verbatim>\<open>policy.go\<close>, \<^verbatim>\<open>s3fifo.go\<close>, \<^verbatim>\<open>lrb.go\<close>, \<^verbatim>\<open>shard.go\<close>, \<^verbatim>\<open>cache.go\<close>. The
    interface \<open>Policy\<close> is a record of operations; the locale \<open>policy_laws\<close> states what a shard relies on and
    \<open>evicting_policy\<close> adds that a victim is found. All four policies are interpretations; the shard's and
    the store's theorems are proved once, inside the locales. Every locked method is one step.
  \<^item> \<open>Node_Policy\<close>, \<open>Rpc\<close>, \<open>Node_Service\<close>: \<^verbatim>\<open>cmd/cachenode/main.go\<close>, the choice of a policy by name, the gRPC
    handlers and the start-up; \<open>Config\<close>: \<^verbatim>\<open>config.go\<close>.
  \<^item> \<open>Trace_Frame\<close>, \<open>Trace_Recorder\<close>, \<open>Trace_Clean\<close>: \<^verbatim>\<open>reader.go\<close> and \<^verbatim>\<open>recorder.go\<close>, whose \<open>Run\<close> is a list of
    ticks, of records the shards produce between them, and of the cancellation.
  \<^item> \<open>Registry\<close>, \<open>Registry_Store\<close>, \<open>Registry_Watch\<close>, \<open>Watcher\<close>: \<^verbatim>\<open>registry.go\<close> and \<^verbatim>\<open>watcher.go\<close>. The watch
    handler runs beside publications, as the step relation \<open>watch_step\<close>.
  \<^item> \<open>Gateway\<close>, \<open>Gateway_Http\<close>: \<^verbatim>\<open>cmd/gateway\<close>, the gRPC methods with their start-up and the REST interface.
    \<open>Gateway_Steps\<close> runs many requests at once, each at a stage of \<open>forward\<close> or \<open>broadcast\<close>, as the step relation
    \<open>gate_step\<close>; \<open>Cluster\<close> puts the gateway in front of any servers that obey the locale \<open>backend\<close>, which the
    nodes of \<open>Node_Service\<close> do.
  \<^item> \<open>Origin\<close>: \<^verbatim>\<open>cmd/origin/main.go\<close>, and a node in front of it. \<open>Loadgen\<close>: \<^verbatim>\<open>cmd/loadgen\<close>, a whole run from its
    options to its exit status.
  \<^item> \<open>Hashring\<close>, \<open>Belady_MIN\<close>: \<^verbatim>\<open>hashring.go\<close>, \<^verbatim>\<open>min.go\<close>, with the standard library's heap and binary search.
  \<^item> \<open>Cache_Properties\<close>, \<open>Trace_Properties\<close>, \<open>Registry_Properties\<close>, \<open>Model_Properties\<close>, \<open>Hashring_Properties\<close>,
    \<open>Gateway_Properties\<close> and this theory hold the claims, with the concrete values their witnesses use.

  \<^bold>\<open>What the lemmas show.\<close> For each component an invariant that every operation keeps (\<open>shard_inv\<close>,
  \<open>wf_cache\<close>, \<open>s3_inv\<close>, \<open>lrb_inv\<close>, \<open>ring_inv\<close>, \<open>hring_inv\<close>, \<open>store_inv\<close>, \<open>file_inv\<close>, \<open>watch_inv\<close>, \<open>parse_inv\<close>, \<open>gate_inv\<close>), the result
  of each operation on every branch, and a specification it refines: a store is a map from hashes to the
  value last admitted (\<open>spec_run\<close>), the ring is a queue, the recorder's directory is the multiset of the
  records accepted, the registry's is a set of versions that only grows, \<open>MINHitRatio\<close> is the maximum
  over all schedules, and a node with an origin, or a whole cluster in front of it, is that origin
  (\<open>read_through_transparent\<close>, \<open>cluster_transparent\<close>). The gateway's counters are the requests that hold
  them, in every interleaving, and no request is ever stuck.

  \<^bold>\<open>Bounds and fuel.\<close> Loops that may not end in the code are \<open>partial_function (option)\<close> (the eviction loop,
  the tree walk, the segment reader), and the theorems say that they return. The recorder's inner drain
  loop has as many rounds as records are queued, plus one, which \<open>rec_run_account\<close> shows is enough; the
  duration parser has one round per character (\<open>duration_fuel\<close>). Capacities are below \<open>2 ^ 62\<close> bytes and
  values below \<open>2 ^ 31\<close>, the range in which the code's own counters do not wrap.

  \<^bold>\<open>Parameters.\<close> The order of map iteration, the clocks, the unstable sort of virtual nodes, \<open>math.Exp\<close>, the
  conversion of a float outside the range of \<open>int64\<close>, protocol buffer messages and varints, SHA-256, the
  origin's replies, \<open>math.Pow\<close>, the Zipf draws, the HTTP multiplexer and the choice of \<open>singleflight\<close> are
  arguments; their documented laws are the named hypotheses \<open>is_sort\<close>, \<open>codec_ok\<close>, \<open>mcodec_ok\<close> and \<open>origin_says\<close>, each met by a concrete instance in a
  witness.

  \<^bold>\<open>Not modelled.\<close> Logging, metrics, pprof and gRPC server construction (\<^verbatim>\<open>internal/obs\<close>, \<^verbatim>\<open>internal/grpcx\<close>, but for
  the HTTP timeouts, the message limit and the recovery of panics), which only call libraries; the start-up
  of the registry server, which is \<open>newStore\<close> and such calls; the generated protocol code; the layout of the
  load generator's text report. A gateway's and a node's handlers are composed one request at a time;
  interleavings are modelled for the gateway's slots and loads and for the registry's watchers.
\<close>

section \<open>A cache node under any of its policies\<close>

text \<open>A store as \<^verbatim>\<open>cmd/cachenode/main.go\<close> builds it: the policy by name, the configuration checked.\<close>

definition node_store :: "string \<Rightarrow> int \<Rightarrow> any_policy config \<Rightarrow> any_policy cache \<Rightarrow> bool" where
  "node_store name sample cfg c \<longleftrightarrow>
     (\<exists>mk. newPolicy name sample = Inr mk \<and> NewPolicy cfg = Some mk) \<and> 0 < sample \<and>
     NewCache (node_ops name) cfg = Inr c \<and> CapacityBytes cfg < 2 ^ 62 \<and> Shards cfg \<le> 2 ^ 62"

lemma node_store_ok:
  assumes "node_store name sample cfg c"
  shows "wf_cache any_inv c" and "cache_agrees c Map.empty"
    and "sum_list (map capacity (shards c)) \<le> CapacityBytes cfg"
    and "CapacityBytes cfg < 2 ^ 62"
proof -
  have n: "NewCache (node_ops name) cfg = Inr c" "CapacityBytes cfg < 2 ^ 62" "Shards cfg \<le> 2 ^ 62"
    using assms by (simp_all add: node_store_def)
  have mk: "any_inv (mk per) []" if "NewPolicy cfg = Some mk" for mk per
    using assms that newPolicy_inv[of name sample mk per] by (auto simp: node_store_def)
  show "wf_cache any_inv c" by (rule NewCache_ok(1)[where pinv = any_inv, OF n]) (rule mk)
  show "cache_agrees c Map.empty" by (rule NewCache_ok(2)[where pinv = any_inv, OF n]) (rule mk)
  show "sum_list (map capacity (shards c)) \<le> CapacityBytes cfg" by (rule NewCache_ok(3)[where pinv = any_inv, OF n]) (rule mk)
  show "CapacityBytes cfg < 2 ^ 62" by (fact n(2))
qed

lemma node_run_ok:
  assumes "node_store name sample cfg c" and "\<And>i j. lrb_env_ok (evs i j)" and "\<forall>op \<in> set opl. \<not> big_value op"
  shows "\<exists>outs c'. cache_run (node_ops name) evs n opl c = Some (outs, c') \<and> wf_cache any_inv c' \<and>
    map capacity (shards c') = map capacity (shards c) \<and> spec_run (map (hashed_op c) opl) outs Map.empty"
  by (rule node.cache_run_ok[OF node_store_ok(1,2)[OF assms(1)] assms(2,3)])

text \<open>
  Concrete values for the witnesses: a node under the learned policy, with a model of one leaf
  installed, two shards of 50 bytes and a one-second default TTL.
\<close>

definition demo_env :: ev_env where
  "demo_env = \<lparr>clock_start = 0, clock_end = 7, range_seed = [1], holder_now =
     snd (Store leaf_model ''v1'' 5 NewModelHolder)\<rparr>"

definition demo_cfg :: "any_policy config" where
  "demo_cfg = \<lparr>NewPolicy = Some (\<lambda>_. IsLrb (NewLRB 8)), Trace = None, DefaultTTL = 10 ^ 9, CapacityBytes = 100, Shards = 2\<rparr>"

definition demo_store :: "any_policy cache" where
  "demo_store = \<lparr>c_policy = ''lrb'', shards = [newShard 50 (IsLrb (NewLRB 8)) None, newShard 50 (IsLrb (NewLRB 8)) None],
     c_mask = 1, defaultTTL = 10 ^ 9\<rparr>"

lemma demo_env_ok: "lrb_env_ok demo_env"
  using wf_Store[OF wf_NewModelHolder leaf_model_ok] by (simp add: lrb_env_ok_def demo_env_def)

lemma demo_node: "node_store ''lrb'' 8 demo_cfg demo_store"
proof -
  have "NewCache (node_ops ''lrb'') demo_cfg = Inr demo_store"
    by (simp add: NewCache_def demo_cfg_def RoundShards_def shl_bits_len_def new_shards_def demo_store_def wrap_simps
        upt_rec numeral_eq_Suc)
  then show ?thesis by (simp add: node_store_def newPolicy_def) (simp add: demo_cfg_def)
qed

text \<open>
  C1. A store built for any policy a node can be configured with returns from every operation of every
  run, whatever the clocks, the order of map iteration and the models installed meanwhile; and a read
  that hits returns exactly the value last admitted under the key's hash, never after its deadline, and
  never after a delete.
\<close>

theorem store_serves_last_admitted:
  assumes "node_store name sample cfg c" and "\<And>i j. lrb_env_ok (evs i j)" and "\<forall>op \<in> set opl. \<not> big_value op"
  shows "\<exists>outs c'. cache_run (node_ops name) evs 0 opl c = Some (outs, c') \<and>
    spec_run (map (hashed_op c) opl) outs Map.empty"
  using node_run_ok[where evs = evs and n = 0, OF assms] by blast

lemma store_serves_last_admitted_witness:
  "\<exists>outs c'. cache_run (node_ops ''lrb'') (\<lambda>_ _. demo_env) 0 [CPut [1] [2, 3] 0 5, CGet [1] 6, CDelete [1]] demo_store = Some (outs, c') \<and>
    spec_run (map (hashed_op demo_store) [CPut [1] [2, 3] 0 5, CGet [1] 6, CDelete [1]]) outs Map.empty"
  by (rule store_serves_last_admitted[OF demo_node demo_env_ok]) (simp add: big_value_def)

definition resident_bytes :: "'p cache \<Rightarrow> int" where
  "resident_bytes c = sum_list (map (\<lambda>s. vsum (\<lambda>e. int (length (e_value e))) (sm s)) (shards c))"

lemma used_resident:
  assumes "wf_cache pinv c"
  shows "sum_list (map used (shards c)) = resident_bytes c"
proof -
  have "used s = vsum (\<lambda>e. int (length (e_value e))) (sm s)" if "s \<in> set (shards c)" for s
  proof -
    have inv: "shard_inv pinv s" using assms that by (auto simp: wf_cache_def in_set_conv_nth)
    have "vsum e_size (sm s) = vsum (\<lambda>e. int (length (e_value e))) (sm s)"
      using shard_invD(1)[OF inv] by (intro vsum_cong) (auto simp: wf_entries_def wf_entry_def)
    then show ?thesis using shard_invD(3)[OF inv] by simp
  qed
  then show ?thesis by (simp add: resident_bytes_def cong: map_cong)
qed

text \<open>
  C7. After every run the statistics report exactly the bytes of the resident values, and these stay
  within the reported capacity, which stays within the configured one.
\<close>

theorem store_bytes_bounded:
  assumes "node_store name sample cfg c" and "\<And>i j. lrb_env_ok (evs i j)" and "\<forall>op \<in> set opl. \<not> big_value op"
    and "cache_run (node_ops name) evs 0 opl c = Some (outs, c')"
  shows "uint (BytesUsed (Snapshot c')) = resident_bytes c' \<and>
    uint (BytesUsed (Snapshot c')) \<le> uint (BytesCapacity (Snapshot c')) \<and>
    uint (BytesCapacity (Snapshot c')) \<le> CapacityBytes cfg"
proof -
  have wf: "wf_cache any_inv c'" and cap: "map capacity (shards c') = map capacity (shards c)"
    using node_run_ok[where evs = evs and n = 0, OF assms(1-3)] assms(4) by auto
  note le = sum_used_le[OF wf] and node = node_store_ok(3,4)[OF assms(1)]
  have "uint (BytesUsed (Snapshot c')) = sum_list (map used (shards c'))"
    unfolding Snapshot_sums by (rule uint_word_of_int) (use le node cap in auto)
  moreover have "uint (BytesCapacity (Snapshot c')) = sum_list (map capacity (shards c'))"
    unfolding Snapshot_sums by (rule uint_word_of_int) (use le node cap in auto)
  ultimately show ?thesis using le node cap used_resident[OF wf] by simp
qed

lemma store_bytes_bounded_witness:
  "\<exists>c'. map_option snd (cache_run (node_ops ''lrb'') (\<lambda>_ _. demo_env) 0 [CAdmit [1] [2, 3] 5, CPut [7] [2] 9 5] demo_store) = Some c' \<and>
    uint (BytesUsed (Snapshot c')) = resident_bytes c' \<and> uint (BytesUsed (Snapshot c')) \<le> 100"
proof -
  let ?opl = "[CAdmit [1] [2, 3] 5, CPut [7] [2] 9 5]"
  have small: "\<forall>op \<in> set ?opl. \<not> big_value op" by (simp add: big_value_def)
  obtain outs c' where r: "cache_run (node_ops ''lrb'') (\<lambda>_ _. demo_env) 0 ?opl demo_store = Some (outs, c')"
    using node_run_ok[where evs = "\<lambda>_ _. demo_env" and n = 0, OF demo_node demo_env_ok small] by blast
  have "CapacityBytes demo_cfg = 100" by (simp add: demo_cfg_def)
  with store_bytes_bounded[OF demo_node demo_env_ok small r] r show ?thesis by auto
qed



end
